(* ===== verification/Prelude.thy ===== *)
theory Prelude
  imports Main
begin

text \<open>
  Shared vocabulary of the development: the result and error types of the Go code, Go maps and
  the order in which a \<open>range\<close> loop visits them, and the generic lemmas on lists and maps
  that more than one component uses.  The \<open>named_theorems\<close> collections are filled by the
  component theories.
\<close>

named_theorems status_defs \<open>the string values of the task states\<close>
named_theorems queue_defs \<open>the operations of the work queue\<close>
named_theorems go_simps \<open>characteristic equations of the models of Go constructs\<close>

section \<open>Errors as values\<close>

text \<open>
  A Go \<open>error\<close> that the code creates itself is a constructor with the values that its format
  string prints; an error that a component outside the repository returns is \<open>External\<close> with
  its text, and \<open>Wrapped\<close> is \<open>fmt.Errorf(\<dots> %v, err)\<close> around another error.
\<close>

datatype error =
    External string
  | Wrapped string error
  | UnsupportedState string
  | UnsupportedTransition string string
  | TaskNotFound
  | InvalidParams
  | OperationNotAllowed string string string
  | NoAvailableWorkers
  | NoCandidateWorkers
  | ExecutorNotFound string
  | UnknownChangeType string
  | TaskAlreadyRunning
  | NeedAfterRun string
  | ForceExit
  | TaskPanic string string
  | AlreadyRunning
  | WaitTimeout
  | PayloadNil
  | ContainerNotFound string
  | ExitCode int
  | PullTimeout
  | RegisterFailed
  | InstanceIdNotFound
  | NoGlobalUnicastIP

type_synonym 'a result = "error + 'a"

abbreviation Ok :: "'a \<Rightarrow> 'a result" where "Ok \<equiv> Inr"
abbreviation Err :: "error \<Rightarrow> 'a result" where "Err \<equiv> Inl"

text \<open>A Go statement that may panic returns \<open>Panic\<close> where the run time would unwind.\<close>

datatype 'a run = Panic | Return 'a

type_synonym time = int \<comment> \<open>\<open>time.Time\<close> and \<open>time.Duration\<close>: nanoseconds\<close>

definition second :: time where "second = 1000000000"
definition millisecond :: time where "millisecond = 1000000"
definition minute :: time where "minute = 60 * second"

section \<open>Go maps\<close>

text \<open>
  A Go map is a partial function.  A \<open>range\<close> loop visits every key once, in an order that the
  run time chooses: the loop is a list recursion over the entries \<open>go_range ks m\<close>, where the
  argument \<open>ks\<close> is that choice and \<open>range_order ks m\<close> says that it is one.
\<close>

definition range_order :: "'k list \<Rightarrow> ('k \<rightharpoonup> 'v) \<Rightarrow> bool" where
  "range_order ks m \<longleftrightarrow> distinct ks \<and> set ks = dom m"

fun go_range :: "'k list \<Rightarrow> ('k \<rightharpoonup> 'v) \<Rightarrow> ('k \<times> 'v) list" where
  "go_range [] m = []"
| "go_range (k # ks) m = (case m k of None \<Rightarrow> go_range ks m | Some v \<Rightarrow> (k, v) # go_range ks m)"

text \<open>Reading a string-valued map: the zero value where the key is absent.\<close>

definition go_get :: "('k \<rightharpoonup> string) \<Rightarrow> 'k \<Rightarrow> string" where
  "go_get m k = (case m k of None \<Rightarrow> [] | Some v \<Rightarrow> v)"

lemma go_get_upd [simp]: "go_get (m(k \<mapsto> v)) k' = (if k' = k then v else go_get m k')"
  by (simp add: go_get_def)

lemma go_get_empty [simp]: "go_get Map.empty k = []"
  by (simp add: go_get_def)

lemma set_go_range: "set (go_range ks m) = {(k, v). k \<in> set ks \<and> m k = Some v}"
  by (induction ks) (auto split: option.splits)

lemma keys_go_range: "map fst (go_range ks m) = filter (\<lambda>k. k \<in> dom m) ks"
  by (induction ks) (auto split: option.splits)

lemma range_order_keys: "range_order ks m \<Longrightarrow> map fst (go_range ks m) = ks"
  by (auto simp: keys_go_range range_order_def)

lemma range_order_finite: "range_order ks m \<Longrightarrow> finite (dom m)"
  unfolding range_order_def by (metis List.finite_set)

lemma map_of_go_range: "range_order ks m \<Longrightarrow> map_of (go_range ks m) = m"
proof -
  assume ro: "range_order ks m"
  then have d: "distinct (map fst (go_range ks m))"
    by (simp add: range_order_keys range_order_def)
  show ?thesis
  proof
    fix k
    show "map_of (go_range ks m) k = m k"
    proof (cases "m k")
      case None
      then have "k \<notin> fst ` set (go_range ks m)"
        by (auto simp: set_go_range)
      with None show ?thesis by (simp add: map_of_eq_None_iff)
    next
      case (Some v)
      with ro have "(k, v) \<in> set (go_range ks m)"
        by (auto simp: set_go_range range_order_def)
      with d Some show ?thesis by simp
    qed
  qed
qed

lemma set_snd_go_range:
  "range_order ks m \<Longrightarrow> set (map snd (go_range ks m)) = ran m"
  by (force simp: set_go_range range_order_def ran_def)

lemma length_go_range: "range_order ks m \<Longrightarrow> length (go_range ks m) = card (dom m)"
  by (metis distinct_card length_map range_order_def range_order_keys)

lemma range_order_upd_other: "m k \<noteq> None \<Longrightarrow> range_order ks (m(k \<mapsto> v)) = range_order ks m"
  by (auto simp: range_order_def insert_absorb domIff)

section \<open>Lists\<close>

text \<open>\<open>lo.KeyBy\<close> and every loop that fills a map from a list: the last entry of a key wins.\<close>

definition key_by :: "('a \<Rightarrow> 'k) \<Rightarrow> 'a list \<Rightarrow> ('k \<rightharpoonup> 'a)" where
  "key_by f xs = foldl (\<lambda>m x. m(f x \<mapsto> x)) Map.empty xs"

lemma foldl_upd_map:
  "foldl (\<lambda>m x. m(f x \<mapsto> x)) m xs = m ++ map_of (rev (map (\<lambda>x. (f x, x)) xs))"
  by (induction xs arbitrary: m) (auto simp: map_add_upd_left map_add_def split: option.splits)

lemma key_by_alt: "key_by f xs = map_of (rev (map (\<lambda>x. (f x, x)) xs))"
  by (simp add: key_by_def foldl_upd_map)

lemma key_by_None_iff: "key_by f xs k = None \<longleftrightarrow> k \<notin> f ` set xs"
  by (force simp: key_by_alt map_of_eq_None_iff)

lemma key_by_SomeD: "key_by f xs k = Some x \<Longrightarrow> x \<in> set xs \<and> f x = k"
  by (auto simp: key_by_alt dest: map_of_SomeD)

lemma key_by_distinct:
  assumes "distinct (map f xs)" and "x \<in> set xs"
  shows "key_by f xs (f x) = Some x"
proof -
  have "distinct (map fst (rev (map (\<lambda>x. (f x, x)) xs)))"
    using assms(1) by (simp add: rev_map [symmetric] comp_def)
  moreover have "(f x, x) \<in> set (rev (map (\<lambda>x. (f x, x)) xs))"
    using assms(2) by auto
  ultimately show ?thesis by (simp add: key_by_alt)
qed

lemma distinct_map_filter_sub:
  "distinct (map f xs) \<Longrightarrow> distinct (map f (filter P xs))"
  by (induction xs) auto

text \<open>
  A \<open>distinct\<close> fact about named constants, unfolded with \<open>distinct_unfold\<close>, becomes the
  rewrite rules that decide every comparison of two of them in one orientation; the fact about
  the reversed list gives the other orientation.
\<close>

lemmas distinct_unfold =
  distinct.simps list.set insert_iff empty_iff de_Morgan_disj simp_thms

lemma distinct_reversed: "distinct xs \<Longrightarrow> distinct (rev xs)"
  by simp

section \<open>Strings\<close>

text \<open>\<open>strings.HasPrefix\<close>.\<close>

fun HasPrefix :: "string \<Rightarrow> string \<Rightarrow> bool" where
  "HasPrefix s [] = True"
| "HasPrefix [] (p # ps) = False"
| "HasPrefix (c # cs) (p # ps) = (c = p \<and> HasPrefix cs ps)"

lemma HasPrefix_iff: "HasPrefix s p \<longleftrightarrow> (\<exists>t. s = p @ t)"
  by (induction s p rule: HasPrefix.induct) auto

end
