(* ===== verification/Metrics.thy ===== *)
theory Metrics
  imports Prelude
begin

text \<open>
  The metrics of the work queue, \<^verbatim>\<open>internal/queue/metrics.go\<close>.  A metrics provider is code outside
  the repository; what the queue tells it is the list of calls made on its instruments, in
  order.  Durations stay nanosecond counts: the last step of \<open>sinceInSeconds\<close>, the conversion
  to a floating point number of seconds, is left out.
\<close>

datatype metric_call =
    DepthInc | DepthDec | AddsInc | RetriesInc
  | LatencyObserve time
  | WorkDurationObserve time
  | UnfinishedWorkSet time
  | LongestRunningSet time

record 'a defaultQueueMetrics =
  addTimes :: "'a \<rightharpoonup> time"
  processingStartTimes :: "'a \<rightharpoonup> time"
  metric_calls :: "metric_call list"

text \<open>
  The interface \<open>queueMetrics\<close> has two implementations; the pointer to the second may be nil,
  which its methods test for.
\<close>

datatype 'a queueMetrics =
    NoMetrics
  | DefaultMetrics "'a defaultQueueMetrics option"

definition sinceInSeconds :: "time \<Rightarrow> time \<Rightarrow> time" where
  "sinceInSeconds now start = now - start"

definition default_add :: "time \<Rightarrow> 'a \<Rightarrow> 'a defaultQueueMetrics \<Rightarrow> 'a defaultQueueMetrics" where
  "default_add now item m =
     (let m1 = m\<lparr>metric_calls := metric_calls m @ [AddsInc, DepthInc]\<rparr>
      in if addTimes m1 item = None then m1\<lparr>addTimes := (addTimes m1)(item \<mapsto> now)\<rparr> else m1)"

definition default_get :: "time \<Rightarrow> 'a \<Rightarrow> 'a defaultQueueMetrics \<Rightarrow> 'a defaultQueueMetrics" where
  "default_get now item m =
     (let m1 = m\<lparr>metric_calls := metric_calls m @ [DepthDec],
                 processingStartTimes := (processingStartTimes m)(item \<mapsto> now)\<rparr>
      in case addTimes m1 item of
           None \<Rightarrow> m1
         | Some startTime \<Rightarrow>
             m1\<lparr>metric_calls := metric_calls m1 @ [LatencyObserve (sinceInSeconds now startTime)],
                addTimes := (addTimes m1)(item := None)\<rparr>)"

definition default_done :: "time \<Rightarrow> 'a \<Rightarrow> 'a defaultQueueMetrics \<Rightarrow> 'a defaultQueueMetrics" where
  "default_done now item m =
     (case processingStartTimes m item of
        None \<Rightarrow> m
      | Some startTime \<Rightarrow>
          m\<lparr>metric_calls := metric_calls m @ [WorkDurationObserve (sinceInSeconds now startTime)],
            processingStartTimes := (processingStartTimes m)(item := None)\<rparr>)"

text \<open>The loop of \<open>updateUnfinishedWork\<close> over the start times; \<open>ks\<close> is the order of the range.\<close>

fun unfinished_loop :: "time \<Rightarrow> ('a \<times> time) list \<Rightarrow> time \<Rightarrow> time \<Rightarrow> time \<times> time" where
  "unfinished_loop now [] sum_age oldest = (sum_age, oldest)"
| "unfinished_loop now ((_, t) # es) sum_age oldest =
     (let age = sinceInSeconds now t
      in unfinished_loop now es (sum_age + age) (if age > oldest then age else oldest))"

text \<open>
  This method, unlike the others, does not test for a nil receiver; \<open>newQueueMetrics\<close> never builds one,
  so \<open>lift_metrics\<close> treats all four alike.
\<close>

definition default_updateUnfinishedWork ::
    "'a list \<Rightarrow> time \<Rightarrow> 'a defaultQueueMetrics \<Rightarrow> 'a defaultQueueMetrics" where
  "default_updateUnfinishedWork ks now m =
     (let (sum_age, oldest) = unfinished_loop now (go_range ks (processingStartTimes m)) 0 0
      in m\<lparr>metric_calls := metric_calls m @ [UnfinishedWorkSet sum_age, LongestRunningSet oldest]\<rparr>)"

fun lift_metrics ::
    "('a defaultQueueMetrics \<Rightarrow> 'a defaultQueueMetrics) \<Rightarrow> 'a queueMetrics \<Rightarrow> 'a queueMetrics" where
  "lift_metrics f NoMetrics = NoMetrics"
| "lift_metrics f (DefaultMetrics None) = DefaultMetrics None"
| "lift_metrics f (DefaultMetrics (Some m)) = DefaultMetrics (Some (f m))"

definition metrics_add :: "time \<Rightarrow> 'a \<Rightarrow> 'a queueMetrics \<Rightarrow> 'a queueMetrics" where
  "metrics_add now item = lift_metrics (default_add now item)"
definition metrics_get :: "time \<Rightarrow> 'a \<Rightarrow> 'a queueMetrics \<Rightarrow> 'a queueMetrics" where
  "metrics_get now item = lift_metrics (default_get now item)"
definition metrics_done :: "time \<Rightarrow> 'a \<Rightarrow> 'a queueMetrics \<Rightarrow> 'a queueMetrics" where
  "metrics_done now item = lift_metrics (default_done now item)"
definition metrics_updateUnfinishedWork ::
    "'a list \<Rightarrow> time \<Rightarrow> 'a queueMetrics \<Rightarrow> 'a queueMetrics" where
  "metrics_updateUnfinishedWork ks now = lift_metrics (default_updateUnfinishedWork ks now)"

section \<open>The factory\<close>

datatype MetricsProvider = NoopProvider | Provider string

record queueMetricsFactory =
  metricsProvider :: "MetricsProvider"
  onlyOnce :: bool \<comment> \<open>the \<open>sync.Once\<close> has run\<close>

definition globalMetricsFactory :: "queueMetricsFactory" where
  "globalMetricsFactory = \<lparr>metricsProvider = NoopProvider, onlyOnce = False\<rparr>"

definition setProvider ::
    "MetricsProvider \<Rightarrow> queueMetricsFactory \<Rightarrow> queueMetricsFactory" where
  "setProvider mp f =
     (if onlyOnce f then f else f\<lparr>metricsProvider := mp, onlyOnce := True\<rparr>)"

definition newQueueMetrics :: "string \<Rightarrow> queueMetricsFactory \<Rightarrow> 'a queueMetrics" where
  "newQueueMetrics name f =
     (if length name = 0 \<or> metricsProvider f = NoopProvider then NoMetrics
      else DefaultMetrics (Some \<lparr>addTimes = Map.empty, processingStartTimes = Map.empty,
                                 metric_calls = []\<rparr>))"

lemma metrics_NoMetrics [simp]:
  "metrics_add now x NoMetrics = NoMetrics" "metrics_get now x NoMetrics = NoMetrics"
  "metrics_done now x NoMetrics = NoMetrics" "metrics_updateUnfinishedWork ks now NoMetrics = NoMetrics"
  by (simp_all add: metrics_add_def metrics_get_def metrics_done_def
      metrics_updateUnfinishedWork_def)

lemma newQueueMetrics_unnamed [simp]: "newQueueMetrics [] f = NoMetrics"
  by (simp add: newQueueMetrics_def)

lemma unfinished_loop_eq:
  "unfinished_loop now es sum_age oldest =
     (sum_age + (\<Sum>e\<leftarrow>es. now - snd e), fold max (map (\<lambda>e. now - snd e) es) oldest)"
  by (induction now es sum_age oldest rule: unfinished_loop.induct)
    (auto simp: sinceInSeconds_def max_def Let_def)

section \<open>Retries\<close>

text \<open>
  Every method of the no-op provider returns a metric that ignores its calls; a metric of another
  provider records them.  \<open>None\<close> is the nil pointer that \<open>newRetryMetrics\<close> returns inside the
  interface when there is no name.
\<close>

datatype metric = NoopMetric | Metric string

fun new_metric :: "MetricsProvider \<Rightarrow> metric" where
  "new_metric NoopProvider = NoopMetric"
| "new_metric (Provider p) = Metric p"

fun instrument :: "metric \<Rightarrow> metric_call \<Rightarrow> metric_call list" where
  "instrument NoopMetric c = []"
| "instrument (Metric p) c = [c]"

record defaultRetryMetrics =
  retries :: metric
  retry_calls :: "metric_call list"

definition newRetryMetrics ::
    "string \<Rightarrow> MetricsProvider option \<Rightarrow> queueMetricsFactory \<Rightarrow> defaultRetryMetrics option" where
  "newRetryMetrics name provider f =
     (if length name = 0 then None
      else let p = (case provider of None \<Rightarrow> metricsProvider f | Some p \<Rightarrow> p)
        in Some \<lparr>retries = new_metric p, retry_calls = []\<rparr>)"

definition retry :: "defaultRetryMetrics option \<Rightarrow> defaultRetryMetrics option" where
  "retry m =
     (case m of
        None \<Rightarrow> None
      | Some d \<Rightarrow> Some (d\<lparr>retry_calls := retry_calls d @ instrument (retries d) RetriesInc\<rparr>))"

text \<open>Every retry is counted once, unless there is no name or no provider.\<close>

lemma retry_counts:
  "map_option retry_calls ((retry ^^ n) (newRetryMetrics name provider f)) =
     (if name = [] then None
      else Some (if (case provider of None \<Rightarrow> metricsProvider f | Some p \<Rightarrow> p) = NoopProvider then []
        else replicate n RetriesInc))"
proof -
  have "(retry ^^ n) None = None" by (induction n) (simp_all add: retry_def)
  moreover have "(retry ^^ n) (Some \<lparr>retries = new_metric p, retry_calls = cs\<rparr>) =
      Some \<lparr>retries = new_metric p, retry_calls = cs @ (if p = NoopProvider then [] else replicate n RetriesInc)\<rparr>"
    for p cs
    by (cases p; induction n arbitrary: cs) (simp_all add: retry_def replicate_append_same)
  ultimately show ?thesis by (simp add: newRetryMetrics_def Let_def)
qed

section \<open>Properties\<close>

text \<open>
  Only the first provider is ever installed; every later call of \<open>SetProvider\<close> is ignored.
\<close>

theorem setProvider_first_wins:
  "setProvider mp' (setProvider mp globalMetricsFactory) = setProvider mp globalMetricsFactory \<and>
   metricsProvider (setProvider mp globalMetricsFactory) = mp"
  by (simp add: setProvider_def globalMetricsFactory_def)

text \<open>
  An item that is taken from the queue and reported done under the same value leaves no
  start time behind, its latency and work duration are each observed once with the times that
  passed; reported done under a different value (as the worker does, with only the task key
  filled in), its start time stays and no work duration is observed.
\<close>

theorem metrics_item_cycle:
  assumes "addTimes m x = None" and "processingStartTimes m x = None"
    and "y \<noteq> x" and "processingStartTimes m y = None"
  shows "default_done t3 x (default_get t2 x (default_add t1 x m)) =
           m\<lparr>metric_calls := metric_calls m @ [AddsInc, DepthInc, DepthDec,
               LatencyObserve (t2 - t1), WorkDurationObserve (t3 - t2)]\<rparr> \<and>
         default_done t3 y (default_get t2 x (default_add t1 x m)) =
           default_get t2 x (default_add t1 x m) \<and>
         processingStartTimes (default_get t2 x (default_add t1 x m)) x = Some t2"
  using assms
  by (cases m) (simp add: default_done_def default_get_def default_add_def sinceInSeconds_def
      Let_def fun_upd_idem)

theorem metrics_item_cycle_witness:
  "default_done 9 ''b'' (default_get 7 ''a'' (default_add 4 ''a'' \<lparr>addTimes = Map.empty,
      processingStartTimes = Map.empty, metric_calls = []\<rparr>)) =
   \<lparr>addTimes = Map.empty, processingStartTimes = [''a'' \<mapsto> 7],
     metric_calls = [AddsInc, DepthInc, DepthDec, LatencyObserve 3]\<rparr>"
proof -
  let ?m = "\<lparr>addTimes = Map.empty, processingStartTimes = Map.empty, metric_calls = []\<rparr>"
  have "default_done 9 ''b'' (default_get 7 ''a'' (default_add 4 ''a'' ?m)) =
      default_get 7 ''a'' (default_add 4 ''a'' ?m)"
    using metrics_item_cycle [of ?m "''a''" "''b''" 9 7 4] by simp
  then show ?thesis
    by (simp add: default_get_def default_add_def sinceInSeconds_def Let_def)
qed

end
