(* ===== verification/WorkQueue.thy ===== *)
theory WorkQueue
  imports Metrics
begin

text \<open>
  The work queue of \<^verbatim>\<open>internal/queue\<close>: the slice that stores the items (\<open>queue[T]\<close>), the key sets
  of \<^verbatim>\<open>set.go\<close> and the operations of \<open>Typed\<close> in \<^verbatim>\<open>queue.go\<close>.  Each operation holds the lock from its
  first to its last line, so it is one step; the two that wait on the condition variable,
  \<open>Get\<close> and \<open>ShutDownWithDrain\<close>, return at the point where they would wait.
\<close>

section \<open>The slice that stores the items\<close>

text \<open>
  A slice has its elements and its capacity.  How far \<open>append\<close> grows a full slice is the run
  time's choice: \<open>growslice c n\<close> is the new capacity for an old one \<open>c\<close> and \<open>n\<close> elements.
\<close>

record 'a slice =
  elems :: "'a list"
  capacity :: nat
  growslice :: "nat \<Rightarrow> nat \<Rightarrow> nat"

definition Touch :: "'a \<Rightarrow> 'a slice \<Rightarrow> 'a slice" where
  "Touch item q = q"

definition Push :: "'a \<Rightarrow> 'a slice \<Rightarrow> 'a slice" where
  "Push item q =
     (let n = length (elems q) + 1
      in q\<lparr>elems := elems q @ [item],
           capacity := (if n \<le> capacity q then capacity q else growslice q (capacity q) n)\<rparr>)"

definition slice_Len :: "'a slice \<Rightarrow> nat" where
  "slice_Len q = length (elems q)"

definition Pop :: "'a slice \<Rightarrow> ('a \<times> 'a slice) run" where
  "Pop q =
     (case elems q of
        [] \<Rightarrow> Panic
      | item # rest \<Rightarrow>
          let q1 = q\<lparr>elems := rest, capacity := capacity q - 1\<rparr>
          in if capacity q1 > 256 \<and> length (elems q1) < capacity q1 div 4
             then Return (item, q1\<lparr>capacity := length (elems q1)\<rparr>)
             else Return (item, q1))"

definition slice_wf :: "'a slice \<Rightarrow> bool" where
  "slice_wf q \<longleftrightarrow> length (elems q) \<le> capacity q \<and> (\<forall>c n. n \<le> growslice q c n)"

text \<open>The interface \<open>Queue[T]\<close> with the laws of a first-in-first-out store.\<close>

locale fifo_store =
  fixes touch :: "'a \<Rightarrow> 'q \<Rightarrow> 'q" and push :: "'a \<Rightarrow> 'q \<Rightarrow> 'q"
    and len :: "'q \<Rightarrow> nat" and pop :: "'q \<Rightarrow> ('a \<times> 'q) run"
    and items :: "'q \<Rightarrow> 'a list" and invar :: "'q \<Rightarrow> bool"
  assumes items_touch: "invar q \<Longrightarrow> items (touch x q) = items q"
    and items_push: "invar q \<Longrightarrow> items (push x q) = items q @ [x]"
    and len_items: "invar q \<Longrightarrow> len q = length (items q)"
    and pop_Nil: "invar q \<Longrightarrow> items q = [] \<Longrightarrow> pop q = Panic"
    and pop_Cons: "invar q \<Longrightarrow> items q = x # xs \<Longrightarrow>
          \<exists>q'. pop q = Return (x, q') \<and> items q' = xs \<and> invar q'"
    and invar_touch: "invar q \<Longrightarrow> invar (touch x q)"
    and invar_push: "invar q \<Longrightarrow> invar (push x q)"

text \<open>Popping \<open>n\<close> times in a row.\<close>

fun pop_many :: "('q \<Rightarrow> ('a \<times> 'q) run) \<Rightarrow> nat \<Rightarrow> 'q \<Rightarrow> ('a list \<times> 'q) run" where
  "pop_many pop 0 q = Return ([], q)"
| "pop_many pop (Suc n) q =
     (case pop q of
        Panic \<Rightarrow> Panic
      | Return (x, q') \<Rightarrow>
          (case pop_many pop n q' of Panic \<Rightarrow> Panic | Return (xs, q'') \<Rightarrow> Return (x # xs, q'')))"

context fifo_store begin

lemma pop_no_panic: "invar q \<Longrightarrow> len q \<noteq> 0 \<Longrightarrow> pop q \<noteq> Panic"
  using pop_Cons by (cases "items q") (fastforce simp: len_items)+

lemma pop_many_take:
  "invar q \<Longrightarrow> n \<le> length (items q) \<Longrightarrow>
     \<exists>q'. pop_many pop n q = Return (take n (items q), q') \<and> items q' = drop n (items q) \<and> invar q'"
proof (induction n arbitrary: q)
  case 0
  then show ?case by simp
next
  case (Suc n)
  then obtain x xs where xs: "items q = x # xs" by (cases "items q") auto
  with pop_Cons Suc.prems obtain q1 where q1: "pop q = Return (x, q1)" "items q1 = xs" "invar q1"
    by blast
  with Suc.IH [of q1] Suc.prems xs show ?case by auto
qed

lemma push_all_pop_all:
  assumes "invar q" and "items q = []"
  shows "\<exists>q'. pop_many pop (length xs) (foldl (\<lambda>q x. push x q) q xs) = Return (xs, q') \<and> items q' = []"
proof -
  have "items (foldl (\<lambda>q x. push x q) r xs) = items r @ xs \<and> invar (foldl (\<lambda>q x. push x q) r xs)"
    if "invar r" for r
    using that by (induction xs arbitrary: r) (auto simp: items_push invar_push)
  with assms have "items (foldl (\<lambda>q x. push x q) q xs) = xs" "invar (foldl (\<lambda>q x. push x q) q xs)"
    by auto
  with pop_many_take [of "foldl (\<lambda>q x. push x q) q xs" "length xs"] show ?thesis by auto
qed

end

lemma Pop_elems: "Pop q = Return (x, q') \<Longrightarrow> elems q = x # elems q'"
  by (auto simp: Pop_def Let_def split: list.splits if_splits)

lemma Pop_wf: "slice_wf q \<Longrightarrow> Pop q = Return (x, q') \<Longrightarrow> slice_wf q'"
  by (auto simp: Pop_def slice_wf_def Let_def split: list.splits if_splits)

lemma Pop_Cons: "elems q = x # xs \<Longrightarrow> \<exists>q'. Pop q = Return (x, q') \<and> elems q' = xs"
  by (simp add: Pop_def Let_def)

lemma Push_wf: "slice_wf q \<Longrightarrow> slice_wf (Push x q)"
  by (auto simp: Push_def slice_wf_def Let_def)

lemma Push_elems [simp]: "elems (Push x q) = elems q @ [x]"
  by (simp add: Push_def Let_def)

interpretation slice: fifo_store Touch Push slice_Len Pop elems slice_wf
proof unfold_locales
  fix q :: "'a slice" and x xs
  assume "slice_wf q" and "elems q = x # xs"
  then show "\<exists>q'. Pop q = Return (x, q') \<and> elems q' = xs \<and> slice_wf q'"
    using Pop_Cons Pop_wf by metis
qed (auto simp: Touch_def slice_Len_def Pop_def intro: Push_wf)

section \<open>Key sets\<close>

text \<open>
  \<open>set[t]\<close> is a Go map from keys to the empty struct.  The dynamic test
  \<open>any(item).(UniKey[t])\<close> depends on the item type only: \<open>uk\<close> is \<open>None\<close> for a type without
  the method and \<open>Some GetUniKey\<close> for a type with it.
\<close>

type_synonym 'a unikey = "('a \<Rightarrow> 'a) option"

definition getKey :: "'a unikey \<Rightarrow> 'a \<Rightarrow> 'a" where
  "getKey uk item = (case uk of Some uniKeyer \<Rightarrow> uniKeyer item | None \<Rightarrow> item)"

definition set_has :: "'a unikey \<Rightarrow> 'a set \<Rightarrow> 'a \<Rightarrow> bool" where
  "set_has uk s item \<longleftrightarrow> getKey uk item \<in> s"
definition set_insert :: "'a unikey \<Rightarrow> 'a set \<Rightarrow> 'a \<Rightarrow> 'a set" where
  "set_insert uk s item = insert (getKey uk item) s"
definition set_delete :: "'a unikey \<Rightarrow> 'a set \<Rightarrow> 'a \<Rightarrow> 'a set" where
  "set_delete uk s item = s - {getKey uk item}"
definition set_len :: "'a set \<Rightarrow> nat" where
  "set_len s = card s"

lemmas set_defs [queue_defs] = set_has_def set_insert_def set_delete_def

lemma set_len_0_iff: "finite s \<Longrightarrow> set_len s = 0 \<longleftrightarrow> s = {}"
  by (simp add: set_len_def)

section \<open>The queue\<close>

text \<open>Calls on the condition variable \<open>q.cond\<close>, kept in the order in which they are made.\<close>

datatype cond_call = Signal | Broadcast

record 'a Typed =
  queue :: "'a slice"
  dirty :: "'a set"
  processing :: "'a set"
  cond :: "cond_call list"
  shuttingDown :: bool
  drain :: bool
  metrics :: "'a queueMetrics"
  clock :: time \<comment> \<open>what \<open>clock.Now()\<close> returns\<close>

definition DefaultQueue :: "(nat \<Rightarrow> nat \<Rightarrow> nat) \<Rightarrow> 'a slice" where
  "DefaultQueue grow = \<lparr>elems = [], capacity = 0, growslice = grow\<rparr>"

definition newQueue :: "'a slice \<Rightarrow> 'a queueMetrics \<Rightarrow> time \<Rightarrow> 'a Typed" where
  "newQueue q m now =
     \<lparr>queue = q, dirty = {}, processing = {},
      cond = [], shuttingDown = False, drain = False, metrics = m, clock = now\<rparr>"

text \<open>
  The configuration; \<open>None\<close> is nil.  The clock of the run time (\<open>RealClock\<close>) reads \<open>now\<close>, and \<open>grow\<close> is
  how the run time grows the slice of the default queue.
\<close>

record 'a TypedQueueConfig =
  cfg_Name :: string
  cfg_MetricsProvider :: "MetricsProvider option"
  cfg_Clock :: "time option"
  cfg_Queue :: "'a slice option"

definition newQueueWithConfig :: "(nat \<Rightarrow> nat \<Rightarrow> nat) \<Rightarrow> time \<Rightarrow> 'a TypedQueueConfig \<Rightarrow> 'a Typed" where
  "newQueueWithConfig grow now config =
     (let metricsFactory = (case cfg_MetricsProvider config of
            Some p \<Rightarrow> \<lparr>metricsProvider = p, onlyOnce = False\<rparr> | None \<Rightarrow> globalMetricsFactory);
          c = (case cfg_Clock config of None \<Rightarrow> now | Some t \<Rightarrow> t);
          q = (case cfg_Queue config of None \<Rightarrow> DefaultQueue grow | Some q \<Rightarrow> q)
      in newQueue q (newQueueMetrics (cfg_Name config) metricsFactory) c)"

definition NewTypedWithConfig :: "(nat \<Rightarrow> nat \<Rightarrow> nat) \<Rightarrow> time \<Rightarrow> 'a TypedQueueConfig \<Rightarrow> 'a Typed" where
  "NewTypedWithConfig grow now config = newQueueWithConfig grow now config"

definition NewTyped :: "(nat \<Rightarrow> nat \<Rightarrow> nat) \<Rightarrow> time \<Rightarrow> 'a Typed" where
  "NewTyped grow now = NewTypedWithConfig grow now
     \<lparr>cfg_Name = [], cfg_MetricsProvider = None, cfg_Clock = None, cfg_Queue = None\<rparr>"

lemma NewTyped_eq:
  "NewTyped grow now = newQueue (DefaultQueue grow) (newQueueMetrics [] globalMetricsFactory) now"
  by (simp add: NewTyped_def NewTypedWithConfig_def newQueueWithConfig_def)

lemmas newQueue_simps = NewTyped_eq newQueue_def DefaultQueue_def

definition Add :: "'a unikey \<Rightarrow> 'a \<Rightarrow> 'a Typed \<Rightarrow> bool \<times> 'a Typed" where
  "Add uk item q =
     (if shuttingDown q then (False, q)
      else if set_has uk (dirty q) item then
        (if \<not> set_has uk (processing q) item
         then (True, q\<lparr>queue := Touch item (queue q)\<rparr>)
         else (True, q))
      else if set_has uk (processing q) item then (True, q)
      else (False, q\<lparr>metrics := metrics_add (clock q) item (metrics q),
                     dirty := set_insert uk (dirty q) item,
                     queue := Push item (queue q),
                     cond := cond q @ [Signal]\<rparr>))"

definition Exist :: "'a unikey \<Rightarrow> 'a \<Rightarrow> 'a Typed \<Rightarrow> bool" where
  "Exist uk item q \<longleftrightarrow> set_has uk (dirty q) item \<or> set_has uk (processing q) item"

definition Len :: "'a Typed \<Rightarrow> nat" where
  "Len q = slice_Len (queue q)"

text \<open>\<open>Get\<close>: \<open>Blocked\<close> where the caller waits, \<open>Shutdown\<close> for the zero item with \<open>true\<close>.\<close>

datatype 'a get_outcome = Blocked | Shutdown | Item 'a | GetPanic

definition Get :: "'a unikey \<Rightarrow> 'a Typed \<Rightarrow> 'a get_outcome \<times> 'a Typed" where
  "Get uk q =
     (if slice_Len (queue q) = 0 \<and> \<not> shuttingDown q then (Blocked, q)
      else if slice_Len (queue q) = 0 then (Shutdown, q)
      else (case Pop (queue q) of
              Panic \<Rightarrow> (GetPanic, q)
            | Return (item, rest) \<Rightarrow>
                (Item item, q\<lparr>queue := rest,
                              metrics := metrics_get (clock q) item (metrics q),
                              processing := set_insert uk (processing q) item,
                              dirty := set_delete uk (dirty q) item\<rparr>)))"

definition Done :: "'a unikey \<Rightarrow> 'a \<Rightarrow> 'a Typed \<Rightarrow> 'a Typed" where
  "Done uk item q =
     (let q1 = q\<lparr>metrics := metrics_done (clock q) item (metrics q),
                 processing := set_delete uk (processing q) item\<rparr>
      in if set_len (processing q1) = 0 then q1\<lparr>cond := cond q1 @ [Signal]\<rparr> else q1)"

definition ShutDown :: "'a Typed \<Rightarrow> 'a Typed" where
  "ShutDown q = q\<lparr>drain := False, shuttingDown := True, cond := cond q @ [Broadcast]\<rparr>"

text \<open>\<open>ShutDownWithDrain\<close> up to its loop, and the condition on which the loop waits.\<close>

definition ShutDownWithDrain :: "'a Typed \<Rightarrow> 'a Typed" where
  "ShutDownWithDrain q = q\<lparr>drain := True, shuttingDown := True, cond := cond q @ [Broadcast]\<rparr>"

definition drain_waits :: "'a Typed \<Rightarrow> bool" where
  "drain_waits q \<longleftrightarrow> set_len (processing q) \<noteq> 0 \<and> drain q"

definition ShuttingDown :: "'a Typed \<Rightarrow> bool" where
  "ShuttingDown q = shuttingDown q"

text \<open>One tick of \<open>updateUnfinishedWorkLoop\<close>: whether the loop goes on, and the new state.\<close>

definition updateUnfinishedWork_tick :: "'a list \<Rightarrow> 'a Typed \<Rightarrow> bool \<times> 'a Typed" where
  "updateUnfinishedWork_tick ks q =
     (if \<not> shuttingDown q
      then (True, q\<lparr>metrics := metrics_updateUnfinishedWork ks (clock q) (metrics q)\<rparr>)
      else (False, q))"

lemmas queue_ops [queue_defs] =
  Add_def Exist_def Len_def Get_def Done_def ShutDown_def ShutDownWithDrain_def Touch_def
  slice_Len_def

section \<open>Invariant\<close>

text \<open>
  What the comments on the fields of \<open>Typed\<close> promise: every stored item is dirty and not being
  processed.  The code keeps more: no two stored items share a key, every dirty key is stored,
  and no key is dirty and processing at once.
\<close>

definition queue_inv :: "'a unikey \<Rightarrow> 'a Typed \<Rightarrow> bool" where
  "queue_inv uk q \<longleftrightarrow>
     slice_wf (queue q) \<and>
     distinct (map (getKey uk) (elems (queue q))) \<and>
     dirty q = getKey uk ` set (elems (queue q)) \<and>
     dirty q \<inter> processing q = {} \<and>
     finite (processing q)"

lemma queue_invI:
  assumes "slice_wf (queue q)" "distinct (map (getKey uk) (elems (queue q)))"
    "dirty q = getKey uk ` set (elems (queue q))" "dirty q \<inter> processing q = {}"
    "finite (processing q)"
  shows "queue_inv uk q"
  using assms by (simp add: queue_inv_def)

lemma newQueue_inv: "(\<And>c n. n \<le> grow c n) \<Longrightarrow> queue_inv uk (newQueue (DefaultQueue grow) m now)"
  by (simp add: queue_inv_def newQueue_simps slice_wf_def)

lemma Add_inv: "queue_inv uk q \<Longrightarrow> queue_inv uk (snd (Add uk item q))"
  by (auto simp: queue_inv_def queue_defs intro: Push_wf)

lemma Get_cases:
  assumes "queue_inv uk q"
  obtains (Blocked) "elems (queue q) = []" "\<not> shuttingDown q" "Get uk q = (Blocked, q)"
  | (Shutdown) "elems (queue q) = []" "shuttingDown q" "Get uk q = (Shutdown, q)"
  | (Item) x xs rest where "elems (queue q) = x # xs" "Pop (queue q) = Return (x, rest)"
      "elems rest = xs" "slice_wf rest"
      "Get uk q = (Item x, q\<lparr>queue := rest, metrics := metrics_get (clock q) x (metrics q),
         processing := insert (getKey uk x) (processing q),
         dirty := dirty q - {getKey uk x}\<rparr>)"
proof (cases "elems (queue q)")
  case Nil
  then show thesis using that(1,2) by (cases "shuttingDown q") (auto simp: queue_defs)
next
  case (Cons x xs)
  with assms slice.pop_Cons [of "queue q" x xs] obtain rest where
    "Pop (queue q) = Return (x, rest)" "elems rest = xs" "slice_wf rest"
    by (auto simp: queue_inv_def)
  with Cons show thesis using that(3) by (simp add: queue_defs)
qed

lemma Get_inv:
  assumes inv: "queue_inv uk q"
  shows "queue_inv uk (snd (Get uk q))"
  using inv
proof (cases rule: Get_cases)
  case (Item x xs rest)
  with inv show ?thesis by (auto simp: queue_inv_def)
qed (use inv in simp_all)

lemma Done_inv: "queue_inv uk q \<Longrightarrow> queue_inv uk (Done uk item q)"
  by (auto simp: queue_inv_def queue_defs Let_def)

lemma ShutDown_inv [simp]: "queue_inv uk (ShutDown q) = queue_inv uk q"
  by (simp add: queue_inv_def queue_defs)

lemma ShutDownWithDrain_inv [simp]: "queue_inv uk (ShutDownWithDrain q) = queue_inv uk q"
  by (simp add: queue_inv_def queue_defs)

lemma tick_inv: "queue_inv uk q \<Longrightarrow> queue_inv uk (snd (updateUnfinishedWork_tick ks q))"
  by (simp add: updateUnfinishedWork_tick_def queue_inv_def split: if_split) blast

section \<open>The contract of \<open>TypedInterface\<close>\<close>

text \<open>
  What a client of the queue may rely on, in terms of the items that wait (\<open>pending\<close>), the
  keys that are being processed (\<open>active\<close>) and whether the queue is shut down (\<open>closed\<close>).
\<close>

locale work_queue =
  fixes key :: "'a \<Rightarrow> 'a" and add :: "'a \<Rightarrow> 'q \<Rightarrow> bool \<times> 'q"
    and get :: "'q \<Rightarrow> 'a get_outcome \<times> 'q" and finish :: "'a \<Rightarrow> 'q \<Rightarrow> 'q"
    and exist :: "'a \<Rightarrow> 'q \<Rightarrow> bool" and closed :: "'q \<Rightarrow> bool"
    and pending :: "'q \<Rightarrow> 'a list" and active :: "'q \<Rightarrow> 'a set" and invar :: "'q \<Rightarrow> bool"
  assumes exist_iff: "invar q \<Longrightarrow> exist x q \<longleftrightarrow> key x \<in> key ` set (pending q) \<union> active q"
    and distinct_pending: "invar q \<Longrightarrow> distinct (map key (pending q))"
    and add_closed: "closed q \<Longrightarrow> add x q = (False, q)"
    and add_known: "invar q \<Longrightarrow> \<not> closed q \<Longrightarrow> exist x q \<Longrightarrow> add x q = (True, q)"
    and add_new: "invar q \<Longrightarrow> \<not> closed q \<Longrightarrow> \<not> exist x q \<Longrightarrow>
          \<not> fst (add x q) \<and> pending (snd (add x q)) = pending q @ [x] \<and>
          active (snd (add x q)) = active q \<and> \<not> closed (snd (add x q))"
    and get_Nil: "invar q \<Longrightarrow> pending q = [] \<Longrightarrow>
          get q = (if closed q then Shutdown else Blocked, q)"
    and get_Cons: "invar q \<Longrightarrow> pending q = x # xs \<Longrightarrow>
          fst (get q) = Item x \<and> pending (snd (get q)) = xs \<and>
          active (snd (get q)) = insert (key x) (active q) \<and> closed (snd (get q)) = closed q"
    and finish_pending: "invar q \<Longrightarrow> pending (finish x q) = pending q"
    and finish_active: "invar q \<Longrightarrow> active (finish x q) = active q - {key x}"
    and finish_closed: "closed (finish x q) = closed q"
    and invar_add: "invar q \<Longrightarrow> invar (snd (add x q))"
    and invar_get: "invar q \<Longrightarrow> invar (snd (get q))"
    and invar_finish: "invar q \<Longrightarrow> invar (finish x q)"

text \<open>The client's loop that adds a list of items, and the consumer's loop of \<open>n\<close> calls of \<open>Get\<close>.\<close>

fun add_all :: "('a \<Rightarrow> 'q \<Rightarrow> bool \<times> 'q) \<Rightarrow> 'a list \<Rightarrow> 'q \<Rightarrow> bool list \<times> 'q" where
  "add_all add [] q = ([], q)"
| "add_all add (x # xs) q =
     (let (b, q1) = add x q; (bs, q2) = add_all add xs q1 in (b # bs, q2))"

fun get_many :: "('q \<Rightarrow> 'a get_outcome \<times> 'q) \<Rightarrow> nat \<Rightarrow> 'q \<Rightarrow> 'a get_outcome list \<times> 'q" where
  "get_many get 0 q = ([], q)"
| "get_many get (Suc n) q =
     (let (r, q1) = get q; (rs, q2) = get_many get n q1 in (r # rs, q2))"

lemma get_many_end:
  "get_many get (Suc n) q =
     (fst (get_many get n q) @ [fst (get (snd (get_many get n q)))],
      snd (get (snd (get_many get n q))))"
  by (induction n arbitrary: q) (auto simp: Let_def split_beta)

context work_queue begin

lemma add_all_open:
  assumes "invar q" and "\<not> closed q" and "distinct (map key xs)"
  shows "pending (snd (add_all add xs q)) = pending q @ filter (\<lambda>x. \<not> exist x q) xs \<and>
    active (snd (add_all add xs q)) = active q \<and> \<not> closed (snd (add_all add xs q)) \<and>
    invar (snd (add_all add xs q)) \<and> fst (add_all add xs q) = map (\<lambda>x. exist x q) xs"
  using assms
proof (induction xs arbitrary: q)
  case Nil
  then show ?case by simp
next
  case (Cons x xs)
  let ?q1 = "snd (add x q)"
  have q1: "invar ?q1" "\<not> closed ?q1" "active ?q1 = active q"
    "pending ?q1 = pending q @ (if exist x q then [] else [x])"
    using Cons.prems add_known [of q x] add_new [of q x] invar_add by (cases "exist x q"; auto)+
  have ex: "exist y ?q1 \<longleftrightarrow> exist y q" if "y \<in> set xs" for y
  proof -
    have "key y \<noteq> key x" using Cons.prems(3) that by simp (metis image_eqI)
    then show ?thesis
      using exist_iff [OF q1(1), of y] exist_iff [OF Cons.prems(1), of y] q1(3,4) by auto
  qed
  have "fst (add x q) = exist x q"
    using Cons.prems add_known [of q x] add_new [of q x] by (cases "exist x q") auto
  moreover have "filter (\<lambda>y. \<not> exist y ?q1) xs = filter (\<lambda>y. \<not> exist y q) xs"
    "map (\<lambda>y. exist y ?q1) xs = map (\<lambda>y. exist y q) xs"
    using ex by (auto intro: filter_cong)
  ultimately show ?case
    using Cons.IH [OF q1(1,2)] Cons.prems(3) q1(3,4) by (auto simp: Let_def split: prod.splits)
qed

lemma add_all_closed: "closed q \<Longrightarrow> snd (add_all add xs q) = q"
  by (induction xs) (auto simp: add_closed split: prod.splits)

lemma add_all_invar: "invar q \<Longrightarrow> invar (snd (add_all add xs q))"
  by (induction xs arbitrary: q) (simp_all add: Let_def split_beta invar_add)

lemma get_many_drains:
  assumes "invar q"
  shows "fst (get_many get (length (pending q)) q) = map Item (pending q) \<and>
    pending (snd (get_many get (length (pending q)) q)) = [] \<and>
    active (snd (get_many get (length (pending q)) q)) = active q \<union> key ` set (pending q) \<and>
    closed (snd (get_many get (length (pending q)) q)) = closed q \<and>
    invar (snd (get_many get (length (pending q)) q))"
  using assms
proof (induction "pending q" arbitrary: q)
  case Nil
  then show ?case by simp
next
  case (Cons x xs)
  then have g: "fst (get q) = Item x" "pending (snd (get q)) = xs" "invar (snd (get q))"
    "active (snd (get q)) = insert (key x) (active q)" "closed (snd (get q)) = closed q"
    using get_Cons [of q x xs] invar_get by auto
  show ?case
    unfolding Cons.hyps(2) [symmetric]
    using Cons.hyps(1) [of "snd (get q)"] g by (auto simp: Let_def split_beta)
qed

lemma get_many_closed:
  assumes "invar q" and "closed q"
  shows "fst (get_many get (Suc (length (pending q))) q) = map Item (pending q) @ [Shutdown]"
  using get_many_drains [OF assms(1)] get_Nil [of "snd (get_many get (length (pending q)) q)"] assms(2)
  unfolding get_many_end by simp

end

lemma Add_known: "queue_inv uk q \<Longrightarrow> \<not> shuttingDown q \<Longrightarrow> Exist uk x q \<Longrightarrow> Add uk x q = (True, q)"
  by (auto simp: queue_defs)

lemma Exist_iff:
  "queue_inv uk q \<Longrightarrow> Exist uk x q \<longleftrightarrow>
     getKey uk x \<in> getKey uk ` set (elems (queue q)) \<union> processing q"
  by (auto simp: queue_defs queue_inv_def)

interpretation typed: work_queue "getKey uk" "Add uk" "Get uk" "Done uk" "Exist uk" shuttingDown
  "\<lambda>q. elems (queue q)" processing "queue_inv uk" for uk
proof (unfold_locales, goal_cases)
  case (1 q x) then show ?case by (rule Exist_iff)
next
  case (2 q) then show ?case by (simp add: queue_inv_def)
next
  case (4 q x) then show ?case by (rule Add_known)
next
  case (7 q x xs) then show ?case by (cases rule: Get_cases) auto
next
  case (11 q x) then show ?case by (rule Add_inv)
next
  case (12 q) then show ?case by (rule Get_inv)
next
  case (13 q x) then show ?case by (rule Done_inv)
qed (auto simp: queue_defs Let_def)

section \<open>Abstract specification\<close>

text \<open>
  The queue as a serial dispatcher: the waiting items in order, the keys in flight and whether
  it is closed.  Nothing here mentions key sets of waiting items, slices or metrics.
\<close>

record 'a dispatcher =
  waiting :: "'a list"
  in_flight :: "'a set"
  closed :: bool

definition abs_queue :: "'a Typed \<Rightarrow> 'a dispatcher" where
  "abs_queue q = \<lparr>waiting = elems (queue q), in_flight = processing q, closed = shuttingDown q\<rparr>"

definition spec_add :: "'a unikey \<Rightarrow> 'a \<Rightarrow> 'a dispatcher \<Rightarrow> bool \<times> 'a dispatcher" where
  "spec_add uk x d =
     (if closed d then (False, d)
      else if getKey uk x \<in> getKey uk ` set (waiting d) \<or> getKey uk x \<in> in_flight d then (True, d)
      else (False, d\<lparr>waiting := waiting d @ [x]\<rparr>))"

definition spec_get :: "'a unikey \<Rightarrow> 'a dispatcher \<Rightarrow> 'a get_outcome \<times> 'a dispatcher" where
  "spec_get uk d =
     (case waiting d of
        [] \<Rightarrow> (if closed d then Shutdown else Blocked, d)
      | x # xs \<Rightarrow> (Item x, d\<lparr>waiting := xs, in_flight := insert (getKey uk x) (in_flight d)\<rparr>))"

definition spec_done :: "'a unikey \<Rightarrow> 'a \<Rightarrow> 'a dispatcher \<Rightarrow> 'a dispatcher" where
  "spec_done uk x d = d\<lparr>in_flight := in_flight d - {getKey uk x}\<rparr>"

definition spec_close :: "'a dispatcher \<Rightarrow> 'a dispatcher" where
  "spec_close d = d\<lparr>closed := True\<rparr>"

lemma Add_refines:
  "queue_inv uk q \<Longrightarrow> map_prod id abs_queue (Add uk x q) = spec_add uk x (abs_queue q)"
  by (auto simp: queue_defs queue_inv_def abs_queue_def spec_add_def)

lemma Get_refines:
  assumes "queue_inv uk q"
  shows "map_prod id abs_queue (Get uk q) = spec_get uk (abs_queue q)"
  using assms by (cases rule: Get_cases) (simp_all add: abs_queue_def spec_get_def)

lemma Done_refines: "abs_queue (Done uk x q) = spec_done uk x (abs_queue q)"
  by (simp add: abs_queue_def spec_done_def queue_defs Let_def)

section \<open>Runs\<close>

text \<open>
  A run is any sequence of operations by any number of goroutines: the lock makes each of them
  atomic.  \<open>queue_step\<close> also says what happened to an item.
\<close>

datatype 'a queue_op =
    OpAdd 'a | OpGet | OpDone 'a | OpShutDown | OpShutDownWithDrain | OpTick "'a list" time

datatype 'a queue_event = Accepted 'a | Refused 'a | Delivered 'a | Finished 'a

fun queue_step :: "'a unikey \<Rightarrow> 'a queue_op \<Rightarrow> 'a Typed \<Rightarrow> 'a queue_event list \<times> 'a Typed" where
  "queue_step uk (OpAdd x) q =
     ([if \<not> shuttingDown q \<and> \<not> fst (Add uk x q) then Accepted x else Refused x], snd (Add uk x q))"
| "queue_step uk OpGet q =
     ((case fst (Get uk q) of Item x \<Rightarrow> [Delivered x] | _ \<Rightarrow> []), snd (Get uk q))"
| "queue_step uk (OpDone x) q = ([Finished x], Done uk x q)"
| "queue_step uk OpShutDown q = ([], ShutDown q)"
| "queue_step uk OpShutDownWithDrain q = ([], ShutDownWithDrain q)"
| "queue_step uk (OpTick ks now) q = ([], snd (updateUnfinishedWork_tick ks (q\<lparr>clock := now\<rparr>)))"

fun queue_run :: "'a unikey \<Rightarrow> 'a queue_op list \<Rightarrow> 'a Typed \<Rightarrow> 'a queue_event list \<times> 'a Typed" where
  "queue_run uk [] q = ([], q)"
| "queue_run uk (opn # opns) q =
     (fst (queue_step uk opn q) @ fst (queue_run uk opns (snd (queue_step uk opn q))),
      snd (queue_run uk opns (snd (queue_step uk opn q))))"

fun accepted :: "'a queue_event list \<Rightarrow> 'a list" where
  "accepted [] = []"
| "accepted (Accepted x # es) = x # accepted es"
| "accepted (_ # es) = accepted es"

fun delivered :: "'a queue_event list \<Rightarrow> 'a list" where
  "delivered [] = []"
| "delivered (Delivered x # es) = x # delivered es"
| "delivered (_ # es) = delivered es"

text \<open>
  \<open>serial\<close>: no item is delivered while an item of the same key is in flight, where \<open>S\<close> is the
  set of keys delivered and not yet reported done.
\<close>

fun serial :: "('a \<Rightarrow> 'a) \<Rightarrow> 'a set \<Rightarrow> 'a queue_event list \<Rightarrow> bool" where
  "serial key S [] = True"
| "serial key S (Delivered x # es) = (key x \<notin> S \<and> serial key (insert (key x) S) es)"
| "serial key S (Finished x # es) = serial key (S - {key x}) es"
| "serial key S (_ # es) = serial key S es"

lemma accepted_append [simp]: "accepted (es @ fs) = accepted es @ accepted fs"
  by (induction es rule: accepted.induct) auto

lemma delivered_append [simp]: "delivered (es @ fs) = delivered es @ delivered fs"
  by (induction es rule: delivered.induct) auto

lemma queue_step_inv: "queue_inv uk q \<Longrightarrow> queue_inv uk (snd (queue_step uk opn q))"
proof (cases opn)
  case (OpTick ks now)
  moreover assume "queue_inv uk q"
  then have "queue_inv uk (q\<lparr>clock := now\<rparr>)" by (auto simp: queue_inv_def)
  ultimately show ?thesis by (simp add: tick_inv)
qed (auto intro: Add_inv Get_inv Done_inv)

lemma queue_run_inv: "queue_inv uk q \<Longrightarrow> queue_inv uk (snd (queue_run uk opns q))"
  by (induction opns arbitrary: q) (auto dest: queue_step_inv)

lemma queue_step_conserves:
  assumes inv: "queue_inv uk q"
  shows "elems (queue q) @ accepted (fst (queue_step uk opn q)) =
    delivered (fst (queue_step uk opn q)) @ elems (queue (snd (queue_step uk opn q)))"
proof (cases opn)
  case OpGet
  from inv show ?thesis by (cases rule: Get_cases) (simp_all add: OpGet)
next
  case (OpAdd x)
  then show ?thesis by (auto simp: queue_defs)
qed (auto simp: queue_defs Let_def updateUnfinishedWork_tick_def)

lemma queue_run_conserves:
  "queue_inv uk q \<Longrightarrow> elems (queue q) @ accepted (fst (queue_run uk opns q)) =
     delivered (fst (queue_run uk opns q)) @ elems (queue (snd (queue_run uk opns q)))"
proof (induction opns arbitrary: q)
  case Nil
  then show ?case by simp
next
  case (Cons opn opns)
  let ?es = "fst (queue_step uk opn q)" and ?q1 = "snd (queue_step uk opn q)"
  have "elems (queue q) @ accepted ?es = delivered ?es @ elems (queue ?q1)"
    using Cons.prems by (rule queue_step_conserves)
  moreover have "elems (queue ?q1) @ accepted (fst (queue_run uk opns ?q1)) =
      delivered (fst (queue_run uk opns ?q1)) @ elems (queue (snd (queue_run uk opns ?q1)))"
    using Cons.prems by (intro Cons.IH queue_step_inv)
  ultimately show ?case by simp (metis append.assoc)
qed

lemma queue_step_serial:
  assumes inv: "queue_inv uk q"
    and rest: "serial (getKey uk) (processing (snd (queue_step uk opn q))) es"
  shows "serial (getKey uk) (processing q) (fst (queue_step uk opn q) @ es)"
proof (cases opn)
  case OpGet
  from inv show ?thesis
  proof (cases rule: Get_cases)
    case (Item x xs rest')
    then have "getKey uk x \<notin> processing q"
      using inv by (auto simp: queue_inv_def)
    with Item rest show ?thesis by (simp add: OpGet)
  qed (use rest in \<open>simp_all add: OpGet\<close>)
next
  case (OpAdd x)
  with rest show ?thesis by (auto simp: queue_defs split: if_splits)
next
  case (OpDone x)
  with rest show ?thesis by (auto simp: queue_defs Let_def split: if_splits)
qed (use rest in \<open>auto simp: queue_defs updateUnfinishedWork_tick_def split: if_splits\<close>)

lemma queue_run_serial:
  "queue_inv uk q \<Longrightarrow> serial (getKey uk) (processing q) (fst (queue_run uk opns q))"
proof (induction opns arbitrary: q)
  case Nil
  then show ?case by simp
next
  case (Cons opn opns)
  then show ?case by (simp add: queue_step_serial queue_step_inv)
qed

section \<open>Properties\<close>

text \<open>
  C5: the queue refines the serial dispatcher.  From a state that satisfies the invariant, \<open>Add\<close>,
  \<open>Get\<close>, \<open>Done\<close>, \<open>Exist\<close> and the two shutdowns return what the specification returns and reach
  the state that it reaches, and all that change the state keep the invariant.  The specification is
  that of the code: an item added while its key is being processed is dropped, with the answer that it
  is known, and \<open>Done\<close> does not bring it back.  The comment above \<open>Done\<close> and the tests \<open>TestReinsert\<close>
  and \<open>TestCollapseWhileProcessing\<close> expect that it does.
\<close>

theorem queue_refines_dispatcher:
  assumes "queue_inv uk q"
  shows "map_prod id abs_queue (Add uk x q) = spec_add uk x (abs_queue q) \<and>
    map_prod id abs_queue (Get uk q) = spec_get uk (abs_queue q) \<and>
    abs_queue (Done uk x q) = spec_done uk x (abs_queue q) \<and>
    abs_queue (ShutDown q) = spec_close (abs_queue q) \<and>
    abs_queue (ShutDownWithDrain q) = spec_close (abs_queue q) \<and>
    (Exist uk x q \<longleftrightarrow> getKey uk x \<in> getKey uk ` set (waiting (abs_queue q)) \<union> in_flight (abs_queue q)) \<and>
    queue_inv uk (snd (Add uk x q)) \<and> queue_inv uk (snd (Get uk q)) \<and> queue_inv uk (Done uk x q) \<and>
    queue_inv uk (ShutDown q) \<and> queue_inv uk (ShutDownWithDrain q) \<and>
    (\<not> shuttingDown q \<longrightarrow> getKey uk x \<in> processing q \<longrightarrow>
       Add uk x q = (True, q) \<and> \<not> Exist uk x (Done uk x (snd (Add uk x q))))"
proof -
  have "abs_queue (ShutDown q) = spec_close (abs_queue q)"
    "abs_queue (ShutDownWithDrain q) = spec_close (abs_queue q)"
    by (simp_all add: abs_queue_def spec_close_def ShutDown_def ShutDownWithDrain_def)
  moreover have "Exist uk x q \<longleftrightarrow> getKey uk x \<in> getKey uk ` set (waiting (abs_queue q)) \<union> in_flight (abs_queue q)"
    using Exist_iff [OF assms, of x] by (simp add: abs_queue_def)
  moreover have "Add uk x q = (True, q) \<and> \<not> Exist uk x (Done uk x q)"
    if "\<not> shuttingDown q" "getKey uk x \<in> processing q"
  proof -
    have "Exist uk x q" using that(2) by (simp add: queue_defs)
    then have "Add uk x q = (True, q)" using that(1) assms by (simp add: Add_known)
    moreover have "\<not> Exist uk x (Done uk x q)"
      using assms that by (auto simp: queue_defs queue_inv_def Let_def)
    ultimately show ?thesis by simp
  qed
  ultimately show ?thesis
    using assms by (simp add: Add_refines Get_refines Done_refines Add_inv Get_inv Done_inv)
qed

text \<open>
  Conservation and order.  In every run from an empty queue the accepted items, in order, are
  the delivered items, in order, followed by the stored ones: nothing is lost, duplicated,
  reordered or invented.
\<close>

theorem queue_fifo_exactly_once:
  assumes "\<And>c n. n \<le> grow c n"
  shows "accepted (fst (queue_run uk opns (newQueue (DefaultQueue grow) m now))) =
    delivered (fst (queue_run uk opns (newQueue (DefaultQueue grow) m now))) @
    elems (queue (snd (queue_run uk opns (newQueue (DefaultQueue grow) m now))))"
  using queue_run_conserves [OF newQueue_inv [of grow, OF assms], where uk = uk and opns = opns]
  by (simp add: newQueue_simps)

text \<open>
  Mutual exclusion per key.  In every run from an empty queue, after an item has been
  delivered no item of the same key is delivered until one of that key is reported done.
\<close>

theorem queue_serial_per_key:
  assumes "\<And>c n. n \<le> grow c n"
  shows "serial (getKey uk) {} (fst (queue_run uk opns (newQueue (DefaultQueue grow) m now)))"
  using queue_run_serial [OF newQueue_inv [of grow, OF assms], where uk = uk and opns = opns]
  by (simp add: newQueue_simps)

text \<open>
  A queue that has been shut down, by either call, refuses every item (and answers as if it
  had accepted it), still hands out everything it stores, in order, without blocking, and only
  then tells its consumers to stop.
\<close>

theorem shutdown_drains_stored_items:
  assumes "queue_inv uk q" and "q' = ShutDown q \<or> q' = ShutDownWithDrain q"
  shows "Add uk x q' = (False, q') \<and>
    fst (get_many (Get uk) (Len q + 1) q') = map Item (elems (queue q)) @ [Shutdown]"
proof -
  have q': "queue_inv uk q'" "shuttingDown q'" "elems (queue q') = elems (queue q)"
    using assms by (auto simp: ShutDown_def ShutDownWithDrain_def queue_inv_def)
  with typed.get_many_closed [OF q'(1,2)] show ?thesis
    by (simp add: Len_def slice_Len_def Add_def)
qed

text \<open>
  An item added again while it is being processed is dropped: the queue answers that it is
  known and changes nothing, and after \<open>Done\<close> the item is neither stored nor in flight, so the
  second request never reaches a consumer.
\<close>

theorem add_while_processing_is_lost:
  assumes "queue_inv uk q" and "\<not> shuttingDown q" and "getKey uk x \<in> processing q"
  shows "Add uk x q = (True, q) \<and> \<not> Exist uk x (Done uk x (snd (Add uk x q))) \<and>
    elems (queue (Done uk x (snd (Add uk x q)))) = elems (queue q)"
proof -
  have "Exist uk x q" using assms by (simp add: queue_defs)
  then have "Add uk x q = (True, q)" using assms by (simp add: Add_known)
  then show ?thesis using assms by (auto simp: queue_defs queue_inv_def Let_def)
qed

text \<open>
  \<open>ShutDownWithDrain\<close> does not wait for stored items.  It returns at once whenever nothing is
  being processed, however many items are still stored, and it waits exactly while some
  delivered item has not been reported done and no plain \<open>ShutDown\<close> has followed.
\<close>

theorem drain_ignores_stored_items:
  assumes "queue_inv uk q"
  shows "(drain_waits (ShutDownWithDrain q) \<longleftrightarrow> processing q \<noteq> {}) \<and>
    \<not> drain_waits (ShutDown (ShutDownWithDrain q)) \<and>
    (drain_waits (Done uk x (ShutDownWithDrain q)) \<longleftrightarrow> processing q - {getKey uk x} \<noteq> {})"
  using assms
  by (auto simp: drain_waits_def queue_defs Let_def queue_inv_def set_len_def card_gt_0_iff)

text \<open>
  Memory.  After every \<open>Pop\<close> the capacity of the slice is at most 256 or less than four times
  the number of stored items plus four, so a drained queue does not keep the memory of its peak.
\<close>

theorem Pop_capacity_bound:
  assumes "Pop q = Return (x, q')"
  shows "elems q = x # elems q' \<and>
    (capacity q' \<le> 256 \<or> capacity q' < 4 * length (elems q') + 4)"
  using assms by (auto simp: Pop_def Let_def split: list.splits if_splits)

section \<open>Witnesses\<close>

definition grow2 :: "nat \<Rightarrow> nat \<Rightarrow> nat" where
  "grow2 c n = max n (2 * c)"

lemma grow2_ge: "n \<le> grow2 c n"
  by (simp add: grow2_def)

definition demo_queue :: "string Typed" where
  "demo_queue = snd (queue_run None [OpAdd ''foo'', OpGet, OpAdd ''bar''] (NewTyped grow2 0))"

lemma demo_queue_inv: "queue_inv None demo_queue"
  unfolding demo_queue_def NewTyped_eq by (intro queue_run_inv newQueue_inv grow2_ge)

lemma demo_queue_fields:
  "processing demo_queue = {''foo''}" "elems (queue demo_queue) = [''bar'']"
  "\<not> shuttingDown demo_queue"
  by (simp_all add: demo_queue_def newQueue_simps queue_defs Pop_def Push_def
      getKey_def Let_def)

theorem queue_refines_dispatcher_witness:
  "map_prod id abs_queue (Add None ''foo'' demo_queue) = (True, abs_queue demo_queue)"
  using queue_refines_dispatcher [OF demo_queue_inv, of "''foo''"]
  by (simp add: spec_add_def abs_queue_def demo_queue_fields getKey_def)

theorem queue_fifo_exactly_once_witness:
  "accepted (fst (queue_run None [OpAdd ''a'', OpAdd ''b'', OpGet] (NewTyped grow2 0))) = [''a'', ''b'']"
  using queue_fifo_exactly_once [of grow2 None "[OpAdd ''a'', OpAdd ''b'', OpGet]" NoMetrics 0,
      OF grow2_ge]
  by (simp add: newQueue_simps queue_defs Pop_def Push_def getKey_def Let_def)

theorem queue_serial_per_key_witness:
  "serial (getKey None) {} (fst (queue_run None
     [OpAdd ''a'', OpGet, OpAdd ''a'', OpDone ''a'', OpGet] (NewTyped grow2 0)))"
  unfolding NewTyped_eq by (rule queue_serial_per_key) (rule grow2_ge)

theorem shutdown_drains_stored_items_witness:
  "fst (get_many (Get None) 2 (ShutDownWithDrain demo_queue)) = [Item ''bar'', Shutdown]"
  using shutdown_drains_stored_items [OF demo_queue_inv disjI2 [OF refl], of "''x''"]
  by (simp add: demo_queue_fields Len_def slice_Len_def numeral_2_eq_2)

theorem add_while_processing_is_lost_witness:
  "Add None ''foo'' demo_queue = (True, demo_queue) \<and> \<not> Exist None ''foo'' (Done None ''foo'' demo_queue)"
  using add_while_processing_is_lost [OF demo_queue_inv, of "''foo''"]
  by (auto simp: demo_queue_fields getKey_def)

theorem drain_ignores_stored_items_witness:
  "\<not> drain_waits (Done None ''foo'' (ShutDownWithDrain demo_queue)) \<and>
   elems (queue (Done None ''foo'' (ShutDownWithDrain demo_queue))) = [''bar'']"
  using drain_ignores_stored_items [OF demo_queue_inv, of "''foo''"]
  by (simp add: demo_queue_fields getKey_def) (simp add: queue_defs Let_def demo_queue_fields)

theorem Pop_capacity_bound_witness:
  "capacity \<lparr>elems = [2::nat], capacity = 1, growslice = grow2\<rparr> < 4 * 1 + 4"
  using Pop_capacity_bound [of "\<lparr>elems = [1::nat, 2], capacity = 300, growslice = grow2\<rparr>" 1
      "\<lparr>elems = [2::nat], capacity = 1, growslice = grow2\<rparr>"]
  by (simp add: Pop_def)

end
