(* ===== verification/QueueThreads.thy ===== *)
theory QueueThreads
  imports WorkQueue
begin

text \<open>
  The goroutines that share one queue, \<^verbatim>\<open>internal/queue/queue.go\<close>: who sleeps on the condition
  variable, who has been notified, and which operation runs next.  \<open>Get\<close> and \<open>ShutDownWithDrain\<close>
  test their condition, sleep, and test it again when they are woken; \<open>Signal\<close> wakes one sleeper
  of either kind, not determined which, and \<open>Broadcast\<close> wakes all.
\<close>

record 'a qsys =
  tq :: "'a Typed"
  get_asleep :: "nat set"
  get_woken :: "nat set"
  drain_asleep :: "nat set"
  drain_woken :: "nat set"
  drain_calls :: nat \<comment> \<open>how often \<open>ShutDownWithDrain\<close> has been called\<close>

definition qsys_init :: "'a Typed \<Rightarrow> 'a qsys" where
  "qsys_init q = \<lparr>tq = q, get_asleep = {}, get_woken = {}, drain_asleep = {}, drain_woken = {},
     drain_calls = 0\<rparr>"

inductive notify :: "cond_call \<Rightarrow> 'a qsys \<Rightarrow> 'a qsys \<Rightarrow> bool" where
  signal_nobody: "get_asleep s = {} \<Longrightarrow> drain_asleep s = {} \<Longrightarrow> notify Signal s s"
| signal_get: "g \<in> get_asleep s \<Longrightarrow> notify Signal s
     (s\<lparr>get_asleep := get_asleep s - {g}, get_woken := insert g (get_woken s)\<rparr>)"
| signal_drain: "d \<in> drain_asleep s \<Longrightarrow> notify Signal s
     (s\<lparr>drain_asleep := drain_asleep s - {d}, drain_woken := insert d (drain_woken s)\<rparr>)"
| broadcast: "notify Broadcast s
     (s\<lparr>get_asleep := {}, get_woken := get_woken s \<union> get_asleep s,
       drain_asleep := {}, drain_woken := drain_woken s \<union> drain_asleep s\<rparr>)"

inductive notify_all :: "cond_call list \<Rightarrow> 'a qsys \<Rightarrow> 'a qsys \<Rightarrow> bool" where
  notify_Nil: "notify_all [] s s"
| notify_Cons: "notify c s t \<Longrightarrow> notify_all cs t u \<Longrightarrow> notify_all (c # cs) s u"

text \<open>
  An operation leaves the queue \<open>q\<close>: the calls it made on the condition variable take effect,
  and the log of calls is cleared.
\<close>

definition commit :: "'a Typed \<Rightarrow> 'a qsys \<Rightarrow> 'a qsys \<Rightarrow> bool" where
  "commit q s t \<longleftrightarrow> notify_all (cond q) (s\<lparr>tq := q\<lparr>cond := []\<rparr>\<rparr>) t"

text \<open>
  A step of a goroutine, with the events of \<open>queue_step\<close> that it makes: who calls \<open>Get\<close> or
  \<open>ShutDownWithDrain\<close> may fall asleep, and is at its test again after a wake-up.  The goroutine of
  \<open>updateUnfinishedWorkLoop\<close> ticks under the lock.
\<close>

inductive qstep :: "'a unikey \<Rightarrow> 'a qsys \<Rightarrow> 'a queue_event list \<Rightarrow> 'a qsys \<Rightarrow> bool" for uk :: "'a unikey" where
  add: "commit (snd (Add uk x (tq s))) s t \<Longrightarrow> qstep uk s (fst (queue_step uk (OpAdd x) (tq s))) t"
| get_return: "fst (Get uk (tq s)) \<noteq> Blocked \<Longrightarrow>
     qstep uk s (fst (queue_step uk OpGet (tq s))) (s\<lparr>tq := snd (Get uk (tq s))\<rparr>)"
| get_sleep: "fst (Get uk (tq s)) = Blocked \<Longrightarrow> g \<notin> get_asleep s \<union> get_woken s \<Longrightarrow>
     qstep uk s [] (s\<lparr>get_asleep := insert g (get_asleep s)\<rparr>)"
| woken_return: "g \<in> get_woken s \<Longrightarrow> fst (Get uk (tq s)) \<noteq> Blocked \<Longrightarrow>
     qstep uk s (fst (queue_step uk OpGet (tq s)))
       (s\<lparr>tq := snd (Get uk (tq s)), get_woken := get_woken s - {g}\<rparr>)"
| woken_sleep: "g \<in> get_woken s \<Longrightarrow> fst (Get uk (tq s)) = Blocked \<Longrightarrow>
     qstep uk s [] (s\<lparr>get_woken := get_woken s - {g}, get_asleep := insert g (get_asleep s)\<rparr>)"
| finish: "commit (Done uk x (tq s)) s t \<Longrightarrow> qstep uk s [Finished x] t"
| shut_down: "commit (ShutDown (tq s)) s t \<Longrightarrow> qstep uk s [] t"
| drain_return: "commit (ShutDownWithDrain (tq s)) s t \<Longrightarrow> \<not> drain_waits (tq t) \<Longrightarrow>
     qstep uk s [] (t\<lparr>drain_calls := Suc (drain_calls t)\<rparr>)"
| drain_sleep: "commit (ShutDownWithDrain (tq s)) s t \<Longrightarrow> drain_waits (tq t) \<Longrightarrow>
     d \<notin> drain_asleep t \<union> drain_woken t \<Longrightarrow>
     qstep uk s [] (t\<lparr>drain_calls := Suc (drain_calls t), drain_asleep := insert d (drain_asleep t)\<rparr>)"
| drain_woken_return: "d \<in> drain_woken s \<Longrightarrow> \<not> drain_waits (tq s) \<Longrightarrow>
     qstep uk s [] (s\<lparr>drain_woken := drain_woken s - {d}\<rparr>)"
| drain_woken_sleep: "d \<in> drain_woken s \<Longrightarrow> drain_waits (tq s) \<Longrightarrow>
     qstep uk s [] (s\<lparr>drain_woken := drain_woken s - {d}, drain_asleep := insert d (drain_asleep s)\<rparr>)"
| tick: "qstep uk s [] (s\<lparr>tq := snd (queue_step uk (OpTick ks now) (tq s))\<rparr>)"

inductive_cases notify_SignalE: "notify Signal s t"
inductive_cases notify_BroadcastE: "notify Broadcast s t"
lemmas notify_Signal_cases =
  notify_SignalE [consumes 1, case_names signal_nobody signal_get signal_drain]
lemmas notify_Broadcast_cases = notify_BroadcastE [consumes 1, case_names broadcast]
inductive_simps notify_all_Nil [simp]: "notify_all [] s t"
inductive_simps notify_all_Cons [simp]: "notify_all (c # cs) s t"

text \<open>The events of a run of goroutines from a queue \<open>q\<close>, and the states that they reach.\<close>

inductive qtrace :: "'a unikey \<Rightarrow> 'a Typed \<Rightarrow> 'a queue_event list \<Rightarrow> 'a qsys \<Rightarrow> bool" for uk q where
  start: "qtrace uk q [] (qsys_init q)"
| step: "qtrace uk q es s \<Longrightarrow> qstep uk s fs t \<Longrightarrow> qtrace uk q (es @ fs) t"

definition qreach :: "'a unikey \<Rightarrow> 'a Typed \<Rightarrow> 'a qsys \<Rightarrow> bool" where
  "qreach uk q s \<longleftrightarrow> (\<exists>es. qtrace uk q es s)"

lemma qreach_start: "qreach uk q (qsys_init q)"
  unfolding qreach_def by (blast intro: qtrace.start)

lemma qreach_step: "qreach uk q s \<Longrightarrow> qstep uk s fs t \<Longrightarrow> qreach uk q t"
  unfolding qreach_def by (blast intro: qtrace.step)

section \<open>The invariant of the sleepers\<close>

text \<open>
  Sleeping consumers mean that the queue is open and that at least as many consumers have been
  woken as there are stored items; a sleeping drainer means that the queue is closed; and while
  \<open>ShutDownWithDrain\<close> has been called once only, its caller sleeps only while it has to wait.
\<close>

definition consumers_ok :: "nat set \<Rightarrow> nat set \<Rightarrow> bool \<Rightarrow> nat \<Rightarrow> bool" where
  "consumers_ok asleep woken shut stored \<longleftrightarrow>
     finite asleep \<and> finite woken \<and> asleep \<inter> woken = {} \<and>
     (asleep \<noteq> {} \<longrightarrow> \<not> shut \<and> stored \<le> card woken)"

definition drainers_ok :: "nat set \<Rightarrow> nat set \<Rightarrow> bool \<Rightarrow> nat \<Rightarrow> bool \<Rightarrow> bool" where
  "drainers_ok asleep woken shut calls waits \<longleftrightarrow>
     (asleep \<noteq> {} \<longrightarrow> shut) \<and>
     (calls = 0 \<longrightarrow> asleep = {} \<and> woken = {}) \<and>
     (calls = 1 \<longrightarrow> (asleep = {} \<and> (\<exists>d. woken \<subseteq> {d})) \<or> (\<exists>d. asleep = {d} \<and> woken = {} \<and> waits))"

definition sleepers_ok :: "'a unikey \<Rightarrow> 'a qsys \<Rightarrow> bool" where
  "sleepers_ok uk s \<longleftrightarrow>
     queue_inv uk (tq s) \<and> cond (tq s) = [] \<and>
     (drain (tq s) \<longrightarrow> shuttingDown (tq s)) \<and>
     consumers_ok (get_asleep s) (get_woken s) (shuttingDown (tq s)) (length (elems (queue (tq s)))) \<and>
     drainers_ok (drain_asleep s) (drain_woken s) (shuttingDown (tq s)) (drain_calls s)
       (drain_waits (tq s))"

lemma consumers_nobody: "finite W \<Longrightarrow> consumers_ok {} W shut n"
  by (simp add: consumers_ok_def)

lemma consumers_wake:
  "consumers_ok A W shut n \<Longrightarrow> g \<in> A \<Longrightarrow> consumers_ok (A - {g}) (insert g W) shut (Suc n)"
  by (auto simp: consumers_ok_def card_insert_if)

lemma consumers_mono: "consumers_ok A W shut n \<Longrightarrow> m \<le> n \<Longrightarrow> consumers_ok A W shut m"
  by (auto simp: consumers_ok_def)

lemma consumers_leave:
  "consumers_ok A W shut n \<Longrightarrow> g \<in> W \<Longrightarrow> (\<not> shut \<Longrightarrow> Suc m = n) \<Longrightarrow> consumers_ok A (W - {g}) shut m"
  by (auto simp: consumers_ok_def)

lemma consumers_sleep:
  "consumers_ok A W False 0 \<Longrightarrow> g \<notin> W \<or> W' = W - {g} \<Longrightarrow> W' \<subseteq> W \<Longrightarrow> g \<notin> W' \<Longrightarrow>
     consumers_ok (insert g A) W' False 0"
  by (auto simp: consumers_ok_def intro: finite_subset)

lemma consumers_finite: "consumers_ok A W shut n \<Longrightarrow> finite W"
  by (simp add: consumers_ok_def)

lemma consumers_shut: "consumers_ok A W True n \<Longrightarrow> A = {} \<and> finite W"
  by (auto simp: consumers_ok_def)

lemma consumers_broadcast: "consumers_ok A W shut n \<Longrightarrow> consumers_ok {} (W \<union> A) shut' m"
  by (simp add: consumers_ok_def)

lemma drainers_open: "drainers_ok A W False c w \<Longrightarrow> A = {}"
  by (simp add: drainers_ok_def)

lemma drainers_nobody: "drainers_ok {} W shut c w \<Longrightarrow> drainers_ok {} W shut' c w'"
  by (auto simp: drainers_ok_def)

lemma drainers_wake:
  "drainers_ok A W shut c w \<Longrightarrow> d \<in> A \<Longrightarrow> drainers_ok (A - {d}) (insert d W) shut c w'"
  by (auto simp: drainers_ok_def)

lemma drainers_mono: "drainers_ok A W shut c w \<Longrightarrow> (w \<Longrightarrow> w') \<Longrightarrow> drainers_ok A W shut c w'"
  by (auto simp: drainers_ok_def)

lemma drainers_broadcast: "drainers_ok A W shut c w \<Longrightarrow> drainers_ok {} (W \<union> A) shut' c w'"
  by (auto simp: drainers_ok_def)

lemma drainers_new:
  "drainers_ok {} W True c w \<Longrightarrow> drainers_ok {} W True (Suc c) w"
  "drainers_ok {} W True c w \<Longrightarrow> w \<Longrightarrow> drainers_ok {d} W True (Suc c) w"
  by (auto simp: drainers_ok_def)

lemma drainers_leave:
  "drainers_ok A W shut c w \<Longrightarrow> d \<in> W \<Longrightarrow> drainers_ok A (W - {d}) shut c w"
  "drainers_ok A W shut c w \<Longrightarrow> d \<in> W \<Longrightarrow> shut \<Longrightarrow> w \<Longrightarrow>
     drainers_ok (insert d A) (W - {d}) shut c w"
  by (auto simp: drainers_ok_def)

lemma cond_cleared:
  "queue_inv uk (q\<lparr>cond := cs\<rparr>) = queue_inv uk q" "drain_waits (q\<lparr>cond := cs\<rparr>) = drain_waits q"
  by (simp_all add: queue_inv_def drain_waits_def)

lemma sleepers_init:
  "queue_inv uk q \<Longrightarrow> cond q = [] \<Longrightarrow> \<not> drain q \<Longrightarrow> sleepers_ok uk (qsys_init q)"
  by (simp add: sleepers_ok_def qsys_init_def consumers_ok_def drainers_ok_def)

lemma Add_cases:
  obtains (same) "snd (Add uk x q) = q"
  | (push) "\<not> shuttingDown q" "cond (snd (Add uk x q)) = cond q @ [Signal]"
      "elems (queue (snd (Add uk x q))) = elems (queue q) @ [x]"
      "shuttingDown (snd (Add uk x q)) = shuttingDown q"
      "processing (snd (Add uk x q)) = processing q" "drain (snd (Add uk x q)) = drain q"
  by (cases "snd (Add uk x q) = q") (auto simp: queue_defs split: if_splits)

lemma Blocked_iff:
  "queue_inv uk q \<Longrightarrow> fst (Get uk q) = Blocked \<longleftrightarrow> elems (queue q) = [] \<and> \<not> shuttingDown q"
  by (erule Get_cases) auto

lemma Get_facts:
  assumes "queue_inv uk q" and "fst (Get uk q) \<noteq> Blocked"
  shows "queue_inv uk (snd (Get uk q)) \<and> cond (snd (Get uk q)) = cond q \<and>
    shuttingDown (snd (Get uk q)) = shuttingDown q \<and> drain (snd (Get uk q)) = drain q \<and>
    length (elems (queue (snd (Get uk q)))) \<le> length (elems (queue q)) \<and>
    (\<not> shuttingDown q \<longrightarrow> Suc (length (elems (queue (snd (Get uk q))))) = length (elems (queue q))) \<and>
    (drain_waits q \<longrightarrow> drain_waits (snd (Get uk q)))"
  using assms(1)
proof (cases rule: Get_cases)
  case (Item x xs rest)
  have "drain_waits q \<Longrightarrow> drain_waits (snd (Get uk q))"
    using Item assms(1) by (auto simp: drain_waits_def set_len_def queue_inv_def card_gt_0_iff)
  with Item Get_inv [OF assms(1)] show ?thesis by simp
qed (use assms in auto)

lemma Done_facts:
  "shuttingDown (Done uk x q) = shuttingDown q" "elems (queue (Done uk x q)) = elems (queue q)"
  "drain (Done uk x q) = drain q"
  "cond (Done uk x q) = cond q @ (if set_len (processing (Done uk x q)) = 0 then [Signal] else [])"
  by (simp_all add: Done_def Let_def)

lemma sleepers_add:
  assumes ok: "sleepers_ok uk s" and t: "commit (snd (Add uk x (tq s))) s t"
  shows "sleepers_ok uk t"
proof (cases rule: Add_cases [of uk x "tq s"])
  case same
  with ok t show ?thesis by (simp add: sleepers_ok_def commit_def cond_cleared)
next
  case push
  let ?q = "snd (Add uk x (tq s))"
  have inv: "queue_inv uk ?q" and c: "cond (tq s) = []"
    and cons: "consumers_ok (get_asleep s) (get_woken s) False (length (elems (queue (tq s))))"
    and dr: "drainers_ok (drain_asleep s) (drain_woken s) False (drain_calls s) (drain_waits (tq s))"
    and d: "\<not> drain (tq s)"
    using ok push(1) by (auto simp: sleepers_ok_def Add_inv)
  have none: "drain_asleep s = {}" using dr by (rule drainers_open)
  have "notify Signal (s\<lparr>tq := ?q\<lparr>cond := []\<rparr>\<rparr>) t" using t push(2) c by (simp add: commit_def)
  then show ?thesis
  proof (cases rule: notify_Signal_cases)
    case signal_nobody
    then show ?thesis
      using inv none d push drainers_nobody [OF dr [unfolded none]]
        consumers_nobody [OF consumers_finite [OF cons]]
      by (simp add: sleepers_ok_def cond_cleared)
  next
    case (signal_get g)
    then show ?thesis
      using inv none d push drainers_nobody [OF dr [unfolded none]] consumers_wake [OF cons, of g]
      by (simp add: sleepers_ok_def cond_cleared)
  next
    case (signal_drain d)
    with none show ?thesis by simp
  qed
qed

lemma sleepers_finish:
  assumes ok: "sleepers_ok uk s" and t: "commit (Done uk x (tq s)) s t"
  shows "sleepers_ok uk t"
proof -
  let ?q = "Done uk x (tq s)" and ?n = "length (elems (queue (tq s)))"
  have inv: "queue_inv uk ?q" and c: "cond (tq s) = []"
    and d: "drain (tq s) \<longrightarrow> shuttingDown (tq s)"
    and cons: "consumers_ok (get_asleep s) (get_woken s) (shuttingDown (tq s)) ?n"
    and dr: "drainers_ok (drain_asleep s) (drain_woken s) (shuttingDown (tq s)) (drain_calls s)
      (drain_waits (tq s))"
    using ok by (simp_all add: sleepers_ok_def Done_inv)
  show ?thesis
  proof (cases "set_len (processing ?q) = 0")
    case True
    with t c have "notify Signal (s\<lparr>tq := ?q\<lparr>cond := []\<rparr>\<rparr>) t" by (simp add: commit_def Done_facts)
    then show ?thesis
    proof (cases rule: notify_Signal_cases)
      case signal_nobody
      then show ?thesis
        using inv d cons drainers_nobody dr by (simp add: sleepers_ok_def cond_cleared Done_facts)
    next
      case (signal_get g)
      then have "\<not> shuttingDown (tq s)" using cons by (auto simp: consumers_ok_def)
      then show ?thesis
        using signal_get inv d consumers_mono [OF consumers_wake [OF cons, of g], of ?n]
          drainers_nobody dr drainers_open
        by (simp add: sleepers_ok_def cond_cleared Done_facts) metis
    next
      case (signal_drain e)
      then show ?thesis
        using inv d cons drainers_wake [OF dr, of e]
        by (simp add: sleepers_ok_def cond_cleared Done_facts)
    qed
  next
    case False
    with t c have "t = s\<lparr>tq := ?q\<lparr>cond := []\<rparr>\<rparr>" by (simp add: commit_def Done_facts)
    moreover have "drain_waits (tq s) \<Longrightarrow> drain_waits ?q"
      using False by (simp add: drain_waits_def Done_facts)
    ultimately show ?thesis
      using inv d cons drainers_mono [OF dr]
      by (simp add: sleepers_ok_def cond_cleared Done_facts)
  qed
qed

lemma sleepers_broadcast:
  assumes ok: "sleepers_ok uk s" and inv: "queue_inv uk q" and c: "cond q = [Broadcast]"
    and sd: "shuttingDown q" and t: "commit q s t"
  shows "sleepers_ok uk t \<and> drain_asleep t = {} \<and> tq t = q\<lparr>cond := []\<rparr> \<and>
    drain_calls t = drain_calls s"
proof -
  from t c have "notify Broadcast (s\<lparr>tq := q\<lparr>cond := []\<rparr>\<rparr>) t" by (simp add: commit_def)
  then show ?thesis
  proof (cases rule: notify_Broadcast_cases)
    case broadcast
    have "consumers_ok {} (get_woken s \<union> get_asleep s) True m"
      "drainers_ok {} (drain_woken s \<union> drain_asleep s) True (drain_calls s) w" for m w
      using ok consumers_broadcast drainers_broadcast unfolding sleepers_ok_def by blast+
    with broadcast inv sd show ?thesis by (simp add: sleepers_ok_def cond_cleared)
  qed
qed

lemma sleepers_drain:
  assumes "sleepers_ok uk s" and "commit (ShutDownWithDrain (tq s)) s t"
  shows "sleepers_ok uk t \<and> drain_asleep t = {} \<and> shuttingDown (tq t)"
  using sleepers_broadcast [of uk s "ShutDownWithDrain (tq s)" t] assms
  by (auto simp: sleepers_ok_def ShutDownWithDrain_def queue_inv_def)

lemma sleepers_get_return:
  assumes ok: "sleepers_ok uk s" and nb: "fst (Get uk (tq s)) \<noteq> Blocked"
    and W: "W = get_woken s \<or> (g \<in> get_woken s \<and> W = get_woken s - {g})"
  shows "sleepers_ok uk (s\<lparr>tq := snd (Get uk (tq s)), get_woken := W\<rparr>)"
proof -
  let ?q = "snd (Get uk (tq s))"
  have inv: "queue_inv uk (tq s)"
    and cons: "consumers_ok (get_asleep s) (get_woken s) (shuttingDown (tq s))
      (length (elems (queue (tq s))))"
    and dr: "drainers_ok (drain_asleep s) (drain_woken s) (shuttingDown (tq s)) (drain_calls s)
      (drain_waits (tq s))"
    using ok by (auto simp: sleepers_ok_def)
  note f = Get_facts [OF inv nb]
  have "consumers_ok (get_asleep s) W (shuttingDown ?q) (length (elems (queue ?q)))"
    using W consumers_mono [OF cons] consumers_leave [OF cons] f by auto
  then show ?thesis
    using ok f drainers_mono [OF dr, of "drain_waits ?q"] by (simp add: sleepers_ok_def)
qed

lemma sleepers_get_sleep:
  assumes ok: "sleepers_ok uk s" and bl: "fst (Get uk (tq s)) = Blocked"
    and W: "g \<notin> get_woken s \<and> W = get_woken s \<or> W = get_woken s - {g}"
  shows "sleepers_ok uk (s\<lparr>get_woken := W, get_asleep := insert g (get_asleep s)\<rparr>)"
proof -
  have q: "elems (queue (tq s)) = []" "\<not> shuttingDown (tq s)"
    using ok bl Blocked_iff by (auto simp: sleepers_ok_def)
  then have cons: "consumers_ok (get_asleep s) (get_woken s) False 0"
    using ok by (simp add: sleepers_ok_def)
  have "consumers_ok (insert g (get_asleep s)) W False 0"
    by (rule consumers_sleep [OF cons]) (use W in auto)
  with ok q show ?thesis by (simp add: sleepers_ok_def)
qed

lemma sleepers_drainer:
  assumes ok: "sleepers_ok uk s" and d: "d \<in> drain_woken s"
  shows "sleepers_ok uk (s\<lparr>drain_woken := drain_woken s - {d}\<rparr>)"
    "drain_waits (tq s) \<Longrightarrow>
     sleepers_ok uk (s\<lparr>drain_woken := drain_woken s - {d}, drain_asleep := insert d (drain_asleep s)\<rparr>)"
proof -
  have "drainers_ok (drain_asleep s) (drain_woken s) (shuttingDown (tq s)) (drain_calls s)
      (drain_waits (tq s))"
    using ok by (simp add: sleepers_ok_def)
  note dr = drainers_leave [OF this d]
  show "sleepers_ok uk (s\<lparr>drain_woken := drain_woken s - {d}\<rparr>)"
    using ok dr(1) by (simp add: sleepers_ok_def)
  assume w: "drain_waits (tq s)"
  then have "shuttingDown (tq s)" using ok by (simp add: sleepers_ok_def drain_waits_def)
  then show "sleepers_ok uk
      (s\<lparr>drain_woken := drain_woken s - {d}, drain_asleep := insert d (drain_asleep s)\<rparr>)"
    using ok dr(2) w by (simp add: sleepers_ok_def)
qed

lemma sleepers_drain_call:
  assumes ok: "sleepers_ok uk s" and t: "commit (ShutDownWithDrain (tq s)) s t"
  shows "sleepers_ok uk (t\<lparr>drain_calls := Suc (drain_calls t)\<rparr>)"
    "drain_waits (tq t) \<Longrightarrow>
     sleepers_ok uk (t\<lparr>drain_calls := Suc (drain_calls t), drain_asleep := insert d (drain_asleep t)\<rparr>)"
proof -
  have "sleepers_ok uk t" "drain_asleep t = {}" "shuttingDown (tq t)"
    using sleepers_drain [OF ok t] by auto
  moreover from this have "drainers_ok {} (drain_woken t) True (drain_calls t) (drain_waits (tq t))"
    by (simp add: sleepers_ok_def)
  note drainers_new [OF this]
  ultimately show "sleepers_ok uk (t\<lparr>drain_calls := Suc (drain_calls t)\<rparr>)"
    "drain_waits (tq t) \<Longrightarrow>
     sleepers_ok uk (t\<lparr>drain_calls := Suc (drain_calls t), drain_asleep := insert d (drain_asleep t)\<rparr>)"
    by (simp_all add: sleepers_ok_def)
qed

lemma tick_frame:
  "queue (snd (queue_step uk (OpTick ks now) q)) = queue q" "cond (snd (queue_step uk (OpTick ks now) q)) = cond q"
  "shuttingDown (snd (queue_step uk (OpTick ks now) q)) = shuttingDown q"
  "drain (snd (queue_step uk (OpTick ks now) q)) = drain q"
  "processing (snd (queue_step uk (OpTick ks now) q)) = processing q"
  by (simp_all add: updateUnfinishedWork_tick_def)

lemma qstep_sleepers:
  assumes "qstep uk s es t" and ok: "sleepers_ok uk s"
  shows "sleepers_ok uk t"
  using assms(1)
proof cases
  case (add x)
  from sleepers_add [OF ok add(2)] show ?thesis .
next
  case get_return
  with sleepers_get_return [OF ok, of "get_woken s"] show ?thesis by simp
next
  case (get_sleep g)
  with sleepers_get_sleep [OF ok, of g "get_woken s"] show ?thesis by simp
next
  case (woken_return g)
  with sleepers_get_return [OF ok, of "get_woken s - {g}" g] show ?thesis by simp
next
  case (woken_sleep g)
  with sleepers_get_sleep [OF ok, of g "get_woken s - {g}"] show ?thesis by simp
next
  case (finish x)
  from sleepers_finish [OF ok finish(2)] show ?thesis .
next
  case shut_down
  with sleepers_broadcast [OF ok, of "ShutDown (tq s)" t] ok show ?thesis
    by (auto simp: sleepers_ok_def ShutDown_def queue_inv_def)
next
  case (drain_return t')
  with sleepers_drain_call(1) [OF ok] show ?thesis by simp
next
  case (drain_sleep t' d)
  with sleepers_drain_call(2) [OF ok] show ?thesis by simp
next
  case (drain_woken_return d)
  with sleepers_drainer(1) [OF ok] show ?thesis by simp
next
  case (drain_woken_sleep d)
  with sleepers_drainer(2) [OF ok] show ?thesis by simp
next
  case (tick ks now)
  have "queue_inv uk (snd (queue_step uk (OpTick ks now) (tq s)))"
    using ok by (intro queue_step_inv) (simp add: sleepers_ok_def)
  with ok tick tick_frame [of uk ks now "tq s"] show ?thesis by (simp add: sleepers_ok_def drain_waits_def)
qed

lemma qreach_sleepers:
  assumes "qreach uk q s" and "queue_inv uk q" and "cond q = []" and "\<not> drain q"
  shows "sleepers_ok uk s"
proof -
  obtain es where "qtrace uk q es s" using assms(1) by (auto simp: qreach_def)
  then show ?thesis by induction (auto intro: sleepers_init [OF assms(2-4)] qstep_sleepers)
qed

lemma NewTyped_ready: "queue_inv uk (NewTyped grow2 now)" "cond (NewTyped grow2 now) = []"
  "\<not> drain (NewTyped grow2 now)" "\<not> shuttingDown (NewTyped grow2 now)"
  unfolding NewTyped_eq by (simp_all add: newQueue_inv grow2_ge) (simp_all add: newQueue_simps)

section \<open>Runs of goroutines as runs of the operations\<close>

lemma notify_tq: "notify c s t \<Longrightarrow> tq t = tq s"
  by (induction rule: notify.induct) simp_all

lemma notify_all_tq: "notify_all cs s t \<Longrightarrow> tq t = tq s"
  by (induction rule: notify_all.induct) (auto dest: notify_tq)

lemma commit_tq: "commit q s t \<Longrightarrow> (tq t)\<lparr>cond := []\<rparr> = q\<lparr>cond := []\<rparr>"
  by (auto simp: commit_def dest: notify_all_tq)

text \<open>The calls on the condition variable are only logged: no operation reads them.\<close>

lemma queue_step_cond:
  assumes "q\<lparr>cond := []\<rparr> = q'\<lparr>cond := []\<rparr>"
  shows "fst (queue_step uk opn q) = fst (queue_step uk opn q')"
    and "(snd (queue_step uk opn q))\<lparr>cond := []\<rparr> = (snd (queue_step uk opn q'))\<lparr>cond := []\<rparr>"
proof -
  obtain cs where q': "q' = q\<lparr>cond := cs\<rparr>" using assms by (cases q; cases q') auto
  show "fst (queue_step uk opn q) = fst (queue_step uk opn q')"
    "(snd (queue_step uk opn q))\<lparr>cond := []\<rparr> = (snd (queue_step uk opn q'))\<lparr>cond := []\<rparr>"
    unfolding q' by (cases opn; simp add: queue_defs Let_def updateUnfinishedWork_tick_def split: run.splits prod.splits)+
qed

lemma queue_run_cond:
  "q\<lparr>cond := []\<rparr> = q'\<lparr>cond := []\<rparr> \<Longrightarrow> fst (queue_run uk opns q) = fst (queue_run uk opns q') \<and>
     (snd (queue_run uk opns q))\<lparr>cond := []\<rparr> = (snd (queue_run uk opns q'))\<lparr>cond := []\<rparr>"
proof (induction opns arbitrary: q q')
  case (Cons opn opns)
  from Cons.IH [OF queue_step_cond(2) [OF Cons.prems, of uk opn]] queue_step_cond(1) [OF Cons.prems, of uk opn]
  show ?case by simp
qed simp

lemma queue_run_append:
  "queue_run uk (xs @ ys) q = (fst (queue_run uk xs q) @ fst (queue_run uk ys (snd (queue_run uk xs q))),
     snd (queue_run uk ys (snd (queue_run uk xs q))))"
  by (induction xs arbitrary: q) simp_all

lemma qstep_run:
  assumes "qstep uk s es t"
  shows "\<exists>opns. es = fst (queue_run uk opns (tq s)) \<and>
    (tq t)\<lparr>cond := []\<rparr> = (snd (queue_run uk opns (tq s)))\<lparr>cond := []\<rparr>"
  using assms
proof cases
  case (add x)
  then show ?thesis by (intro exI [of _ "[OpAdd x]"]) (simp add: commit_tq)
next
  case (finish x)
  then show ?thesis by (intro exI [of _ "[OpDone x]"]) (simp add: commit_tq)
next
  case (drain_sleep t' d)
  then show ?thesis by (intro exI [of _ "[OpShutDownWithDrain]"]) (simp add: commit_tq)
next
  case (tick ks now)
  then show ?thesis by (intro exI [of _ "[OpTick ks now]"]) simp
next
  case shut_down
  then show ?thesis by (intro exI [of _ "[OpShutDown]"]) (simp add: commit_tq)
next
  case (drain_return t')
  then show ?thesis by (intro exI [of _ "[OpShutDownWithDrain]"]) (simp add: commit_tq)
qed (auto intro: exI [of _ "[OpGet]"] exI [of _ "[]"])

lemma qtrace_run:
  "qtrace uk q es s \<Longrightarrow> \<exists>opns. es = fst (queue_run uk opns q) \<and>
     (tq s)\<lparr>cond := []\<rparr> = (snd (queue_run uk opns q))\<lparr>cond := []\<rparr>"
proof (induction rule: qtrace.induct)
  case start
  then show ?case by (intro exI [of _ "[]"]) (simp add: qsys_init_def)
next
  case (step es s fs t)
  then obtain xs where xs: "es = fst (queue_run uk xs q)"
    "(tq s)\<lparr>cond := []\<rparr> = (snd (queue_run uk xs q))\<lparr>cond := []\<rparr>" by blast
  obtain ys where ys: "fs = fst (queue_run uk ys (tq s))"
    "(tq t)\<lparr>cond := []\<rparr> = (snd (queue_run uk ys (tq s)))\<lparr>cond := []\<rparr>"
    using qstep_run [OF step.hyps(2)] by blast
  from queue_run_cond [OF xs(2), of uk ys] xs(1) ys show ?case
    by (intro exI [of _ "xs @ ys"]) (simp add: queue_run_append)
qed

section \<open>Properties\<close>

text \<open>
  C8: no lost wake-up.  In every state that goroutines can reach from a new queue, if some
  consumer sleeps in \<open>Get\<close> then the queue is open and at least as many woken consumers are on
  their way as there are stored items, so an item is never stored while every consumer sleeps;
  once the queue is shut down no consumer sleeps.
\<close>

theorem no_lost_wakeup:
  assumes "qreach uk q s" and "queue_inv uk q" and "cond q = []" and "\<not> drain q"
    and "g \<in> get_asleep s"
  shows "\<not> shuttingDown (tq s) \<and> length (elems (queue (tq s))) \<le> card (get_woken s) \<and>
    (elems (queue (tq s)) \<noteq> [] \<longrightarrow> get_woken s \<noteq> {})"
  using qreach_sleepers [OF assms(1-4)] assms(5) by (auto simp: sleepers_ok_def consumers_ok_def)

theorem no_lost_wakeup_witness:
  "\<exists>s. qreach None (NewTyped grow2 0 :: string Typed) s \<and> 7 \<in> get_asleep s \<and>
     \<not> shuttingDown (tq s) \<and> length (elems (queue (tq s))) \<le> card (get_woken s)"
proof -
  let ?q = "NewTyped grow2 0 :: string Typed"
  let ?s = "(qsys_init ?q)\<lparr>get_asleep := {7}\<rparr>"
  have "qreach None ?q ?s"
    using qreach_step [OF qreach_start qstep.get_sleep [of None "qsys_init ?q" 7]]
    by (simp add: qsys_init_def newQueue_simps queue_defs)
  with no_lost_wakeup [OF this NewTyped_ready(1-3), of 7] show ?thesis
    by (intro exI [of _ ?s]) simp
qed

text \<open>
  C30: one caller of \<open>ShutDownWithDrain\<close> is woken in time.  As long as it has been called once, its
  caller sleeps only while a delivered item has not been reported done.
\<close>

theorem single_drain_terminates:
  assumes "qreach uk q s" and "queue_inv uk q" and "cond q = []" and "\<not> drain q"
    and "drain_calls s = 1" and "d \<in> drain_asleep s"
  shows "processing (tq s) \<noteq> {} \<and> shuttingDown (tq s)"
proof -
  have "drain_waits (tq s)" "shuttingDown (tq s)"
    using qreach_sleepers [OF assms(1-4)] assms(5,6) by (auto simp: sleepers_ok_def drainers_ok_def)
  then show ?thesis by (auto simp: drain_waits_def set_len_def)
qed

text \<open>
  The run behind the last two properties: an item is delivered, two goroutines call
  \<open>ShutDownWithDrain\<close> and go to sleep (the second call wakes the first caller, which has to wait
  again), and then the item is reported done.
\<close>

definition busy_queue :: "string Typed" where
  "busy_queue = (snd (Get None (snd (Add None ''x'' (NewTyped grow2 0)))))\<lparr>cond := []\<rparr>"

lemma busy_queue_fields:
  "elems (queue busy_queue) = []" "processing busy_queue = {''x''}" "dirty busy_queue = {}"
  "cond busy_queue = []" "\<not> shuttingDown busy_queue" "\<not> drain busy_queue"
  by (simp_all add: busy_queue_def newQueue_simps queue_defs Pop_def Push_def getKey_def
      Let_def)

lemma busy_queue_inv: "queue_inv None busy_queue"
  unfolding busy_queue_def cond_cleared(1)
  by (intro Get_inv Add_inv NewTyped_ready)

lemma busy_drain:
  "drain_waits (ShutDownWithDrain busy_queue)"
  "drain_waits ((ShutDownWithDrain busy_queue)\<lparr>cond := []\<rparr>)"
  by (simp_all add: drain_waits_def ShutDownWithDrain_def busy_queue_fields set_len_def)

definition closing_queue :: "string Typed" where
  "closing_queue = (ShutDownWithDrain busy_queue)\<lparr>cond := []\<rparr>"

lemma closing_queue_again: "(ShutDownWithDrain closing_queue)\<lparr>cond := []\<rparr> = closing_queue"
  "cond (ShutDownWithDrain closing_queue) = [Broadcast]" "drain_waits closing_queue"
  by (simp_all add: closing_queue_def ShutDownWithDrain_def drain_waits_def busy_queue_fields
      set_len_def)

lemma one_drainer:
  "qreach None busy_queue
     \<lparr>tq = closing_queue, get_asleep = {}, get_woken = {}, drain_asleep = {0}, drain_woken = {},
      drain_calls = 1\<rparr>"
proof -
  let ?s = "qsys_init busy_queue"
  have "commit (ShutDownWithDrain (tq ?s)) ?s (?s\<lparr>tq := closing_queue\<rparr>)"
    using notify.broadcast [of "?s\<lparr>tq := closing_queue\<rparr>"]
    by (simp add: commit_def qsys_init_def closing_queue_def ShutDownWithDrain_def busy_queue_fields)
  from qstep.drain_sleep [OF this, of 0 None] qreach_step [OF qreach_start]
  show ?thesis by (simp add: qsys_init_def closing_queue_again)
qed

lemma two_drainers:
  "qreach None busy_queue
     \<lparr>tq = closing_queue, get_asleep = {}, get_woken = {}, drain_asleep = {0, 1}, drain_woken = {},
      drain_calls = 2\<rparr>"
proof -
  let ?s = "\<lparr>tq = closing_queue, get_asleep = {}, get_woken = {}, drain_asleep = {0}, drain_woken = {},
      drain_calls = 1\<rparr>"
  let ?t = "?s\<lparr>drain_asleep := {}, drain_woken := {0}\<rparr>"
  have "commit (ShutDownWithDrain (tq ?s)) ?s ?t"
    using notify.broadcast [of "?s"] by (simp add: commit_def closing_queue_again)
  from qstep.drain_sleep [OF this, of 1 None] qreach_step [OF one_drainer]
  have "qreach None busy_queue (?t\<lparr>drain_calls := 2, drain_asleep := {1}\<rparr>)"
    by (simp add: closing_queue_again numeral_2_eq_2)
  from qreach_step [OF this qstep.drain_woken_sleep [of 0]] show ?thesis
    by (simp add: closing_queue_again)
qed

theorem single_drain_terminates_witness:
  "\<exists>s. qreach None busy_queue s \<and> 0 \<in> drain_asleep s \<and> processing (tq s) \<noteq> {}"
  using single_drain_terminates [OF one_drainer busy_queue_inv busy_queue_fields(4,6), of 0] one_drainer
  by fastforce

text \<open>
  C31: a second caller of \<open>ShutDownWithDrain\<close> can be left asleep for ever.  \<open>Done\<close> signals one
  sleeper only, so after the last item is done one of two callers returns and the other sleeps
  in a queue that is shut down, empty and idle, with no woken goroutine left.
\<close>

theorem second_drain_can_hang:
  "\<exists>s. qreach None busy_queue s \<and> drain_calls s = 2 \<and> drain_asleep s = {1} \<and>
     shuttingDown (tq s) \<and> elems (queue (tq s)) = [] \<and> processing (tq s) = {} \<and>
     get_asleep s \<union> get_woken s \<union> drain_woken s = {}"
proof -
  let ?s = "\<lparr>tq = closing_queue, get_asleep = {}, get_woken = {}, drain_asleep = {0, 1},
      drain_woken = {}, drain_calls = 2\<rparr>"
  let ?q = "Done None ''x'' closing_queue"
  let ?t = "?s\<lparr>tq := ?q\<lparr>cond := []\<rparr>, drain_asleep := {1}, drain_woken := {0}\<rparr>"
  have q: "cond ?q = [Signal]" "\<not> drain_waits (?q\<lparr>cond := []\<rparr>)" "shuttingDown ?q"
    "elems (queue ?q) = []" "processing ?q = {}"
    by (simp_all add: closing_queue_def queue_defs busy_queue_fields getKey_def Let_def set_len_def
        drain_waits_def)
  have "commit (Done None ''x'' (tq ?s)) ?s ?t"
    using notify.signal_drain [of 0 "?s\<lparr>tq := ?q\<lparr>cond := []\<rparr>\<rparr>"]
    by (simp add: commit_def q insert_Diff_if)
  from qreach_step [OF two_drainers qstep.finish [OF this]]
  have "qreach None busy_queue ?t" .
  from qreach_step [OF this qstep.drain_woken_return [of 0]]
  have "qreach None busy_queue (?t\<lparr>drain_woken := {}\<rparr>)" by (simp add: q)
  with q show ?thesis by (intro exI [of _ "?t\<lparr>drain_woken := {}\<rparr>"]) simp
qed

text \<open>
  C9: the goroutines refine the operations.  Whatever goroutines call \<open>Add\<close>, \<open>Get\<close>, \<open>Done\<close> and the
  shutdowns, fall asleep and are woken, the events are those of some sequence of the operations, one
  after the other, and the queue is in the state that this sequence leaves.  Hence the accepted items,
  in order, are the delivered ones followed by the stored ones, and no item is delivered while one of
  its key is in flight.
\<close>

theorem goroutines_refine_operations:
  assumes "qtrace uk (newQueue (DefaultQueue grow) m now) es s" and "\<And>c n. n \<le> grow c n"
  shows "(\<exists>opns. es = fst (queue_run uk opns (newQueue (DefaultQueue grow) m now)) \<and>
      (tq s)\<lparr>cond := []\<rparr> = (snd (queue_run uk opns (newQueue (DefaultQueue grow) m now)))\<lparr>cond := []\<rparr>) \<and>
    accepted es = delivered es @ elems (queue (tq s)) \<and> serial (getKey uk) {} es"
proof -
  let ?q = "newQueue (DefaultQueue grow) m now"
  have inv: "queue_inv uk ?q" using assms(2) by (rule newQueue_inv)
  obtain opns where run: "es = fst (queue_run uk opns ?q)"
    "(tq s)\<lparr>cond := []\<rparr> = (snd (queue_run uk opns ?q))\<lparr>cond := []\<rparr>"
    using qtrace_run [OF assms(1)] by blast
  from arg_cong [OF run(2), of queue] have "queue (tq s) = queue (snd (queue_run uk opns ?q))" by simp
  with run queue_run_conserves [OF inv, of opns] queue_run_serial [OF inv, of opns] show ?thesis
    by (auto simp: newQueue_simps)
qed

theorem goroutines_refine_operations_witness:
  "\<exists>s. qtrace None (newQueue (DefaultQueue grow2) NoMetrics 0) [Accepted ''x'', Delivered ''x''] s \<and>
     elems (queue (tq s)) = []"
proof -
  let ?q = "newQueue (DefaultQueue grow2) NoMetrics 0 :: string Typed"
  let ?q1 = "(snd (Add None ''x'' ?q))\<lparr>cond := []\<rparr>"
  let ?s = "(qsys_init ?q)\<lparr>tq := ?q1\<rparr>"
  have e1: "fst (queue_step None (OpAdd ''x'') ?q) = [Accepted ''x'']" "cond (snd (Add None ''x'' ?q)) = [Signal]"
    by (simp_all add: newQueue_simps queue_defs)
  have "commit (snd (Add None ''x'' (tq (qsys_init ?q)))) (qsys_init ?q) ?s"
    using notify.signal_nobody [of ?s] by (simp add: commit_def qsys_init_def e1)
  from qtrace.step [OF qtrace.start qstep.add [OF this]]
  have t1: "qtrace None ?q [Accepted ''x''] ?s" using e1(1) by (simp add: qsys_init_def)
  have e2: "fst (Get None ?q1) = Item ''x''" by (simp add: newQueue_simps queue_defs Push_def Pop_def getKey_def Let_def)
  have "qtrace None ?q [Accepted ''x'', Delivered ''x''] (?s\<lparr>tq := snd (Get None ?q1)\<rparr>)"
    using qtrace.step [OF t1 qstep.get_return [of None ?s]] e2 by simp
  from goroutines_refine_operations [OF this grow2_ge] this show ?thesis by auto
qed

end
