(* ===== verification/Clock.thy ===== *)
theory Clock
  imports Prelude
begin

text \<open>
  \<^verbatim>\<open>internal/clock/clock.go\<close>: the interfaces of a clock as records of their methods and the clock of the
  run time, \<open>RealClock\<close>, over a model of the timers of package \<^verbatim>\<open>time\<close> in virtual time.  The module
  declares Go 1.23, so \<open>Stop\<close> and \<open>Reset\<close> discard a value that waits in the channel of a timer and
  count it as not yet fired.
\<close>

section \<open>The interfaces\<close>

text \<open>
  \<open>'c\<close> is the state of the run time.  A channel of times is its receive, which is \<open>None\<close> while nothing
  can be received; an interface that embeds another extends its record.
\<close>

type_synonym 'c time_chan = "'c \<Rightarrow> (time \<times> 'c) option"

record 'c Ticker =
  ticker_C :: "'c time_chan"
  ticker_Stop :: "'c \<Rightarrow> 'c"

record 'c Timer =
  timer_C :: "'c time_chan"
  timer_Stop :: "'c \<Rightarrow> bool \<times> 'c"
  timer_Reset :: "time \<Rightarrow> 'c \<Rightarrow> bool \<times> 'c"

record 'c PassiveClock =
  clk_Now :: "'c \<Rightarrow> time"
  clk_Since :: "time \<Rightarrow> 'c \<Rightarrow> time"

text \<open>\<open>Tick\<close> returns a nil channel for an interval that is not positive; a nil channel never delivers.\<close>

record 'c Clock = "'c PassiveClock" +
  clk_After :: "time \<Rightarrow> 'c \<Rightarrow> 'c time_chan \<times> 'c"
  clk_NewTimer :: "time \<Rightarrow> 'c \<Rightarrow> 'c Timer \<times> 'c"
  clk_Sleep :: "time \<Rightarrow> 'c \<Rightarrow> 'c"
  clk_Tick :: "time \<Rightarrow> 'c \<Rightarrow> 'c time_chan \<times> 'c"

record 'c WithTicker = "'c Clock" +
  clk_NewTicker :: "time \<Rightarrow> 'c \<Rightarrow> ('c Ticker \<times> 'c) run"

section \<open>The timers of the run time\<close>

text \<open>
  A timer of package \<^verbatim>\<open>time\<close>: when it fires next (\<open>None\<close> when it is not armed), its period, which is 0
  for a timer that fires once, the time that waits in its channel, and the function of \<open>AfterFunc\<close>, of
  which only a name is kept; a timer with a function has no channel.
\<close>

record 'f rtimer =
  fires_at :: "time option"
  period :: time
  in_chan :: "time option"
  callback :: "'f option"

record 'f rt =
  rt_now :: time
  timers :: "'f rtimer list"
  started :: "'f list"

definition maxWhen :: time where "maxWhen = 2 ^ 63 - 1"

definition when_fires :: "time \<Rightarrow> 'f rt \<Rightarrow> time" where
  "when_fires d c = (if d \<le> 0 then rt_now c else min maxWhen (rt_now c + d))"

text \<open>
  A timer that is due puts its time into the channel unless one waits there, or starts its function; a
  periodic one is armed for its next time after \<open>n\<close>.
\<close>

definition due :: "time \<Rightarrow> 'f rtimer \<Rightarrow> bool" where
  "due n t \<longleftrightarrow> (case fires_at t of None \<Rightarrow> False | Some w \<Rightarrow> w \<le> n)"

definition fire :: "time \<Rightarrow> 'f rtimer \<Rightarrow> 'f rtimer" where
  "fire n t =
     (case fires_at t of
        None \<Rightarrow> t
      | Some w \<Rightarrow>
          if n < w then t
          else t\<lparr>fires_at := if period t > 0
                   then Some (min maxWhen (w + period t * (1 + (n - w) div period t))) else None,
                 in_chan := if callback t = None \<and> in_chan t = None then Some w else in_chan t\<rparr>)"

definition settle :: "'f rt \<Rightarrow> 'f rt" where
  "settle c = c\<lparr>timers := map (fire (rt_now c)) (timers c),
     started := started c @ concat (map (\<lambda>t. if due (rt_now c) t then (case callback t of None \<Rightarrow> [] | Some f \<Rightarrow> [f])
       else []) (timers c))\<rparr>"

definition elapse :: "time \<Rightarrow> 'f rt \<Rightarrow> 'f rt" where
  "elapse d c = settle (c\<lparr>rt_now := rt_now c + max 0 d\<rparr>)"

definition start_timer :: "time \<Rightarrow> time \<Rightarrow> 'f option \<Rightarrow> 'f rt \<Rightarrow> nat \<times> 'f rt" where
  "start_timer d p f c =
     (length (timers c),
      settle (c\<lparr>timers := timers c @
        [\<lparr>fires_at = Some (when_fires d c), period = p, in_chan = None, callback = f\<rparr>]\<rparr>))"

section \<open>\<open>realTimer\<close> and \<open>realTicker\<close>\<close>

definition receive_time :: "nat \<Rightarrow> 'f rt time_chan" where
  "receive_time i c =
     (case in_chan (timers c ! i) of
        None \<Rightarrow> None
      | Some w \<Rightarrow> Some (w, c\<lparr>timers := (timers c)[i := (timers c ! i)\<lparr>in_chan := None\<rparr>]\<rparr>))"

definition pending_timer :: "'f rtimer \<Rightarrow> bool" where
  "pending_timer t \<longleftrightarrow> fires_at t \<noteq> None \<or> in_chan t \<noteq> None"

definition stop_timer :: "nat \<Rightarrow> 'f rt \<Rightarrow> bool \<times> 'f rt" where
  "stop_timer i c =
     (pending_timer (timers c ! i),
      c\<lparr>timers := (timers c)[i := (timers c ! i)\<lparr>fires_at := None, in_chan := None\<rparr>]\<rparr>)"

definition reset_timer :: "nat \<Rightarrow> time \<Rightarrow> 'f rt \<Rightarrow> bool \<times> 'f rt" where
  "reset_timer i d c =
     (pending_timer (timers c ! i),
      settle (c\<lparr>timers := (timers c)
        [i := (timers c ! i)\<lparr>fires_at := Some (when_fires d c), in_chan := None\<rparr>]\<rparr>))"

definition realTimer :: "nat \<Rightarrow> 'f rt Timer" where
  "realTimer i = \<lparr>timer_C = receive_time i, timer_Stop = stop_timer i, timer_Reset = reset_timer i\<rparr>"

definition realTicker :: "nat \<Rightarrow> 'f rt Ticker" where
  "realTicker i = \<lparr>ticker_C = receive_time i, ticker_Stop = (\<lambda>c. snd (stop_timer i c))\<rparr>"

section \<open>\<open>RealClock\<close>\<close>

definition rc_Now :: "'f rt \<Rightarrow> time" where
  "rc_Now c = rt_now c"

text \<open>The difference of two times is kept within the range of a duration.\<close>

definition rc_Since :: "time \<Rightarrow> 'f rt \<Rightarrow> time" where
  "rc_Since ts c = max (- (2 ^ 63)) (min (2 ^ 63 - 1) (rt_now c - ts))"

definition rc_After :: "time \<Rightarrow> 'f rt \<Rightarrow> 'f rt time_chan \<times> 'f rt" where
  "rc_After d c = (case start_timer d 0 None c of (i, c1) \<Rightarrow> (receive_time i, c1))"

definition rc_NewTimer :: "time \<Rightarrow> 'f rt \<Rightarrow> 'f rt Timer \<times> 'f rt" where
  "rc_NewTimer d c = (case start_timer d 0 None c of (i, c1) \<Rightarrow> (realTimer i, c1))"

definition rc_AfterFunc :: "time \<Rightarrow> 'f \<Rightarrow> 'f rt \<Rightarrow> 'f rt Timer \<times> 'f rt" where
  "rc_AfterFunc d f c = (case start_timer d 0 (Some f) c of (i, c1) \<Rightarrow> (realTimer i, c1))"

definition rc_Tick :: "time \<Rightarrow> 'f rt \<Rightarrow> 'f rt time_chan \<times> 'f rt" where
  "rc_Tick d c =
     (if d \<le> 0 then (\<lambda>c. None, c)
      else (case start_timer d d None c of (i, c1) \<Rightarrow> (receive_time i, c1)))"

definition rc_NewTicker :: "time \<Rightarrow> 'f rt \<Rightarrow> ('f rt Ticker \<times> 'f rt) run" where
  "rc_NewTicker d c =
     (if d \<le> 0 then Panic
      else (case start_timer d d None c of (i, c1) \<Rightarrow> Return (realTicker i, c1)))"

definition rc_Sleep :: "time \<Rightarrow> 'f rt \<Rightarrow> 'f rt" where
  "rc_Sleep d c = (if d \<le> 0 then c else elapse d c)"

text \<open>\<open>RealClock\<close> as a \<open>WithTicker\<close>.\<close>

definition RealClock :: "'f rt WithTicker" where
  "RealClock = \<lparr>clk_Now = rc_Now, clk_Since = rc_Since, clk_After = rc_After, clk_NewTimer = rc_NewTimer,
     clk_Sleep = rc_Sleep, clk_Tick = rc_Tick, clk_NewTicker = rc_NewTicker\<rparr>"

section \<open>Facts about the timers\<close>

lemmas timer_defs = start_timer_def elapse_def settle_def receive_time_def stop_timer_def reset_timer_def
  when_fires_def

lemma fire_simps [simp]:
  "fires_at t = None \<Longrightarrow> fire n t = t"
  "fires_at t = Some w \<Longrightarrow> n < w \<Longrightarrow> fire n t = t"
  "fires_at t = Some w \<Longrightarrow> w \<le> n \<Longrightarrow> period t = 0 \<Longrightarrow>
     fire n t = t\<lparr>fires_at := None, in_chan := if callback t = None \<and> in_chan t = None then Some w else in_chan t\<rparr>"
  by (simp_all add: fire_def)

lemma settle_fields [simp]:
  "rt_now (settle c) = rt_now c" "length (timers (settle c)) = length (timers c)"
  "i < length (timers c) \<Longrightarrow> timers (settle c) ! i = fire (rt_now c) (timers c ! i)"
  by (simp_all add: settle_def)

section \<open>Properties\<close>

text \<open>
  A timer fires once and not early.  A timer for \<open>d\<close> delivers nothing before \<open>d\<close> has passed and
  then its time, once.  \<open>Stop\<close> says whether the time was still to be received and takes it back: after
  it the timer delivers nothing, however long one waits.
\<close>

theorem NewTimer_spec:
  assumes "rc_NewTimer d c = (t, c1)" and "0 < d" and "rt_now c + d \<le> maxWhen" and "0 \<le> e"
  shows "(e < d \<longrightarrow> timer_C t (elapse e c1) = None) \<and>
    (d \<le> e \<longrightarrow> (\<exists>c2. timer_C t (elapse e c1) = Some (rt_now c + d, c2) \<and>
       (\<forall>e2. timer_C t (elapse e2 c2) = None) \<and> \<not> fst (timer_Stop t c2))) \<and>
    fst (timer_Stop t (elapse e c1)) \<and>
    (\<forall>e2. timer_C t (elapse e2 (snd (timer_Stop t (elapse e c1)))) = None)"
proof -
  let ?i = "length (timers c)"
  let ?t = "\<lparr>fires_at = Some (rt_now c + d), period = 0, in_chan = None, callback = None\<rparr>"
  have t: "t = realTimer ?i" and c1: "rt_now c1 = rt_now c" "timers c1 ! ?i = ?t" "length (timers c1) = Suc ?i"
    using assms by (auto simp: rc_NewTimer_def start_timer_def when_fires_def nth_append)
  show ?thesis
    using assms(2,4) c1
    by (cases "d \<le> e") (auto simp: t realTimer_def receive_time_def stop_timer_def elapse_def pending_timer_def)
qed

theorem NewTimer_spec_witness:
  "\<exists>t c1 c2. rc_NewTimer 5 \<lparr>rt_now = 10, timers = [], started = ([] :: nat list)\<rparr> = (t, c1) \<and>
     timer_C t (elapse 4 c1) = None \<and> timer_C t (elapse 7 c1) = Some (15, c2)"
proof -
  let ?c = "\<lparr>rt_now = 10, timers = [], started = ([] :: nat list)\<rparr>"
  obtain t c1 where n: "rc_NewTimer 5 ?c = (t, c1)" by (cases "rc_NewTimer 5 ?c")
  have "rt_now ?c + 5 \<le> maxWhen" by (simp add: maxWhen_def)
  with NewTimer_spec [OF n, of 4] NewTimer_spec [OF n, of 7] n show ?thesis by auto
qed

end
