(* ===== verification/QueueClock.thy ===== *)
theory QueueClock
  imports Clock WorkQueue
begin

text \<open>
  The goroutine \<open>updateUnfinishedWorkLoop\<close> of the work queue (\<^verbatim>\<open>internal/queue/queue.go\<close>) on its clock:
  it waits for the ticks of a ticker, brings the metrics up to date at each one and ends at the first
  tick after the shutdown.
\<close>

section \<open>The loop and its steps\<close>

text \<open>Not started, at the receive from its ticker, ended, or ended by a panic of \<open>NewTicker\<close>.\<close>

datatype 'c loop_pc = NoLoop | AtTicker "'c Ticker" | LoopEnded | LoopPanicked

definition updateUnfinishedWorkLoop :: "'c WithTicker \<Rightarrow> time \<Rightarrow> 'c \<Rightarrow> 'c loop_pc \<times> 'c" where
  "updateUnfinishedWorkLoop clk updatePeriod c =
     (case clk_NewTicker clk updatePeriod c of
        Panic \<Rightarrow> (LoopPanicked, c)
      | Return (t, c1) \<Rightarrow> (AtTicker t, c1))"

text \<open>The end of \<open>newQueue\<close>, which starts the loop unless there are no metrics.\<close>

definition newQueue_loop :: "'c WithTicker \<Rightarrow> 'a queueMetrics \<Rightarrow> time \<Rightarrow> 'c \<Rightarrow> 'c loop_pc \<times> 'c" where
  "newQueue_loop clk m updatePeriod c =
     (if m = NoMetrics then (NoLoop, c) else updateUnfinishedWorkLoop clk updatePeriod c)"

definition defaultUnfinishedWorkUpdatePeriod :: time where
  "defaultUnfinishedWorkUpdatePeriod = 500 * millisecond"

text \<open>One turn of the loop, \<open>None\<close> while there is no tick; \<open>t.Stop\<close> is deferred.\<close>

definition loop_turn :: "'c WithTicker \<Rightarrow> 'a list \<Rightarrow> 'c Ticker \<Rightarrow> 'a Typed \<Rightarrow> 'c \<Rightarrow>
    ('c loop_pc \<times> 'a Typed \<times> 'c) option" where
  "loop_turn clk ks t q c =
     (case ticker_C t c of
        None \<Rightarrow> None
      | Some (tick, c1) \<Rightarrow>
          (case updateUnfinishedWork_tick ks (q\<lparr>clock := clk_Now clk c1\<rparr>) of
             (goes_on, q1) \<Rightarrow>
               Some (if goes_on then (AtTicker t, q1, c1) else (LoopEnded, q1, ticker_Stop t c1))))"

text \<open>The queue, the loop and the run time; calls of the queue and the passing of time come between.\<close>

record ('a, 'f) timed_queue =
  timed :: "'a Typed"
  loop_at :: "'f rt loop_pc"
  runtime :: "'f rt"

datatype 'a timed_op = Elapse time | Turn "'a list" | Call "'a queue_op"

fun timed_step :: "'a unikey \<Rightarrow> 'a timed_op \<Rightarrow> ('a, 'f) timed_queue \<Rightarrow> ('a, 'f) timed_queue option" where
  "timed_step uk (Elapse d) s = Some (s\<lparr>runtime := elapse d (runtime s)\<rparr>)"
| "timed_step uk (Turn ks) s =
     (case loop_at s of
        AtTicker t \<Rightarrow>
          (case loop_turn RealClock ks t (timed s) (runtime s) of
             None \<Rightarrow> None
           | Some (pc, q, c) \<Rightarrow> Some \<lparr>timed = q, loop_at = pc, runtime = c\<rparr>)
      | _ \<Rightarrow> None)"
| "timed_step uk (Call opn) s =
     (case opn of
        OpTick ks n \<Rightarrow> None
      | _ \<Rightarrow> Some (s\<lparr>timed := snd (queue_step uk opn ((timed s)\<lparr>clock := clk_Now RealClock (runtime s)\<rparr>))\<rparr>))"

fun timed_run :: "'a unikey \<Rightarrow> 'a timed_op list \<Rightarrow> ('a, 'f) timed_queue \<Rightarrow> ('a, 'f) timed_queue option" where
  "timed_run uk [] s = Some s"
| "timed_run uk (a # ops) s = (case timed_step uk a s of None \<Rightarrow> None | Some s1 \<Rightarrow> timed_run uk ops s1)"

definition timed_start :: "'a Typed \<Rightarrow> time \<Rightarrow> 'f rt \<Rightarrow> ('a, 'f) timed_queue" where
  "timed_start q updatePeriod c =
     (case newQueue_loop RealClock (metrics q) updatePeriod c of
        (pc, c1) \<Rightarrow> \<lparr>timed = q, loop_at = pc, runtime = c1\<rparr>)"

fun turns :: "'a timed_op list \<Rightarrow> nat" where
  "turns [] = 0"
| "turns (Turn ks # ops) = Suc (turns ops)"
| "turns (a # ops) = turns ops"

section \<open>The ticks of the loop\<close>

text \<open>
  The ticker \<open>i\<close> with period \<open>p\<close> since \<open>t0\<close>: it is in its \<open>k\<close>th period, and the \<open>n\<close> received ticks and
  the one that waits are not more than \<open>k\<close>.
\<close>

definition ticking :: "nat \<Rightarrow> time \<Rightarrow> time \<Rightarrow> int \<Rightarrow> 'f rt \<Rightarrow> bool" where
  "ticking i p t0 n c \<longleftrightarrow> i < length (timers c) \<and>
     (\<exists>k. let t = timers c ! i
        in period t = p \<and> callback t = None \<and> fires_at t = Some (min maxWhen (t0 + (k + 1) * p)) \<and>
           t0 + k * p \<le> rt_now c \<and> rt_now c < t0 + (k + 1) * p \<and>
           n + (if in_chan t = None then 0 else 1) \<le> k)"

lemma ticking_elapse:
  assumes "ticking i p t0 n c" and "0 < p" and "rt_now (elapse d c) < maxWhen"
  shows "ticking i p t0 n (elapse d c)"
proof -
  define m where "m = rt_now c + max 0 d"
  obtain k where i: "i < length (timers c)" and k: "period (timers c ! i) = p" "callback (timers c ! i) = None"
    "fires_at (timers c ! i) = Some (min maxWhen (t0 + (k + 1) * p))" "t0 + k * p \<le> rt_now c"
    "n + (if in_chan (timers c ! i) = None then 0 else 1) \<le> k"
    using assms(1) by (auto simp: ticking_def Let_def)
  define w where "w = t0 + (k + 1) * p"
  have now: "rt_now (elapse d c) = m" and t: "timers (elapse d c) ! i = fire m (timers c ! i)"
    and len: "length (timers (elapse d c)) = length (timers c)"
    using i by (simp_all add: elapse_def m_def)
  have m: "m < maxWhen" "rt_now c \<le> m" using assms(3) by (simp_all add: now m_def)
  show ?thesis
  proof (cases "m < w")
    case True
    with m(1) k(3) have "fire m (timers c ! i) = timers c ! i" by (simp add: w_def)
    with i k m True show ?thesis
      by (auto simp: ticking_def Let_def now t len w_def intro!: exI [of _ k])
  next
    case False
    define j where "j = (m - w) div p"
    have j: "0 \<le> j" "p * j \<le> m - w" "m - w < p * j + p"
    proof -
      have "p * j + (m - w) mod p = m - w" unfolding j_def by simp
      moreover have "0 \<le> (m - w) mod p" "(m - w) mod p < p" using assms(2) by simp_all
      ultimately show "p * j \<le> m - w" "m - w < p * j + p" by linarith+
      show "0 \<le> j" using False assms(2) by (simp add: j_def pos_imp_zdiv_nonneg_iff)
    qed
    have w: "fires_at (timers c ! i) = Some w" using k(3) m(1) False by (simp add: w_def)
    have step: "w + p * (1 + j) = t0 + (k + 1 + j + 1) * p" by (simp add: w_def algebra_simps)
    have "fire m (timers c ! i) = (timers c ! i)\<lparr>fires_at := Some (min maxWhen (t0 + (k + 1 + j + 1) * p)),
        in_chan := if in_chan (timers c ! i) = None then Some w else in_chan (timers c ! i)\<rparr>"
      using False assms(2) k(1,2) by (simp add: fire_def w j_def [symmetric] step)
    moreover have "t0 + (k + 1 + j) * p \<le> m" "m < t0 + (k + 1 + j + 1) * p"
      using j by (simp_all add: w_def algebra_simps)
    ultimately show ?thesis
      using i k j(1) by (auto simp: ticking_def Let_def now t len intro!: exI [of _ "k + 1 + j"])
  qed
qed

lemma ticking_receive:
  "ticking i p t0 n c \<Longrightarrow> receive_time i c = Some (w, c') \<Longrightarrow> ticking i p t0 (n + 1) c' \<and> rt_now c' = rt_now c"
  by (auto simp: ticking_def receive_time_def Let_def split: option.splits)

lemma ticking_bound: "ticking i p t0 n c \<Longrightarrow> 0 < p \<Longrightarrow> n * p \<le> rt_now c - t0"
proof -
  assume "ticking i p t0 n c" "0 < p"
  then obtain k where k: "t0 + k * p \<le> rt_now c" "n \<le> k" by (auto simp: ticking_def Let_def split: if_splits)
  from \<open>0 < p\<close> k(2) have "n * p \<le> k * p" by (simp add: mult_right_mono)
  with k(1) show ?thesis by linarith
qed

lemma ticking_start:
  assumes "start_timer p p None c = (i, c1)" and "0 < p" and "rt_now c < maxWhen"
  shows "ticking i p (rt_now c) 0 c1 \<and> rt_now c1 = rt_now c"
proof -
  let ?t = "\<lparr>fires_at = Some (min maxWhen (rt_now c + p)), period = p, in_chan = None, callback = None\<rparr>"
  have fire: "fire (rt_now c) ?t = ?t" using assms(2,3) by simp
  have "timers c1 ! i = ?t" "length (timers c1) = Suc i" "rt_now c1 = rt_now c"
    using assms(1,2) fire by (auto simp: start_timer_def when_fires_def nth_append)
  then show ?thesis using assms(2) by (auto simp: ticking_def Let_def intro!: exI [of _ 0])
qed

text \<open>A tick is there when a period has passed.\<close>

lemma ticking_waits:
  assumes "ticking i p t0 n c" and "0 < p" and "p \<le> d"
  shows "in_chan (timers (elapse d c) ! i) \<noteq> None"
proof -
  obtain k where i: "i < length (timers c)" and k: "callback (timers c ! i) = None"
    "fires_at (timers c ! i) = Some (min maxWhen (t0 + (k + 1) * p))" "t0 + k * p \<le> rt_now c"
    using assms(1) by (auto simp: ticking_def Let_def)
  have "min maxWhen (t0 + (k + 1) * p) \<le> rt_now c + max 0 d"
    using k(3) assms(2,3) by (simp add: algebra_simps)
  with i k(1,2) show ?thesis by (auto simp: elapse_def fire_def)
qed

section \<open>Runs\<close>

text \<open>The state after \<open>n\<close> turns of a loop on the ticker \<open>i\<close>, which is as good as gone when the loop has ended.\<close>

definition timed_inv :: "nat \<Rightarrow> time \<Rightarrow> time \<Rightarrow> nat \<Rightarrow> ('a, 'f) timed_queue \<Rightarrow> bool" where
  "timed_inv i p t0 n s \<longleftrightarrow> int n * p \<le> rt_now (runtime s) - t0 \<and>
     (case loop_at s of
        AtTicker t \<Rightarrow> t = realTicker i \<and> ticking i p t0 (int n) (runtime s)
      | LoopEnded \<Rightarrow> fires_at (timers (runtime s) ! i) = None \<and> in_chan (timers (runtime s) ! i) = None \<and>
          i < length (timers (runtime s))
      | _ \<Rightarrow> False)"

lemma elapse_now: "rt_now c \<le> rt_now (elapse d c)" "length (timers (elapse d c)) = length (timers c)"
  by (simp_all add: elapse_def)

lemma elapse_stopped:
  "i < length (timers c) \<Longrightarrow> fires_at (timers c ! i) = None \<Longrightarrow> timers (elapse d c) ! i = timers c ! i"
  by (simp add: elapse_def)

lemma loop_turn_cases:
  assumes "loop_turn RealClock ks (realTicker i) q c = Some (pc, q', c')"
  obtains w c1 where "receive_time i c = Some (w, c1)"
    "shuttingDown q \<Longrightarrow> pc = LoopEnded \<and> c' = snd (stop_timer i c1) \<and> q' = q\<lparr>clock := rt_now c1\<rparr>"
    "\<not> shuttingDown q \<Longrightarrow> pc = AtTicker (realTicker i) \<and> c' = c1 \<and>
       q' = q\<lparr>clock := rt_now c1, metrics := metrics_updateUnfinishedWork ks (rt_now c1) (metrics q)\<rparr>"
  using assms
  by (auto simp: loop_turn_def realTicker_def RealClock_def rc_Now_def updateUnfinishedWork_tick_def
      split: option.splits prod.splits if_splits)

lemma timed_step_inv:
  assumes "timed_inv i p t0 n s" and "0 < p" and "timed_step uk a s = Some s'" and "rt_now (runtime s') < maxWhen"
  shows "timed_inv i p t0 (n + turns [a]) s'"
proof (cases a)
  case (Elapse d)
  with assms show ?thesis
    using elapse_now(1) [of "runtime s" d] ticking_elapse [where c = "runtime s" and d = d and p = p, OF _ assms(2)]
    by (auto simp: timed_inv_def elapse_stopped elapse_now(2) split: loop_pc.splits)
next
  case (Turn ks)
  then obtain pc q c where l: "loop_at s = AtTicker (realTicker i)" "ticking i p t0 (int n) (runtime s)"
    and turn: "loop_turn RealClock ks (realTicker i) (timed s) (runtime s) = Some (pc, q, c)"
    and s': "s' = \<lparr>timed = q, loop_at = pc, runtime = c\<rparr>"
    using assms(1,3) by (auto simp: timed_inv_def split: loop_pc.splits option.splits)
  from loop_turn_cases [OF turn] obtain w c1 where r: "receive_time i (runtime s) = Some (w, c1)"
    and pc: "pc = LoopEnded \<and> c = snd (stop_timer i c1) \<or> pc = AtTicker (realTicker i) \<and> c = c1" by metis
  from ticking_receive [OF l(2) r] have c1: "ticking i p t0 (int (Suc n)) c1" by (simp add: add.commute)
  moreover have "i < length (timers c1)" using c1 by (simp add: ticking_def)
  ultimately show ?thesis using ticking_bound [OF c1 assms(2)] pc Turn
    by (auto simp: timed_inv_def s' stop_timer_def simp del: of_nat_Suc)
next
  case (Call opn)
  with assms(1,3) show ?thesis by (cases opn) (auto simp: timed_inv_def split: loop_pc.splits)
qed

text \<open>Time does not go back.\<close>

definition real_loop :: "('a, 'f) timed_queue \<Rightarrow> bool" where
  "real_loop s \<longleftrightarrow> (\<forall>t. loop_at s = AtTicker t \<longrightarrow> (\<exists>i. t = realTicker i))"

lemma timed_step_now:
  assumes "real_loop s" and "timed_step uk a s = Some s'"
  shows "rt_now (runtime s) \<le> rt_now (runtime s') \<and> real_loop s'"
proof (cases a)
  case (Turn ks)
  then obtain i pc q c where turn: "loop_turn RealClock ks (realTicker i) (timed s) (runtime s) = Some (pc, q, c)"
    and s': "s' = \<lparr>timed = q, loop_at = pc, runtime = c\<rparr>"
    using assms by (auto simp: real_loop_def split: loop_pc.splits option.splits)
  from loop_turn_cases [OF turn] obtain w c1 where r: "receive_time i (runtime s) = Some (w, c1)"
    and pc: "pc = LoopEnded \<and> c = snd (stop_timer i c1) \<or> pc = AtTicker (realTicker i) \<and> c = c1" by metis
  from r have "rt_now c1 = rt_now (runtime s)" by (auto simp: receive_time_def split: option.splits)
  with pc show ?thesis by (auto simp: s' stop_timer_def real_loop_def)
next
  case (Call opn)
  with assms show ?thesis by (cases opn) (auto simp: real_loop_def)
qed (use assms in \<open>auto simp: elapse_now real_loop_def\<close>)

lemma timed_run_now:
  "real_loop s \<Longrightarrow> timed_run uk ops s = Some s' \<Longrightarrow> rt_now (runtime s) \<le> rt_now (runtime s') \<and> real_loop s'"
proof (induction ops arbitrary: s)
  case (Cons a ops)
  then obtain s1 where "timed_step uk a s = Some s1" "timed_run uk ops s1 = Some s'" by (auto split: option.splits)
  with Cons.IH [of s1] timed_step_now [OF Cons.prems(1), of uk a s1] show ?case by force
qed simp

lemma turns_Cons: "turns (a # ops) = turns [a] + turns ops"
  by (cases a) simp_all

lemma timed_inv_real: "timed_inv i p t0 n s \<Longrightarrow> real_loop s"
  by (auto simp: timed_inv_def real_loop_def)

lemma timed_run_inv:
  "timed_inv i p t0 n s \<Longrightarrow> 0 < p \<Longrightarrow> timed_run uk ops s = Some s' \<Longrightarrow> rt_now (runtime s') < maxWhen \<Longrightarrow>
     timed_inv i p t0 (n + turns ops) s'"
proof (induction ops arbitrary: s n)
  case (Cons a ops)
  from Cons.prems(3) obtain s1 where s1: "timed_step uk a s = Some s1" "timed_run uk ops s1 = Some s'"
    by (auto split: option.splits)
  have "rt_now (runtime s1) < maxWhen"
    using timed_run_now [OF _ s1(2)] timed_step_now [OF timed_inv_real [OF Cons.prems(1)] s1(1)] Cons.prems(4) by auto
  from Cons.IH [OF timed_step_inv [OF Cons.prems(1,2) s1(1) this] Cons.prems(2) s1(2) Cons.prems(4)]
  show ?case by (simp add: turns_Cons [of a ops] add.assoc)
qed simp

lemma timed_start_inv:
  assumes "metrics q \<noteq> NoMetrics" and "0 < p" and "rt_now c < maxWhen"
  shows "\<exists>i. timed_inv i p (rt_now c) 0 (timed_start q p c)"
proof -
  obtain i c1 where st: "start_timer p p None c = (i, c1)" by (cases "start_timer p p None c")
  from ticking_start [OF this assms(2,3)] st assms show ?thesis
    by (auto simp: timed_inv_def timed_start_def newQueue_loop_def updateUnfinishedWorkLoop_def RealClock_def
        rc_NewTicker_def intro!: exI [of _ i])
qed

lemma timed_start_now: "real_loop (timed_start q p c) \<and> rt_now (runtime (timed_start q p c)) = rt_now c"
  by (auto simp: timed_start_def newQueue_loop_def updateUnfinishedWorkLoop_def RealClock_def rc_NewTicker_def
      real_loop_def start_timer_def Let_def split: run.splits)

lemma timed_start_run_inv:
  assumes "metrics q \<noteq> NoMetrics" and "0 < p" and "timed_run uk ops (timed_start q p c) = Some s"
    and "rt_now (runtime s) < maxWhen"
  shows "\<exists>i. timed_inv i p (rt_now c) (turns ops) s"
proof -
  have "rt_now c < maxWhen" using timed_run_now [OF _ assms(3)] timed_start_now [of q p c] assms(4) by auto
  from timed_start_inv [OF assms(1,2) this] timed_run_inv [OF _ assms(2-4)] show ?thesis by fastforce
qed

text \<open>The end of the loop is for good.\<close>

definition loop_gone :: "nat \<Rightarrow> ('a, 'f) timed_queue \<Rightarrow> bool" where
  "loop_gone i s \<longleftrightarrow> loop_at s = LoopEnded \<and> i < length (timers (runtime s)) \<and>
     fires_at (timers (runtime s) ! i) = None"

lemma timed_step_gone: "loop_gone i s \<Longrightarrow> timed_step uk a s = Some s' \<Longrightarrow> loop_gone i s'"
  by (cases a) (auto simp: loop_gone_def elapse_stopped elapse_now(2) split: queue_op.splits)

lemma timed_run_gone: "loop_gone i s \<Longrightarrow> timed_run uk ops s = Some s' \<Longrightarrow> loop_gone i s'"
  by (induction ops arbitrary: s) (auto dest: timed_step_gone split: option.splits)

section \<open>Properties\<close>

text \<open>
  C34: the metrics are not updated more often than once in a period.  However the calls of the queue,
  the passing of time and the turns of the loop interleave, the turns of the loop, times the period,
  are not more than the time that has passed since the queue was made, up to the year 2262, where the
  time of the run time ends.
\<close>

theorem updates_not_too_often:
  assumes "metrics q \<noteq> NoMetrics" and "0 < p" and "timed_run uk ops (timed_start q p c) = Some s"
    and "rt_now (runtime s) < maxWhen"
  shows "int (turns ops) * p \<le> rt_now (runtime s) - rt_now c"
  using timed_start_run_inv [OF assms] by (auto simp: timed_inv_def)

text \<open>
  C35: the loop follows the queue and does not outlive it.  In every state of a run in which the loop is
  still there, once a period has passed it has a turn: with a queue that is not shut down it brings the
  metrics up to date and goes on; with one that is shut down it ends for good and leaves no ticker
  behind.
\<close>

theorem loop_ends_after_shutdown:
  assumes "metrics q \<noteq> NoMetrics" and "0 < p" and "timed_run uk ops (timed_start q p c) = Some s"
    and "loop_at s \<noteq> LoopEnded" and "p \<le> d" and "rt_now (runtime s) + d < maxWhen"
  shows "\<exists>s'. timed_run uk [Elapse d, Turn ks] s = Some s' \<and>
    (if shuttingDown (timed s)
     then (\<forall>ops' s''. timed_run uk ops' s' = Some s'' \<longrightarrow>
       loop_at s'' = LoopEnded \<and>
       (\<exists>i<length (timers (runtime s'')). loop_at s = AtTicker (realTicker i) \<and>
          fires_at (timers (runtime s'') ! i) = None))
     else loop_at s' = loop_at s \<and> timed s' = (timed s)\<lparr>clock := rt_now (runtime s) + d,
       metrics := metrics_updateUnfinishedWork ks (rt_now (runtime s) + d) (metrics (timed s))\<rparr>)"
proof -
  have d: "0 < d" "rt_now (runtime s) < maxWhen" using assms(2,5,6) by linarith+
  obtain i where inv: "timed_inv i p (rt_now c) (turns ops) s"
    using timed_start_run_inv [OF assms(1-3) d(2)] by blast
  with assms(4) have l: "loop_at s = AtTicker (realTicker i)" "ticking i p (rt_now c) (int (turns ops)) (runtime s)"
    by (auto simp: timed_inv_def split: loop_pc.splits)
  let ?c = "elapse d (runtime s)"
  have now: "rt_now ?c = rt_now (runtime s) + d" using d(1) by (simp add: elapse_def)
  obtain w where "in_chan (timers ?c ! i) = Some w" using ticking_waits [OF l(2) assms(2,5)] by auto
  then obtain c1 where r: "receive_time i ?c = Some (w, c1)" and c1: "rt_now c1 = rt_now (runtime s) + d"
    by (simp add: receive_time_def now)
  have "\<exists>pc q' c'. loop_turn RealClock ks (realTicker i) (timed s) ?c = Some (pc, q', c')"
    using r by (simp add: loop_turn_def realTicker_def split_beta)
  then obtain pc q' c' where turn: "loop_turn RealClock ks (realTicker i) (timed s) ?c = Some (pc, q', c')" by blast
  let ?s = "\<lparr>timed = q', loop_at = pc, runtime = c'\<rparr>"
  have run: "timed_run uk [Elapse d, Turn ks] s = Some ?s" using turn l(1) by simp
  from loop_turn_cases [OF turn] r c1 have pc:
    "shuttingDown (timed s) \<Longrightarrow> pc = LoopEnded \<and> c' = snd (stop_timer i c1)"
    "\<not> shuttingDown (timed s) \<Longrightarrow> pc = loop_at s \<and> q' = (timed s)\<lparr>clock := rt_now (runtime s) + d,
       metrics := metrics_updateUnfinishedWork ks (rt_now (runtime s) + d) (metrics (timed s))\<rparr>"
    by (auto simp: l(1))
  have "i < length (timers c1)" using l(2) r by (auto simp: receive_time_def ticking_def elapse_now(2) split: option.splits)
  then have ended: "loop_gone i ?s" if "shuttingDown (timed s)"
    using pc(1) [OF that] by (simp add: loop_gone_def stop_timer_def)
  show ?thesis
    by (intro exI [of _ ?s]) (use run pc timed_run_gone [OF ended] l(1) in \<open>auto simp: loop_gone_def\<close>)
qed

section \<open>Witnesses\<close>

definition metered_queue :: "string Typed" where
  "metered_queue = newQueue (DefaultQueue grow2)
     (DefaultMetrics (Some \<lparr>addTimes = Map.empty, processingStartTimes = Map.empty, metric_calls = []\<rparr>)) 0"

definition fresh_rt :: "nat rt" where
  "fresh_rt = \<lparr>rt_now = 100, timers = [], started = []\<rparr>"

lemma metered_metrics: "metrics metered_queue \<noteq> NoMetrics"
  by (simp add: metered_queue_def newQueue_simps)

lemma two_turns:
  "\<exists>s. timed_run None [Elapse 25, Turn [], Elapse 5, Turn []] (timed_start metered_queue 10 fresh_rt) = Some s \<and>
     rt_now (runtime s) = 130 \<and> shuttingDown (timed s) = False \<and> loop_at s = AtTicker (realTicker 0)"
  by (simp add: timed_start_def newQueue_loop_def metered_metrics updateUnfinishedWorkLoop_def RealClock_def
      rc_NewTicker_def rc_Now_def timer_defs fire_def maxWhen_def fresh_rt_def realTicker_def loop_turn_def
      updateUnfinishedWork_tick_def metered_queue_def newQueue_simps)

theorem updates_not_too_often_witness:
  "\<exists>s. timed_run None [Elapse 25, Turn [], Elapse 5, Turn []] (timed_start metered_queue 10 fresh_rt) = Some s \<and>
     int (turns [Elapse 25, Turn ([] :: string list), Elapse 5, Turn []]) * 10 \<le> rt_now (runtime s) - 100"
proof -
  from two_turns obtain s where s: "timed_run None [Elapse 25, Turn [], Elapse 5, Turn []]
      (timed_start metered_queue 10 fresh_rt) = Some s" "rt_now (runtime s) = 130" by blast
  from updates_not_too_often [OF metered_metrics _ s(1)] s show ?thesis by (simp add: maxWhen_def fresh_rt_def)
qed

theorem loop_ends_after_shutdown_witness:
  "\<exists>s. timed_run None [Call OpShutDown, Elapse 10, Turn []] (timed_start metered_queue 10 fresh_rt) = Some s \<and>
     loop_at s = LoopEnded"
proof -
  have "\<exists>s. timed_run None [Call OpShutDown] (timed_start metered_queue 10 fresh_rt) = Some s \<and>
      rt_now (runtime s) = 100 \<and> shuttingDown (timed s) \<and> loop_at s = AtTicker (realTicker 0)"
    by (simp add: timed_start_def newQueue_loop_def metered_metrics updateUnfinishedWorkLoop_def RealClock_def
        rc_NewTicker_def timer_defs fire_def maxWhen_def fresh_rt_def queue_defs)
  then obtain s where s: "timed_run None [Call OpShutDown] (timed_start metered_queue 10 fresh_rt) = Some s"
    "rt_now (runtime s) = 100" "shuttingDown (timed s)" "loop_at s = AtTicker (realTicker 0)" by blast
  from loop_ends_after_shutdown [OF metered_metrics _ s(1), of 10 "[]"] s
  obtain s' where s': "timed_run None [Elapse 10, Turn []] s = Some s'"
    "\<And>ops' s''. timed_run None ops' s' = Some s'' \<Longrightarrow> loop_at s'' = LoopEnded"
    by (auto simp: maxWhen_def)
  from s'(2) [of "[]"] have "loop_at s' = LoopEnded" by simp
  with s(1) s'(1) show ?thesis by auto
qed

end
