(* ===== verification/TaskModel.thy ===== *)
theory TaskModel
  imports Prelude "HOL-Library.Word"
begin

text \<open>
  The data model of \<^verbatim>\<open>core/model\<close>: task states (\<^verbatim>\<open>task_status.go\<close>), the table of changes that turns a
  pair of actual and wanted state into a command (\<^verbatim>\<open>status_change.go\<close>), and the task
  records (\<^verbatim>\<open>task.go\<close>, \<^verbatim>\<open>task_exec.go\<close>).  A state is a string, as in the code: a value read from the
  task repository or from a request need not be one of the declared constants, and every
  function has a branch for that case.
\<close>

section \<open>Task states\<close>

type_synonym TaskStatus = string

definition TaskStatusNotExist :: TaskStatus where
  "TaskStatusNotExist = ''not_exist''"
definition TaskStatusWaitScheduling :: TaskStatus where
  "TaskStatusWaitScheduling = ''wait_scheduling''"
definition TaskStatusWaitRunning :: TaskStatus where
  "TaskStatusWaitRunning = ''wait_running''"
definition TaskStatusRunning :: TaskStatus where
  "TaskStatusRunning = ''running''"
definition TaskStatusWaitPaused :: TaskStatus where
  "TaskStatusWaitPaused = ''wait_paused''"
definition TaskStatusPaused :: TaskStatus where
  "TaskStatusPaused = ''paused''"
definition TaskStatusWaitStop :: TaskStatus where
  "TaskStatusWaitStop = ''wait_stopped''"
definition TaskStatusStop :: TaskStatus where
  "TaskStatusStop = ''stop''"
definition TaskStatusSuccess :: TaskStatus where
  "TaskStatusSuccess = ''success''"
definition TaskStatusFailed :: TaskStatus where
  "TaskStatusFailed = ''failed''"

lemmas TaskStatus_values [status_defs] =
  TaskStatusNotExist_def TaskStatusWaitScheduling_def TaskStatusWaitRunning_def
  TaskStatusRunning_def TaskStatusWaitPaused_def TaskStatusPaused_def TaskStatusWaitStop_def
  TaskStatusStop_def TaskStatusSuccess_def TaskStatusFailed_def

text \<open>
  The ten constants are pairwise different and none is the empty string; with these rules the
  simplifier decides every comparison of constants without looking at the characters.
\<close>

lemma TaskStatus_distinct:
  "distinct [TaskStatusNotExist, TaskStatusWaitScheduling, TaskStatusWaitRunning,
     TaskStatusRunning, TaskStatusWaitPaused, TaskStatusPaused, TaskStatusWaitStop,
     TaskStatusStop, TaskStatusSuccess, TaskStatusFailed, []]"
  by (simp add: status_defs)

lemmas TaskStatus_neqs [simp] =
  TaskStatus_distinct [unfolded distinct_unfold]
  TaskStatus_distinct [THEN distinct_reversed, unfolded rev.simps append.simps distinct_unfold]

definition IsWaitStatus :: "TaskStatus \<Rightarrow> bool" where
  "IsWaitStatus ts = HasPrefix ts ''wait_''"

definition IsFinalStatus :: "TaskStatus \<Rightarrow> bool" where
  "IsFinalStatus ts \<longleftrightarrow>
     ts = TaskStatusSuccess \<or> ts = TaskStatusFailed \<or> ts = TaskStatusStop"

definition is_known_status :: "TaskStatus \<Rightarrow> bool" where
  "is_known_status ts \<longleftrightarrow> ts \<in>
     {TaskStatusNotExist, TaskStatusWaitScheduling, TaskStatusWaitRunning, TaskStatusRunning,
      TaskStatusWaitPaused, TaskStatusPaused, TaskStatusWaitStop, TaskStatusStop,
      TaskStatusSuccess, TaskStatusFailed}"

definition PreWaitStatus :: "TaskStatus \<Rightarrow> TaskStatus" where
  "PreWaitStatus ts =
     (if IsFinalStatus ts then TaskStatusWaitStop
      else if ts = TaskStatusPaused then TaskStatusWaitPaused
      else if ts = TaskStatusRunning then TaskStatusWaitRunning
      else [])"

section \<open>Changes\<close>

type_synonym ChangeType = string

definition ChangeCreate :: ChangeType where "ChangeCreate = ''create''"
definition ChangeDelete :: ChangeType where "ChangeDelete = ''delete''"
definition ChangeResume :: ChangeType where "ChangeResume = ''resume''"
definition ChangePause :: ChangeType where "ChangePause = ''pause''"
definition ChangeStop :: ChangeType where "ChangeStop = ''stop''"
definition ChangeExceptionUpdate :: ChangeType where
  "ChangeExceptionUpdate = ''exception_update''"
definition ChangeExceptionFinish :: ChangeType where
  "ChangeExceptionFinish = ''exception_finish''"

lemmas ChangeType_values [status_defs] =
  ChangeCreate_def ChangeDelete_def ChangeResume_def ChangePause_def ChangeStop_def
  ChangeExceptionUpdate_def ChangeExceptionFinish_def

lemma ChangeType_distinct:
  "distinct [ChangeCreate, ChangeDelete, ChangeResume, ChangePause, ChangeStop,
     ChangeExceptionUpdate, ChangeExceptionFinish, []]"
  by (simp add: status_defs)

lemmas ChangeType_neqs [simp] =
  ChangeType_distinct [unfolded distinct_unfold]
  ChangeType_distinct [THEN distinct_reversed, unfolded rev.simps append.simps distinct_unfold]

definition changeTypesRule :: "TaskStatus \<rightharpoonup> (TaskStatus \<rightharpoonup> ChangeType)" where
  "changeTypesRule = [
     TaskStatusNotExist \<mapsto> [
       TaskStatusRunning \<mapsto> ChangeCreate,
       TaskStatusPaused \<mapsto> ChangeExceptionUpdate,
       TaskStatusStop \<mapsto> ChangeExceptionFinish],
     TaskStatusRunning \<mapsto> [
       TaskStatusPaused \<mapsto> ChangePause,
       TaskStatusStop \<mapsto> ChangeStop,
       TaskStatusNotExist \<mapsto> ChangeDelete],
     TaskStatusPaused \<mapsto> [
       TaskStatusRunning \<mapsto> ChangeResume,
       TaskStatusStop \<mapsto> ChangeStop,
       TaskStatusNotExist \<mapsto> ChangeDelete]]"

definition GetChangeType :: "TaskStatus \<Rightarrow> TaskStatus \<Rightarrow> ChangeType result" where
  "GetChangeType realRunStatus wantRunStatus =
     (case changeTypesRule realRunStatus of
        None \<Rightarrow> Err (UnsupportedState realRunStatus)
      | Some m \<Rightarrow>
          (case m wantRunStatus of
             None \<Rightarrow> Err (UnsupportedTransition realRunStatus wantRunStatus)
           | Some fid \<Rightarrow> Ok fid))"

definition CanTransition :: "TaskStatus \<Rightarrow> TaskStatus \<Rightarrow> error option" where
  "CanTransition ts nextStatus =
     (case GetChangeType ts nextStatus of Inl err \<Rightarrow> Some err | Inr _ \<Rightarrow> None)"

section \<open>Task records\<close>

record Task =
  task_ID :: "64 word"
  task_TaskKey :: string
  task_BizID :: string
  task_BizType :: string
  task_Type :: string
  task_Payload :: string
  task_Labels :: "string \<rightharpoonup> string"
  task_Stains :: "string \<rightharpoonup> string"
  task_Extra :: "string \<rightharpoonup> string"
  task_Status :: TaskStatus
  task_WantRunStatus :: TaskStatus
  task_WorkerID :: string
  task_NextRunAt :: "time option"
  task_Msg :: string
  task_CreatedAt :: time
  task_UpdatedAt :: time

text \<open>\<open>&model.Task{}\<close>: every field has its zero value; a composite literal updates it.\<close>

definition zero_Task :: Task where
  "zero_Task = \<lparr>task_ID = 0, task_TaskKey = [], task_BizID = [], task_BizType = [],
     task_Type = [], task_Payload = [], task_Labels = Map.empty, task_Stains = Map.empty,
     task_Extra = Map.empty, task_Status = [], task_WantRunStatus = [], task_WorkerID = [],
     task_NextRunAt = None, task_Msg = [], task_CreatedAt = 0, task_UpdatedAt = 0\<rparr>"

definition Clone :: "Task \<Rightarrow> Task" where
  "Clone t = zero_Task\<lparr>
     task_ID := task_ID t, task_TaskKey := task_TaskKey t, task_BizID := task_BizID t,
     task_BizType := task_BizType t, task_Type := task_Type t,
     task_Payload := task_Payload t, task_Labels := task_Labels t,
     task_Stains := task_Stains t, task_Extra := task_Extra t,
     task_Status := task_Status t, task_Msg := task_Msg t,
     task_CreatedAt := task_CreatedAt t, task_UpdatedAt := task_UpdatedAt t\<rparr>"

record TaskFilter =
  filter_BizIDs :: "string list"
  filter_BizType :: string
  filter_Type :: string
  filter_Offset :: int
  filter_Limit :: int

record TaskExecParam =
  param_TaskKey :: string
  param_BizID :: string
  param_BizType :: string
  param_Payload :: string

record TaskExecResult =
  res_TaskKey :: string
  res_TaskType :: string
  res_Status :: TaskStatus
  res_Msg :: string

record Change =
  chg_TaskKey :: string
  chg_TaskType :: string
  chg_ChangeType :: ChangeType
  chg_Task :: "Task option"

definition zero_Change :: Change where
  "zero_Change = \<lparr>chg_TaskKey = [], chg_TaskType = [], chg_ChangeType = [], chg_Task = None\<rparr>"

definition GetUniKey :: "Change \<Rightarrow> Change" where
  "GetUniKey c = zero_Change\<lparr>chg_TaskKey := chg_TaskKey c\<rparr>"

definition IsException :: "Change \<Rightarrow> bool" where
  "IsException c = HasPrefix (chg_ChangeType c) ''exception''"

section \<open>Facts about states and changes\<close>

lemma changeTypesRule_simps [simp]:
  "changeTypesRule TaskStatusNotExist = Some [TaskStatusRunning \<mapsto> ChangeCreate,
     TaskStatusPaused \<mapsto> ChangeExceptionUpdate, TaskStatusStop \<mapsto> ChangeExceptionFinish]"
  "changeTypesRule TaskStatusRunning = Some [TaskStatusPaused \<mapsto> ChangePause,
     TaskStatusStop \<mapsto> ChangeStop, TaskStatusNotExist \<mapsto> ChangeDelete]"
  "changeTypesRule TaskStatusPaused = Some [TaskStatusRunning \<mapsto> ChangeResume,
     TaskStatusStop \<mapsto> ChangeStop, TaskStatusNotExist \<mapsto> ChangeDelete]"
  by (simp_all add: changeTypesRule_def)

lemma changeTypesRule_None:
  "changeTypesRule ts = None \<longleftrightarrow>
     ts \<notin> {TaskStatusNotExist, TaskStatusRunning, TaskStatusPaused}"
  by (auto simp: changeTypesRule_def)

text \<open>The rows of the table as a list of triples: the specification of \<open>GetChangeType\<close>.\<close>

definition change_table :: "(TaskStatus \<times> TaskStatus \<times> ChangeType) list" where
  "change_table =
     [(TaskStatusNotExist, TaskStatusRunning, ChangeCreate),
      (TaskStatusNotExist, TaskStatusPaused, ChangeExceptionUpdate),
      (TaskStatusNotExist, TaskStatusStop, ChangeExceptionFinish),
      (TaskStatusRunning, TaskStatusPaused, ChangePause),
      (TaskStatusRunning, TaskStatusStop, ChangeStop),
      (TaskStatusRunning, TaskStatusNotExist, ChangeDelete),
      (TaskStatusPaused, TaskStatusRunning, ChangeResume),
      (TaskStatusPaused, TaskStatusStop, ChangeStop),
      (TaskStatusPaused, TaskStatusNotExist, ChangeDelete)]"

lemma GetChangeType_Ok_iff:
  "GetChangeType r w = Ok c \<longleftrightarrow> (r, w, c) \<in> set change_table"
proof (cases "r \<in> {TaskStatusNotExist, TaskStatusRunning, TaskStatusPaused}")
  case True
  then show ?thesis
    by (elim insertE emptyE) (auto simp: GetChangeType_def change_table_def split: if_splits)
next
  case False
  then show ?thesis
    by (auto simp: GetChangeType_def change_table_def changeTypesRule_None [THEN iffD2])
qed

lemma GetChangeType_Err_iff:
  "(\<exists>e. GetChangeType r w = Err e) \<longleftrightarrow> (\<forall>c. (r, w, c) \<notin> set change_table)"
  using GetChangeType_Ok_iff [of r w] by (cases "GetChangeType r w") auto

lemma CanTransition_None_iff:
  "CanTransition r w = None \<longleftrightarrow> (\<exists>c. (r, w, c) \<in> set change_table)"
  by (auto simp: CanTransition_def GetChangeType_Ok_iff [symmetric] split: sum.splits)

lemma IsFinalStatus_simps [simp]:
  "IsFinalStatus TaskStatusSuccess" "IsFinalStatus TaskStatusFailed"
  "IsFinalStatus TaskStatusStop"
  "\<not> IsFinalStatus TaskStatusNotExist" "\<not> IsFinalStatus TaskStatusRunning"
  "\<not> IsFinalStatus TaskStatusPaused" "\<not> IsFinalStatus TaskStatusWaitScheduling"
  "\<not> IsFinalStatus TaskStatusWaitRunning" "\<not> IsFinalStatus TaskStatusWaitPaused"
  "\<not> IsFinalStatus TaskStatusWaitStop" "\<not> IsFinalStatus []"
  by (simp_all add: IsFinalStatus_def)

lemma IsWaitStatus_simps [simp]:
  "IsWaitStatus TaskStatusWaitScheduling" "IsWaitStatus TaskStatusWaitRunning"
  "IsWaitStatus TaskStatusWaitPaused" "IsWaitStatus TaskStatusWaitStop"
  "\<not> IsWaitStatus TaskStatusNotExist" "\<not> IsWaitStatus TaskStatusRunning"
  "\<not> IsWaitStatus TaskStatusPaused" "\<not> IsWaitStatus TaskStatusStop"
  "\<not> IsWaitStatus TaskStatusSuccess" "\<not> IsWaitStatus TaskStatusFailed"
  by (simp_all add: IsWaitStatus_def status_defs)

lemma PreWaitStatus_simps [simp]:
  "PreWaitStatus TaskStatusStop = TaskStatusWaitStop"
  "PreWaitStatus TaskStatusPaused = TaskStatusWaitPaused"
  "PreWaitStatus TaskStatusRunning = TaskStatusWaitRunning"
  "PreWaitStatus TaskStatusNotExist = []"
  by (simp_all add: PreWaitStatus_def)

lemma IsException_iff:
  assumes "chg_ChangeType c \<in> {ChangeCreate, ChangeDelete, ChangeResume, ChangePause, ChangeStop,
     ChangeExceptionUpdate, ChangeExceptionFinish}"
  shows "IsException c \<longleftrightarrow>
     chg_ChangeType c = ChangeExceptionUpdate \<or> chg_ChangeType c = ChangeExceptionFinish"
  using assms by (auto simp: IsException_def status_defs)

lemma GetUniKey_eq_iff [simp]: "GetUniKey c = GetUniKey d \<longleftrightarrow> chg_TaskKey c = chg_TaskKey d"
  by (simp add: GetUniKey_def zero_Change_def)

lemma GetUniKey_TaskKey [simp]: "chg_TaskKey (GetUniKey c) = chg_TaskKey c"
  by (simp add: GetUniKey_def)

lemma GetUniKey_idem [simp]: "GetUniKey (GetUniKey c) = GetUniKey c"
  by simp

text \<open>
  What a change is for: the state of the task after the executor has carried it out.
\<close>

definition change_target :: "ChangeType \<rightharpoonup> TaskStatus" where
  "change_target = [ChangeCreate \<mapsto> TaskStatusRunning, ChangeResume \<mapsto> TaskStatusRunning,
     ChangePause \<mapsto> TaskStatusPaused, ChangeStop \<mapsto> TaskStatusStop,
     ChangeDelete \<mapsto> TaskStatusNotExist]"

lemma change_target_simps [simp]:
  "change_target ChangeCreate = Some TaskStatusRunning"
  "change_target ChangeResume = Some TaskStatusRunning"
  "change_target ChangePause = Some TaskStatusPaused"
  "change_target ChangeStop = Some TaskStatusStop"
  "change_target ChangeDelete = Some TaskStatusNotExist"
  "change_target ChangeExceptionUpdate = None"
  "change_target ChangeExceptionFinish = None"
  by (simp_all add: change_target_def)

section \<open>Properties\<close>

text \<open>
  \<open>GetChangeType\<close> succeeds on exactly the nine rows of the table of changes and returns
  the change of that row; a commanded (not exceptional) change drives the task to the state
  that was wanted, the wanted state is never the actual one, and every other pair of states,
  undeclared strings included, is an error that names the pair.
\<close>

theorem GetChangeType_spec:
  "GetChangeType r w =
     (case find (\<lambda>(r', w', c). r' = r \<and> w' = w) change_table of
        Some (_, _, c) \<Rightarrow> Ok c
      | None \<Rightarrow> if r \<in> {TaskStatusNotExist, TaskStatusRunning, TaskStatusPaused}
                then Err (UnsupportedTransition r w) else Err (UnsupportedState r)) \<and>
   (\<forall>c. GetChangeType r w = Ok c \<longrightarrow> r \<noteq> w \<and>
      (\<forall>ts. change_target c = Some ts \<longrightarrow> ts = w))"
proof -
  have "r \<noteq> w \<and> (\<forall>ts. change_target c = Some ts \<longrightarrow> ts = w)" if "GetChangeType r w = Ok c" for c
    using that unfolding GetChangeType_Ok_iff by (auto simp: change_table_def)
  moreover have "GetChangeType r w =
     (case find (\<lambda>(r', w', c). r' = r \<and> w' = w) change_table of
        Some (_, _, c) \<Rightarrow> Ok c
      | None \<Rightarrow> if r \<in> {TaskStatusNotExist, TaskStatusRunning, TaskStatusPaused}
                then Err (UnsupportedTransition r w) else Err (UnsupportedState r))"
    by (auto simp: GetChangeType_def change_table_def changeTypesRule_None [THEN iffD2])
  ultimately show ?thesis by blast
qed

theorem GetChangeType_spec_witness:
  "GetChangeType TaskStatusRunning TaskStatusPaused = Ok ChangePause \<and>
   (TaskStatusRunning \<noteq> TaskStatusPaused \<and> change_target ChangePause = Some TaskStatusPaused)"
  using GetChangeType_spec [of TaskStatusRunning TaskStatusPaused] by (simp add: change_table_def)

text \<open>
  No operation is possible on a task that is finished, waiting for an earlier operation to
  take effect, or in an undeclared state: \<open>CanTransition\<close> refuses every next state.
\<close>

theorem no_transition_from_final_or_wait:
  assumes "IsFinalStatus ts \<or> IsWaitStatus ts \<or> \<not> is_known_status ts"
  shows "CanTransition ts nextStatus = Some (UnsupportedState ts)"
proof -
  have "ts \<notin> {TaskStatusNotExist, TaskStatusRunning, TaskStatusPaused}"
    using assms
    by (auto simp: is_known_status_def)
  then have "changeTypesRule ts = None" by (simp only: changeTypesRule_None) simp
  then show ?thesis by (simp add: CanTransition_def GetChangeType_def)
qed

theorem no_transition_from_final_or_wait_witness:
  "CanTransition TaskStatusSuccess TaskStatusRunning = Some (UnsupportedState TaskStatusSuccess)"
  by (rule no_transition_from_final_or_wait) simp

text \<open>
  \<open>Clone\<close> copies every field of a task but three: the wanted state, the worker and the
  next run time of the copy are the zero values, whatever the original holds, so a clone
  equals its original exactly when those three fields are unset.
\<close>

theorem Clone_drops_fields:
  "Clone t = t\<lparr>task_WantRunStatus := [], task_WorkerID := [], task_NextRunAt := None\<rparr> \<and>
   (Clone t = t \<longleftrightarrow> task_WantRunStatus t = [] \<and> task_WorkerID t = [] \<and> task_NextRunAt t = None)"
  by (cases t) (auto simp: Clone_def zero_Task_def)

end
