(* ===== verification/Cache.thy ===== *)
theory Cache
  imports TaskModel
begin

text \<open>
  \<^verbatim>\<open>internal/cache/threadsafe_map.go\<close>, a map with the time of the last \<open>Set\<close> of every key and a
  background loop that recycles entries.  Every method holds the lock of the map from its first to
  its last line; the recycling loop does not, it is a snapshot followed by deletions.
\<close>

section \<open>ThreadSafeMap\<close>

record 'a ThreadSafeMap =
  setTime :: "string \<rightharpoonup> time"
  items :: "string \<rightharpoonup> 'a"

definition NewThreadSafeMap :: "'a ThreadSafeMap" where
  "NewThreadSafeMap = \<lparr>setTime = Map.empty, items = Map.empty\<rparr>"

definition Set :: "time \<Rightarrow> string \<Rightarrow> 'a \<Rightarrow> 'a ThreadSafeMap \<Rightarrow> 'a ThreadSafeMap" where
  "Set now key obj c = c\<lparr>items := (items c)(key \<mapsto> obj), setTime := (setTime c)(key \<mapsto> now)\<rparr>"

definition Delete :: "string \<Rightarrow> 'a ThreadSafeMap \<Rightarrow> 'a ThreadSafeMap" where
  "Delete key c = c\<lparr>items := (items c)(key := None), setTime := (setTime c)(key := None)\<rparr>"

definition cache_Get :: "string \<Rightarrow> 'a ThreadSafeMap \<Rightarrow> 'a option" where
  "cache_Get key c = items c key"

text \<open>The snapshot that the recycling loop takes; \<open>now k\<close> is the clock when \<open>k\<close> is visited.\<close>

definition listWithSetDurition ::
    "(string \<Rightarrow> time) \<Rightarrow> 'a ThreadSafeMap \<Rightarrow> (string \<rightharpoonup> 'a \<times> time)" where
  "listWithSetDurition now c =
     (\<lambda>key. case items c key of
        None \<Rightarrow> None
      | Some item \<Rightarrow>
          Some (item, now key - (case setTime c key of None \<Rightarrow> 0 | Some t \<Rightarrow> t)))"

definition cache_List :: "string list \<Rightarrow> 'a ThreadSafeMap \<Rightarrow> 'a list" where
  "cache_List ks c = map snd (go_range ks (items c))"

text \<open>One round of the background loop over a snapshot, and a round that nothing interrupts.\<close>

fun recycle_loop ::
    "('a \<Rightarrow> time \<Rightarrow> bool) \<Rightarrow> (string \<times> 'a \<times> time) list \<Rightarrow> 'a ThreadSafeMap \<Rightarrow> 'a ThreadSafeMap" where
  "recycle_loop condition [] c = c"
| "recycle_loop condition ((key, item, d) # es) c =
     recycle_loop condition es (if condition item d then Delete key c else c)"

definition recycle_round ::
    "('a \<Rightarrow> time \<Rightarrow> bool) \<Rightarrow> string list \<Rightarrow> (string \<Rightarrow> time) \<Rightarrow> 'a ThreadSafeMap \<Rightarrow> 'a ThreadSafeMap" where
  "recycle_round condition ks now c =
     recycle_loop condition (go_range ks (listWithSetDurition now c)) c"

definition times_ok :: "'a ThreadSafeMap \<Rightarrow> bool" where
  "times_ok c \<longleftrightarrow>
     (\<forall>k. setTime c k = None \<longleftrightarrow> items c k = None) \<and> finite (dom (items c))"

text \<open>The contract of the map as a keyed store.\<close>

locale keyed_store =
  fixes empty :: "'m" and put :: "time \<Rightarrow> string \<Rightarrow> 'a \<Rightarrow> 'm \<Rightarrow> 'm" and remove :: "string \<Rightarrow> 'm \<Rightarrow> 'm"
    and look :: "string \<Rightarrow> 'm \<Rightarrow> 'a option" and all :: "string list \<Rightarrow> 'm \<Rightarrow> 'a list"
    and order :: "string list \<Rightarrow> 'm \<Rightarrow> bool" and invar :: "'m \<Rightarrow> bool"
  assumes look_empty: "look k empty = None"
    and look_put: "look k' (put t k v m) = (if k' = k then Some v else look k' m)"
    and look_remove: "look k' (remove k m) = (if k' = k then None else look k' m)"
    and all_look: "order ks m \<Longrightarrow> set (all ks m) = {v. \<exists>k. look k m = Some v}"
    and all_distinct: "order ks m \<Longrightarrow> inj_on (\<lambda>k. look k m) {k. look k m \<noteq> None} \<Longrightarrow> distinct (all ks m)"
    and invar_empty: "invar empty"
    and invar_put: "invar m \<Longrightarrow> invar (put t k v m)"
    and invar_remove: "invar m \<Longrightarrow> invar (remove k m)"

text \<open>Filling a store from a list of keyed values, each with the time of its insertion.\<close>

fun put_all :: "(time \<Rightarrow> string \<Rightarrow> 'a \<Rightarrow> 'm \<Rightarrow> 'm) \<Rightarrow> ('a \<Rightarrow> string) \<Rightarrow> (time \<times> 'a) list \<Rightarrow> 'm \<Rightarrow> 'm" where
  "put_all put f [] m = m"
| "put_all put f ((t, v) # vs) m = put_all put f vs (put t (f v) v m)"

context keyed_store begin

lemma look_put_all:
  "look k (put_all put f vs m) =
     (case map_of (rev (map (\<lambda>v. (f (snd v), snd v)) vs)) k of None \<Rightarrow> look k m | Some v \<Rightarrow> Some v)"
  by (induction vs arbitrary: m)
    (auto simp: look_put map_add_def split: option.splits prod.splits)

lemma invar_put_all: "invar m \<Longrightarrow> invar (put_all put f vs m)"
  by (induction vs arbitrary: m) (auto simp: invar_put)

text \<open>Stored under their own keys, the values of a store are listed once each.\<close>

lemma coherent_put: "(\<And>k v. look k m = Some v \<Longrightarrow> f v = k) \<Longrightarrow> look k (put t (f x) x m) = Some v \<Longrightarrow> f v = k"
  by (auto simp: look_put split: if_splits)

lemma coherent_remove: "(\<And>k v. look k m = Some v \<Longrightarrow> f v = k) \<Longrightarrow> look k (remove k' m) = Some v \<Longrightarrow> f v = k"
  by (auto simp: look_remove split: if_splits)

lemma coherent_put_all:
  "(\<And>k v. look k m = Some v \<Longrightarrow> f v = k) \<Longrightarrow> look k (put_all put f vs m) = Some v \<Longrightarrow> f v = k"
proof (induction vs arbitrary: m)
  case (Cons x vs)
  have "\<And>k v. look k (put (fst x) (f (snd x)) (snd x) m) = Some v \<Longrightarrow> f v = k"
    using Cons.prems(1) by (rule coherent_put)
  with Cons.IH Cons.prems(2) show ?case by (cases x) auto
qed auto

lemma coherent_all:
  assumes "order ks m" and "\<And>k v. look k m = Some v \<Longrightarrow> f v = k"
  shows "distinct (map f (all ks m)) \<and> (\<forall>v. v \<in> set (all ks m) \<longleftrightarrow> look (f v) m = Some v)"
proof -
  have "inj_on (\<lambda>k. look k m) {k. look k m \<noteq> None}"
    using assms(2) by (auto simp: inj_on_def) metis
  with assms(1) have "distinct (all ks m)" by (rule all_distinct)
  moreover have "inj_on f (set (all ks m))"
    using all_look [OF assms(1)] assms(2) by (auto simp: inj_on_def)
  ultimately have "distinct (map f (all ks m))" by (simp add: distinct_map)
  moreover have "\<forall>v. v \<in> set (all ks m) \<longleftrightarrow> look (f v) m = Some v"
    using all_look [OF assms(1)] assms(2) by auto
  ultimately show ?thesis by blast
qed

end

interpretation store: keyed_store NewThreadSafeMap Set Delete cache_Get cache_List
  "\<lambda>ks c. range_order ks (items c)" times_ok
proof (unfold_locales, goal_cases)
  case (4 ks m)
  then show ?case
    by (auto simp: cache_List_def cache_Get_def set_go_range range_order_def) force
next
  case (5 ks m)
  then have "inj_on snd (set (go_range ks (items m)))"
    by (auto simp: inj_on_def set_go_range cache_Get_def range_order_def)
  moreover have "distinct (go_range ks (items m))"
    using 5 range_order_keys [of ks "items m"] by (metis distinct_map range_order_def)
  ultimately show ?case by (simp add: cache_List_def distinct_map)
qed (auto simp: NewThreadSafeMap_def Set_def Delete_def cache_Get_def times_ok_def)

section \<open>The recycling loop\<close>

lemma recycle_loop_items:
  "items (recycle_loop condition es c) =
     (\<lambda>k. if \<exists>item d. (k, item, d) \<in> set es \<and> condition item d then None else items c k)"
  by (induction condition es c rule: recycle_loop.induct)
    (auto simp: Delete_def fun_eq_iff)

lemma recycle_loop_times:
  "setTime (recycle_loop condition es c) =
     (\<lambda>k. if \<exists>item d. (k, item, d) \<in> set es \<and> condition item d then None else setTime c k)"
  by (induction condition es c rule: recycle_loop.induct)
    (auto simp: Delete_def fun_eq_iff)

lemma dom_snapshot: "dom (listWithSetDurition now c) = dom (items c)"
  by (auto simp: listWithSetDurition_def split: option.splits)

lemma in_snapshot:
  "range_order ks (items c) \<Longrightarrow>
   (k, item, d) \<in> set (go_range ks (listWithSetDurition now c)) \<longleftrightarrow>
     items c k = Some item \<and> d = now k - (case setTime c k of None \<Rightarrow> 0 | Some t \<Rightarrow> t)"
  by (auto simp: set_go_range range_order_def listWithSetDurition_def split: option.splits)

end
