(* ===== verification/Indexer.thy ===== *)
theory Indexer
  imports Cache
begin

text \<open>
  \<^verbatim>\<open>core/worker/infomer/indexer.go\<close>: the cache of actual task states.  The loader (the executor
  manager) is asked for the list of tasks by the caller of these definitions, which take its
  answer; the callback \<open>afterChange\<close> is returned as the argument it is called with.
\<close>

type_synonym task_cache = "TaskExecResult ThreadSafeMap"

text \<open>The condition for recycling; \<open>None\<close> is a nil task.\<close>

definition recycleCondition :: "TaskExecResult option \<Rightarrow> time \<Rightarrow> bool" where
  "recycleCondition task afterSetDuration =
     (case task of
        None \<Rightarrow> True
      | Some t \<Rightarrow> IsFinalStatus (res_Status t) \<and> afterSetDuration > minute)"

text \<open>\<open>initCache\<close>: the \<open>r\<close>-th insertion happens at time \<open>now r\<close>; \<open>NewIndexer\<close> panics on an error.\<close>

definition initCache ::
    "(TaskExecResult \<Rightarrow> time) \<Rightarrow> TaskExecResult list result \<Rightarrow> task_cache result" where
  "initCache now loaded =
     (case loaded of
        Inl err \<Rightarrow> Err err
      | Inr reals \<Rightarrow> Ok (put_all Set res_TaskKey (map (\<lambda>r. (now r, r)) reals) NewThreadSafeMap))"

definition NewIndexer ::
    "(TaskExecResult \<Rightarrow> time) \<Rightarrow> TaskExecResult list result \<Rightarrow> task_cache run" where
  "NewIndexer now loaded =
     (case initCache now loaded of Inl _ \<Rightarrow> Panic | Inr c \<Rightarrow> Return c)"

definition ListTasks :: "string list \<Rightarrow> string list \<Rightarrow> task_cache \<Rightarrow> TaskExecResult list" where
  "ListTasks ks keys c =
     (let list = cache_List ks c
      in if length keys = 0 then list
         else concat (map (\<lambda>item. map (\<lambda>_. item) (filter (\<lambda>key. res_TaskKey item = key) keys)) list))"

definition ListTaskKeys :: "string list \<Rightarrow> task_cache \<Rightarrow> string list" where
  "ListTaskKeys ks c = map res_TaskKey (cache_List ks c)"

text \<open>The loop of \<open>refreshCache\<close>: the tasks that it sends to the channel.\<close>

definition refreshCache :: "TaskExecResult list result \<Rightarrow> task_cache \<Rightarrow> TaskExecResult list" where
  "refreshCache loaded c =
     (case loaded of
        Inl err \<Rightarrow> []
      | Inr newTasks \<Rightarrow>
          filter (\<lambda>new. case cache_Get (res_TaskKey new) c of
                           None \<Rightarrow> True
                         | Some old \<Rightarrow> res_Status new \<noteq> res_Status old) newTasks)"

text \<open>\<open>processTask\<close>: the new cache, and the argument of the callback when one is set.\<close>

definition processTask ::
    "bool \<Rightarrow> time \<Rightarrow> TaskExecResult option \<Rightarrow> task_cache \<Rightarrow> TaskExecResult option \<times> task_cache" where
  "processTask afterChange_set now ch c =
     (case ch of
        None \<Rightarrow> (None, c)
      | Some t \<Rightarrow> (if afterChange_set then Some t else None, Set now (res_TaskKey t) t c))"

fun process_all :: "time \<Rightarrow> TaskExecResult list \<Rightarrow> task_cache \<Rightarrow> task_cache" where
  "process_all now [] c = c"
| "process_all now (t # ts) c = process_all now ts (snd (processTask True now (Some t) c))"

section \<open>Well-formed caches\<close>

text \<open>Every entry is stored under its own task key.\<close>

definition cache_ok :: "task_cache \<Rightarrow> bool" where
  "cache_ok c \<longleftrightarrow> times_ok c \<and> (\<forall>k r. items c k = Some r \<longrightarrow> res_TaskKey r = k)"

lemma process_all_put_all:
  "process_all now ts c = put_all Set res_TaskKey (map (Pair now) ts) c"
  by (induction now ts c rule: process_all.induct) (auto simp: processTask_def)

lemma cache_ok_iff:
  "cache_ok c \<longleftrightarrow> times_ok c \<and> (\<forall>k r. cache_Get k c = Some r \<longrightarrow> res_TaskKey r = k)"
  by (simp add: cache_ok_def cache_Get_def)

lemma cache_ok_put_all:
  assumes "cache_ok c"
  shows "cache_ok (put_all Set res_TaskKey vs c)"
proof -
  have "\<And>k r. cache_Get k c = Some r \<Longrightarrow> res_TaskKey r = k" and t: "times_ok c"
    using assms by (simp_all add: cache_ok_iff)
  from store.coherent_put_all [of c res_TaskKey, OF this(1)] store.invar_put_all [OF t]
  show ?thesis by (simp add: cache_ok_iff)
qed

lemma cache_ok_processTask: "cache_ok c \<Longrightarrow> cache_ok (snd (processTask b now ch c))"
  by (auto simp: processTask_def cache_ok_def Set_def times_ok_def split: option.splits)

lemma cache_ok_initCache: "initCache now loaded = Ok c \<Longrightarrow> cache_ok c"
proof -
  have "cache_ok NewThreadSafeMap"
    by (simp add: cache_ok_def NewThreadSafeMap_def times_ok_def)
  then show "initCache now loaded = Ok c \<Longrightarrow> cache_ok c"
    by (auto simp: initCache_def cache_ok_put_all split: sum.splits)
qed

lemma cache_ok_recycle:
  assumes "cache_ok c"
  shows "cache_ok (recycle_loop condition es c)"
proof -
  have "dom (items (recycle_loop condition es c)) \<subseteq> dom (items c)"
    by (auto simp: recycle_loop_items split: if_splits)
  then have "finite (dom (items (recycle_loop condition es c)))"
    using assms by (auto simp: cache_ok_def times_ok_def intro: finite_subset)
  then show ?thesis
    using assms by (auto simp: cache_ok_def times_ok_def recycle_loop_items recycle_loop_times
        split: if_splits)
qed

lemma List_ok:
  assumes "cache_ok c" and "range_order ks (items c)"
  shows "distinct (map res_TaskKey (cache_List ks c))"
    and "r \<in> set (cache_List ks c) \<longleftrightarrow> items c (res_TaskKey r) = Some r"
  using store.coherent_all [OF assms(2), of res_TaskKey] assms(1)
  by (auto simp: cache_ok_def cache_Get_def)

lemma ListTasks_set:
  assumes "cache_ok c" and "range_order ks (items c)" and "keys \<noteq> []"
  shows "set (ListTasks ks keys c) = {r. res_TaskKey r \<in> set keys \<and> items c (res_TaskKey r) = Some r}"
  using List_ok(2) [OF assms(1,2)] assms(3) by (auto simp: ListTasks_def Let_def)

lemma ListTasks_distinct:
  assumes "cache_ok c" and "range_order ks (items c)" and "keys \<noteq> []" and "distinct keys"
  shows "distinct (map res_TaskKey (ListTasks ks keys c))"
proof -
  have one: "map (\<lambda>_. r) (filter (\<lambda>key. res_TaskKey r = key) keys) =
      (if res_TaskKey r \<in> set keys then [r] else [])" for r :: TaskExecResult
    using assms(4) by (induction keys) auto
  have "concat (map (\<lambda>r. if P r then [r] else []) rs) = filter P rs"
    for P and rs :: "TaskExecResult list"
    by (induction rs) auto
  then have "ListTasks ks keys c = filter (\<lambda>r. res_TaskKey r \<in> set keys) (cache_List ks c)"
    using assms(3) by (simp add: ListTasks_def Let_def one)
  with List_ok(1) [OF assms(1,2)] show ?thesis by (simp add: distinct_map_filter_sub)
qed

lemma ListTasks_all: "ListTasks ks [] c = cache_List ks c"
  by (simp add: ListTasks_def)

lemma ListTaskKeys_set:
  assumes ok: "cache_ok c" and order: "range_order ks (items c)"
  shows "set (ListTaskKeys ks c) = dom (items c)"
proof -
  have "set (cache_List ks c) = {r. items c (res_TaskKey r) = Some r}"
    using List_ok(2) [OF assms] by blast
  then have "set (ListTaskKeys ks c) = res_TaskKey ` {r. items c (res_TaskKey r) = Some r}"
    by (simp add: ListTaskKeys_def)
  also have "\<dots> = dom (items c)"
  proof (rule equalityI; rule subsetI)
    fix k assume "k \<in> dom (items c)"
    then obtain r where "items c k = Some r" by blast
    moreover from this ok have "res_TaskKey r = k" by (simp add: cache_ok_def)
    ultimately show "k \<in> res_TaskKey ` {r. items c (res_TaskKey r) = Some r}" by blast
  qed auto
  finally show ?thesis .
qed

lemma ListTaskKeys_distinct:
  "cache_ok c \<Longrightarrow> range_order ks (items c) \<Longrightarrow> distinct (ListTaskKeys ks c)"
  by (simp add: ListTaskKeys_def List_ok)

section \<open>Properties\<close>

text \<open>
  \<open>ListTasks\<close> with a non-empty list of keys returns exactly the cached tasks with these keys,
  each once if no key is repeated; with the empty list it returns every cached task.
\<close>

theorem ListTasks_spec:
  assumes "cache_ok c" and "range_order ks (items c)" and "distinct keys"
  shows "distinct (map res_TaskKey (ListTasks ks keys c)) \<and>
    set (ListTasks ks keys c) = {r. items c (res_TaskKey r) = Some r \<and>
      (keys = [] \<or> res_TaskKey r \<in> set keys)}"
proof (cases "keys = []")
  case True
  with List_ok [OF assms(1,2)] show ?thesis by (auto simp: ListTasks_all)
next
  case False
  with ListTasks_set [OF assms(1,2) False] ListTasks_distinct [OF assms(1,2) False assms(3)]
  show ?thesis by auto
qed

text \<open>
  A resync brings the cache up to date with the executors.  When every task that
  \<open>refreshCache\<close> sends has been processed, the cached state of every task that the executors
  list is the listed one; the entries of tasks that they do not list, vanished ones included,
  stay as they were.
\<close>

theorem refresh_converges:
  assumes "cache_ok c" and "distinct (map res_TaskKey newTasks)"
  shows "(\<forall>t\<in>set newTasks. \<exists>r. items (process_all now (refreshCache (Ok newTasks) c) c) (res_TaskKey t)
            = Some r \<and> res_Status r = res_Status t) \<and>
    (\<forall>k. k \<notin> res_TaskKey ` set newTasks \<longrightarrow>
       items (process_all now (refreshCache (Ok newTasks) c) c) k = items c k)"
proof -
  let ?sent = "refreshCache (Ok newTasks) c"
  let ?m = "map_of (rev (map (\<lambda>v. (res_TaskKey v, v)) ?sent))"
  have look: "items (process_all now ?sent c) k =
      (case ?m k of None \<Rightarrow> items c k | Some v \<Rightarrow> Some v)" for k
    using store.look_put_all [of k res_TaskKey "map (Pair now) ?sent" c]
    by (simp add: process_all_put_all cache_Get_def comp_def cong: option.case_cong)
  have sub: "set ?sent \<subseteq> set newTasks" by (auto simp: refreshCache_def)
  have "distinct (map res_TaskKey ?sent)"
    using assms(2) by (simp add: refreshCache_def distinct_map_filter_sub)
  then have d: "distinct (map fst (rev (map (\<lambda>v. (res_TaskKey v, v)) ?sent)))"
    by (simp add: rev_map [symmetric] comp_def)
  have "\<exists>r. items (process_all now ?sent c) (res_TaskKey t) = Some r \<and> res_Status r = res_Status t"
    if t: "t \<in> set newTasks" for t
  proof (cases "t \<in> set ?sent")
    case True
    then have "?m (res_TaskKey t) = Some t" using d by (auto intro: map_of_is_SomeI)
    with look show ?thesis by simp
  next
    case False
    then obtain old where "items c (res_TaskKey t) = Some old" "res_Status old = res_Status t"
      using t by (auto simp: refreshCache_def cache_Get_def split: option.splits)
    moreover have "?m (res_TaskKey t) = None"
      using False t sub assms(2) inj_onD [of res_TaskKey "set newTasks" t]
      by (auto simp: map_of_eq_None_iff distinct_map)
    ultimately show ?thesis using look by simp
  qed
  moreover have "items (process_all now ?sent c) k = items c k"
    if "k \<notin> res_TaskKey ` set newTasks" for k
  proof -
    have "?m k = None" using that sub by (auto simp: map_of_eq_None_iff)
    with look show ?thesis by simp
  qed
  ultimately show ?thesis by blast
qed

text \<open>
  A round of the recycling loop that nothing interrupts removes exactly the tasks that are in
  a final state and were set more than a minute before; every other entry stays.
\<close>

theorem recycle_round_spec:
  assumes "cache_ok c" and "range_order ks (items c)"
  shows "items (recycle_round (\<lambda>t. recycleCondition (Some t)) ks now c) k =
    (case items c k of
       None \<Rightarrow> None
     | Some t \<Rightarrow> if IsFinalStatus (res_Status t) \<and> now k - the (setTime c k) > minute
                 then None else Some t)"
  using assms
  by (auto simp: recycle_round_def recycle_loop_items in_snapshot recycleCondition_def cache_ok_def
      times_ok_def split: option.splits)

text \<open>
  The recycling loop may remove a fresh entry.  When a task whose cached state was final and
  old is set again between the snapshot and the deletions, the new state is deleted.
\<close>

theorem recycle_deletes_fresh_entry:
  assumes "range_order ks (items c)" and "items c k = Some t" and "setTime c k = Some t0"
    and "recycleCondition (Some t) (now k - t0)"
  shows "items (recycle_loop (\<lambda>t. recycleCondition (Some t))
      (go_range ks (listWithSetDurition now c)) (Set now' k fresh c)) k = None"
  using assms in_snapshot [OF assms(1), of k t "now k - t0" now]
  by (auto simp: recycle_loop_items)

section \<open>Witnesses\<close>

definition demo_result :: "string \<Rightarrow> TaskStatus \<Rightarrow> TaskExecResult" where
  "demo_result key st = \<lparr>res_TaskKey = key, res_TaskType = ''goroutine'', res_Status = st, res_Msg = []\<rparr>"

definition demo_cache :: task_cache where
  "demo_cache = Set 5 ''b'' (demo_result ''b'' TaskStatusSuccess)
     (Set 3 ''a'' (demo_result ''a'' TaskStatusRunning) NewThreadSafeMap)"

lemma demo_result_simps [simp]:
  "res_TaskKey (demo_result k st) = k" "res_Status (demo_result k st) = st"
  by (simp_all add: demo_result_def)

lemma demo_cache_fields:
  "items demo_cache = [''a'' \<mapsto> demo_result ''a'' TaskStatusRunning,
     ''b'' \<mapsto> demo_result ''b'' TaskStatusSuccess]"
  "setTime demo_cache = [''a'' \<mapsto> 3, ''b'' \<mapsto> 5]"
  by (simp_all add: demo_cache_def Set_def NewThreadSafeMap_def)

lemma demo_cache_ok: "cache_ok demo_cache"
  by (auto simp: cache_ok_def times_ok_def demo_cache_fields)

lemma demo_order: "range_order [''b'', ''a''] (items demo_cache)"
  by (auto simp: range_order_def demo_cache_fields)

theorem ListTasks_spec_witness:
  "set (ListTasks [''b'', ''a''] [''a''] demo_cache) = {demo_result ''a'' TaskStatusRunning}"
proof -
  have "{r. items demo_cache (res_TaskKey r) = Some r \<and> res_TaskKey r = ''a''} =
      {demo_result ''a'' TaskStatusRunning}"
    by (auto simp: demo_cache_fields)
  with ListTasks_spec [OF demo_cache_ok demo_order, of "[''a'']"] show ?thesis by simp
qed

theorem refresh_converges_witness:
  "\<exists>r. items (process_all 9 (refreshCache (Ok [demo_result ''a'' TaskStatusPaused]) demo_cache) demo_cache)
     ''a'' = Some r \<and> res_Status r = TaskStatusPaused"
  using refresh_converges [OF demo_cache_ok, of "[demo_result ''a'' TaskStatusPaused]" 9] by simp

theorem recycle_round_spec_witness:
  "items (recycle_round (\<lambda>t. recycleCondition (Some t)) [''b'', ''a''] (\<lambda>_. 5 + 2 * minute) demo_cache) ''b'' = None"
  using recycle_round_spec [OF demo_cache_ok demo_order, of "\<lambda>_. 5 + 2 * minute" "''b''"]
  by (simp add: demo_cache_fields minute_def second_def)

theorem recycle_deletes_fresh_entry_witness:
  "items (recycle_loop (\<lambda>t. recycleCondition (Some t))
      (go_range [''b'', ''a''] (listWithSetDurition (\<lambda>_. 5 + 2 * minute) demo_cache))
      (Set 99 ''b'' (demo_result ''b'' TaskStatusRunning) demo_cache)) ''b'' = None"
  by (rule recycle_deletes_fresh_entry [OF demo_order, of _ "demo_result ''b'' TaskStatusSuccess" 5])
    (simp_all add: demo_cache_fields recycleCondition_def minute_def second_def)

end
