(* ===== verification/Components.thy ===== *)
theory Components
  imports TaskModel
begin

text \<open>
  The interfaces of \<^verbatim>\<open>core/components\<close> behind which code outside the repository stands: service
  discovery (\<^verbatim>\<open>discover\<close>), leader election (\<^verbatim>\<open>election\<close>) and the task repository (\<^verbatim>\<open>taskrepo\<close>).  A
  value of an interface type is the record of its methods; what the methods change is a state
  that they take and return, of a type that stays a parameter.
\<close>

section \<open>Instances\<close>

text \<open>
  The metadata of an instance is a Go map, a reference: copying an \<open>Instance\<close> shares it, and
  writing through one copy changes what all copies read.  The maps live in a store; \<open>None\<close> is
  the nil map, which reads as empty.
\<close>

type_synonym addr = nat
type_synonym meta_store = "addr \<Rightarrow> (string \<rightharpoonup> string)"

record Instance =
  InstanceId :: string
  Ip :: string
  Port :: "64 word"
  Healthy :: bool
  Enable :: bool
  Metadata :: "addr option"

definition metadata :: "meta_store \<Rightarrow> Instance \<Rightarrow> (string \<rightharpoonup> string)" where
  "metadata h i = (case Metadata i of None \<Rightarrow> Map.empty | Some a \<Rightarrow> h a)"

definition ID :: "meta_store \<Rightarrow> Instance \<Rightarrow> string" where
  "ID h i =
     (if dom (metadata h i) \<noteq> {} \<and> go_get (metadata h i) ''worker_id'' \<noteq> []
      then go_get (metadata h i) ''worker_id'' else InstanceId i)"

text \<open>Writing one key; a write to the nil map panics.\<close>

definition meta_write :: "Instance \<Rightarrow> string \<Rightarrow> string \<Rightarrow> meta_store \<Rightarrow> meta_store run" where
  "meta_write i k v h =
     (case Metadata i of None \<Rightarrow> Panic | Some a \<Rightarrow> Return (h(a := (h a)(k \<mapsto> v))))"

lemma ID_alt:
  "ID h i = (if go_get (metadata h i) ''worker_id'' \<noteq> [] then go_get (metadata h i) ''worker_id''
             else InstanceId i)"
  by (auto simp: ID_def go_get_def split: option.splits)

section \<open>Election\<close>

record LeaderElection =
  Anchor :: int
  MasterID :: string
  IP :: string
  LastSeenActive :: time

record Elector =
  Leader :: "LeaderElection result"
  AmILeader :: "LeaderElection \<Rightarrow> bool"

section \<open>The task repository\<close>

text \<open>
  The infomer sees only the methods of its own interface \<open>recorder\<close>
  (\<^verbatim>\<open>core/worker/infomer/dependency.go\<close>), which the interface of the repository extends.  What arrives
  on the channel of \<open>WatchRunnableTasks\<close> is a step of the goroutines that read it.
\<close>

record 'r recorder =
  UpdateTask :: "Task \<Rightarrow> 'r \<Rightarrow> error option \<times> 'r"
  BatchGetTask :: "string list \<Rightarrow> 'r \<Rightarrow> Task list result"
  ListRunnableTasks :: "string \<Rightarrow> 'r \<Rightarrow> string list result"

record 'r TaskRepo = "'r recorder" +
  CreateTask :: "Task \<Rightarrow> 'r \<Rightarrow> error option \<times> 'r"
  GetTask :: "string \<Rightarrow> 'r \<Rightarrow> Task result"
  ListTask :: "TaskFilter \<Rightarrow> 'r \<Rightarrow> Task list result"

text \<open>
  A repository for the witnesses: the list of the tasks, updated in the fields that are set, and
  the log of the updates it was sent.
\<close>

record mem_repo =
  rows :: "Task list"
  updates :: "Task list"

definition merge_task :: "Task \<Rightarrow> Task \<Rightarrow> Task" where
  "merge_task u t =
     (let t1 = (if task_Status u = [] then t else t\<lparr>task_Status := task_Status u\<rparr>);
          t2 = (if task_WantRunStatus u = [] then t1
                else t1\<lparr>task_WantRunStatus := task_WantRunStatus u\<rparr>);
          t3 = (if task_WorkerID u = [] then t2 else t2\<lparr>task_WorkerID := task_WorkerID u\<rparr>)
      in if task_Msg u = [] then t3 else t3\<lparr>task_Msg := task_Msg u\<rparr>)"

definition mem_TaskRepo :: "mem_repo TaskRepo" where
  "mem_TaskRepo = \<lparr>
     UpdateTask = (\<lambda>u r. (None, r\<lparr>rows := map (\<lambda>t. if task_TaskKey t = task_TaskKey u
         then merge_task u t else t) (rows r), updates := updates r @ [u]\<rparr>)),
     BatchGetTask = (\<lambda>ks r. Ok (filter (\<lambda>t. task_TaskKey t \<in> set ks) (rows r))),
     ListRunnableTasks = (\<lambda>w r. Ok (map task_TaskKey (filter (\<lambda>t. \<not> IsFinalStatus (task_Status t) \<and>
         (w = [] \<or> task_WorkerID t = w)) (rows r)))),
     CreateTask = (\<lambda>t r. (None, r\<lparr>rows := rows r @ [t]\<rparr>)),
     GetTask = (\<lambda>k r. case find (\<lambda>t. task_TaskKey t = k) (rows r) of
         None \<Rightarrow> Err (External ''not found'') | Some t \<Rightarrow> Ok t),
     ListTask = (\<lambda>f r. Ok (filter (\<lambda>t. task_BizID t \<in> set (filter_BizIDs f)) (rows r)))\<rparr>"

end
