(* ===== verification/Float64.thy ===== *)
theory Float64
  imports Prelude Complex_Main
begin

text \<open>
  What the code uses of Go's \<open>float64\<close> and of \<^verbatim>\<open>strconv\<close>: IEEE 754 binary64 values, sum, product,
  quotient and conversion with rounding to nearest even, the comparisons, \<open>ParseFloat(s, 64)\<close> and
  \<open>FormatFloat(x, 'f', 2, 64)\<close>.  Everything is integer arithmetic, so it evaluates.  The two
  zeros are one value: no operation below tells them apart on the inputs that the code gives it.
\<close>

text \<open>\<open>Fin m e\<close> is the number \<open>m * 2 ^ e\<close>; \<open>Inf True\<close> is minus infinity.\<close>

datatype float64 = NaN | Inf bool | Fin int int

function ilog2 :: "int \<Rightarrow> int" where
  "ilog2 n = (if n < 2 then 0 else 1 + ilog2 (n div 2))"
  by pat_completeness auto
termination
  by (relation "measure nat") auto

declare ilog2.simps [simp del]

definition pow2 :: "int \<Rightarrow> int" where
  "pow2 e = 2 ^ nat e" \<comment> \<open>1 for a negative exponent\<close>

text \<open>\<open>div_even n d\<close>: the integer nearest to \<open>n / d\<close>, the even one of two, for \<open>0 \<le> n\<close> and \<open>0 < d\<close>.\<close>

definition div_even :: "int \<Rightarrow> int \<Rightarrow> int" where
  "div_even n d =
     (let m = n div d; r = n mod d
      in if 2 * r > d \<or> (2 * r = d \<and> odd m) then m + 1 else m)"

text \<open>The float nearest to \<open>p / q\<close> for \<open>0 \<le> p\<close> and \<open>0 < q\<close>; \<open>neg\<close> is the sign of the result.\<close>

definition round_ratio :: "bool \<Rightarrow> int \<Rightarrow> int \<Rightarrow> float64" where
  "round_ratio neg p q =
     (if p = 0 then Fin 0 0
      else let k = ilog2 p - ilog2 q;
               small = p * pow2 (- k) < q * pow2 k;
               e = max (-1074) (if small then k - 53 else k - 52);
               m = div_even (p * pow2 (- e)) (q * pow2 e)
           in if e > 971 \<or> (e = 971 \<and> m \<ge> 2 ^ 53) then Inf neg
              else Fin (if neg then - m else m) e)"

definition round_signed :: "int \<Rightarrow> int \<Rightarrow> float64" where
  "round_signed p q = round_ratio (p < 0) \<bar>p\<bar> q"

definition float_of_int :: "int \<Rightarrow> float64" where
  "float_of_int n = round_signed n 1"

text \<open>A constant such as \<open>0.05\<close> of the source, \<open>p / q\<close>.\<close>

definition float_const :: "int \<Rightarrow> int \<Rightarrow> float64" where
  "float_const p q = round_signed p q"

fun float_add :: "float64 \<Rightarrow> float64 \<Rightarrow> float64" where
  "float_add (Fin m e) (Fin n f) =
     (let g = min e f
      in round_signed ((m * pow2 (e - g) + n * pow2 (f - g)) * pow2 g) (pow2 (- g)))"
| "float_add (Inf s) (Fin _ _) = Inf s"
| "float_add (Fin _ _) (Inf s) = Inf s"
| "float_add (Inf s) (Inf t) = (if s = t then Inf s else NaN)"
| "float_add _ _ = NaN"

fun float_mult :: "float64 \<Rightarrow> float64 \<Rightarrow> float64" where
  "float_mult (Fin m e) (Fin n f) = round_signed (m * n * pow2 (e + f)) (pow2 (- (e + f)))"
| "float_mult (Inf s) (Fin n _) = (if n = 0 then NaN else Inf (s \<noteq> (n < 0)))"
| "float_mult (Fin n _) (Inf s) = (if n = 0 then NaN else Inf (s \<noteq> (n < 0)))"
| "float_mult (Inf s) (Inf t) = Inf (s \<noteq> t)"
| "float_mult _ _ = NaN"

fun float_div :: "float64 \<Rightarrow> float64 \<Rightarrow> float64" where
  "float_div (Fin m e) (Fin n f) =
     (if n = 0 then (if m = 0 then NaN else Inf (m < 0))
      else round_signed (sgn n * m * pow2 (e - f)) (\<bar>n\<bar> * pow2 (f - e)))"
| "float_div (Inf s) (Fin n _) = Inf (s \<noteq> (n < 0))"
| "float_div (Fin _ _) (Inf _) = Fin 0 0"
| "float_div _ _ = NaN"

fun float_less :: "float64 \<Rightarrow> float64 \<Rightarrow> bool" where
  "float_less (Fin m e) (Fin n f) = (m * pow2 (e - min e f) < n * pow2 (f - min e f))"
| "float_less (Fin _ _) (Inf s) = (\<not> s)"
| "float_less (Inf s) (Fin _ _) = s"
| "float_less (Inf s) (Inf t) = (s \<and> \<not> t)"
| "float_less _ _ = False"

fun float_is_zero :: "float64 \<Rightarrow> bool" where
  "float_is_zero (Fin m _) = (m = 0)"
| "float_is_zero _ = False"

text \<open>\<open>time.Duration(x)\<close>: truncation towards zero; what the hardware does out of range is not
  used.\<close>

fun float_trunc :: "float64 \<Rightarrow> int" where
  "float_trunc (Fin m e) =
     (if 0 \<le> e then m * pow2 e else sgn m * (\<bar>m\<bar> div pow2 (- e)))"
| "float_trunc _ = 0"

section \<open>Order\<close>

text \<open>
  The comparison is the order of the represented numbers, so on values that are not NaN it is a
  strict weak order.
\<close>

fun float_val :: "float64 \<Rightarrow> rat" where
  "float_val (Fin m e) = of_int m * (if 0 \<le> e then 2 ^ nat e else 1 / 2 ^ nat (- e))"
| "float_val _ = 0"

fun float_rank :: "float64 \<Rightarrow> int" where
  "float_rank (Inf s) = (if s then -1 else 1)"
| "float_rank _ = 0"

lemma scale_pow2: "g \<le> e \<Longrightarrow>
  (if 0 \<le> e then 2 ^ nat e else 1 / 2 ^ nat (- e) :: rat) =
     of_int (pow2 (e - g)) * (if 0 \<le> g then 2 ^ nat g else 1 / 2 ^ nat (- g))"
proof -
  assume ge: "g \<le> e"
  have eq: "(if 0 \<le> e then 2 ^ nat e else 1 / 2 ^ nat (- e) :: rat) = 2 powi e" for e
    by (simp add: power_int_def power_one_over inverse_eq_divide)
  have "of_int (pow2 (e - g)) = (2 powi (e - g) :: rat)"
    using ge by (simp add: pow2_def power_int_def)
  then show ?thesis by (simp add: eq power_int_add [symmetric])
qed

lemma float_less_Fin: "float_less (Fin m e) (Fin n f) \<longleftrightarrow> float_val (Fin m e) < float_val (Fin n f)"
proof -
  let ?g = "min e f"
  let ?s = "if 0 \<le> ?g then 2 ^ nat ?g else 1 / 2 ^ nat (- ?g) :: rat"
  have s: "0 < ?s" by simp
  have "float_val (Fin m e) = of_int (m * pow2 (e - ?g)) * ?s"
    "float_val (Fin n f) = of_int (n * pow2 (f - ?g)) * ?s"
    by (simp_all only: float_val.simps scale_pow2 [of ?g e] scale_pow2 [of ?g f] min.cobounded1
        min.cobounded2 of_int_mult mult.assoc)
  then have "float_val (Fin m e) < float_val (Fin n f) \<longleftrightarrow>
      (of_int (m * pow2 (e - ?g)) :: rat) < of_int (n * pow2 (f - ?g))"
    using s by (simp only: mult_less_cancel_right_pos)
  then show ?thesis by (simp only: of_int_less_iff float_less.simps)
qed

lemma float_less_iff:
  "float_less x y \<longleftrightarrow> x \<noteq> NaN \<and> y \<noteq> NaN \<and>
     (float_rank x < float_rank y \<or> (float_rank x = float_rank y \<and> float_val x < float_val y))"
  by (cases x; cases y) (auto simp: float_less_Fin simp del: float_less.simps(1) float_val.simps(1))

lemma float_less_irrefl [simp]: "\<not> float_less x x"
  by (simp add: float_less_iff)

lemma float_less_trans: "float_less x y \<Longrightarrow> float_less y z \<Longrightarrow> float_less x z"
  by (auto simp: float_less_iff)

lemma float_not_less_trans:
  "y \<noteq> NaN \<Longrightarrow> \<not> float_less x y \<Longrightarrow> \<not> float_less y z \<Longrightarrow> \<not> float_less x z"
  by (auto simp: float_less_iff)

end
