(* ===== verification/Retry.thy ===== *)
theory Retry
  imports Float64
begin

text \<open>
  \<^verbatim>\<open>pkg/util/wait/wait.go\<close> and \<^verbatim>\<open>pkg/util/retry/retry.go\<close>: exponential backoff and the retry loop.
  The function that is retried has effects, so it takes a state and returns a new one; the
  pauses are returned as the list of durations passed to \<open>time.Sleep\<close>.  \<open>rnd n\<close> is the number
  that \<open>rand.Float64()\<close> draws in the iteration that starts with \<open>Steps = n\<close>.
\<close>

record Backoff =
  Duration :: time
  Factor :: float64
  BackoffJitter :: float64
  Steps :: int
  Cap :: time

definition Jitter :: "float64 \<Rightarrow> time \<Rightarrow> float64 \<Rightarrow> time" where
  "Jitter r duration maxFactor =
     (let mf = (if maxFactor \<noteq> NaN \<and> \<not> float_less (Fin 0 0) maxFactor then float_of_int 1
                else maxFactor)
      in duration + float_trunc (float_mult (float_mult r mf) (float_of_int duration)))"

definition delay ::
    "float64 \<Rightarrow> int \<Rightarrow> time \<Rightarrow> time \<Rightarrow> float64 \<Rightarrow> float64 \<Rightarrow> time \<times> time \<times> int" where
  "delay r steps duration cap factor jitter =
     (if steps < 1 then
        (if float_less (Fin 0 0) jitter then (Jitter r duration jitter, duration, 0)
         else (duration, duration, 0))
      else
        (let steps1 = steps - 1;
             (next', steps2) =
               (if \<not> float_is_zero factor then
                  (let n = float_trunc (float_mult (float_of_int duration) factor)
                   in if cap > 0 \<and> n > cap then (cap, 0) else (n, steps1))
                else (duration, steps1));
             duration' = (if float_less (Fin 0 0) jitter then Jitter r duration jitter else duration)
         in (duration', next', steps2)))"

definition Step :: "(int \<Rightarrow> float64) \<Rightarrow> Backoff \<Rightarrow> time \<times> Backoff" where
  "Step rnd b =
     (let (nextDuration, d, s) =
        delay (rnd (Steps b)) (Steps b) (Duration b) (Cap b) (Factor b) (BackoffJitter b)
      in (nextDuration, b\<lparr>Duration := d, Steps := s\<rparr>))"

lemma Step_Steps:
  "0 < Steps b \<Longrightarrow> Steps (snd (Step rnd b)) = Steps b - 1 \<or> (0 < Cap b \<and> Steps (snd (Step rnd b)) = 0)"
  by (auto simp: Step_def delay_def Let_def split: prod.splits if_splits)

lemma Step_Cap [simp]: "Cap (snd (Step rnd b)) = Cap b"
  by (simp add: Step_def split: prod.splits)

text \<open>The loop; a condition returns whether it holds and an error that aborts the loop.\<close>

function ExponentialBackoff ::
    "(int \<Rightarrow> float64) \<Rightarrow> ('s \<Rightarrow> (bool \<times> error option) \<times> 's) \<Rightarrow> Backoff \<Rightarrow> 's \<Rightarrow>
     error option \<times> time list \<times> 's" where
  "ExponentialBackoff rnd condition backoff s =
     (if Steps backoff > 0 then
        (let ((ok, err), s1) = condition s
         in if err \<noteq> None \<or> ok then (err, [], s1)
            else if Steps backoff = 1 then (Some WaitTimeout, [], s1)
            else let (e, ds, s2) = ExponentialBackoff rnd condition (snd (Step rnd backoff)) s1
                 in (e, fst (Step rnd backoff) # ds, s2))
      else (Some WaitTimeout, [], s))"
  by pat_completeness auto
termination
proof (relation "measure (\<lambda>(rnd, c, b, s). nat (Steps b))", simp, goal_cases)
  case (1 rnd c b)
  then show ?case using Step_Steps [of b rnd] by auto
qed

declare ExponentialBackoff.simps [simp del]

text \<open>\<open>OnError\<close>: the closure keeps the last retriable error beside the state.\<close>

definition OnError_condition ::
    "(error \<Rightarrow> bool) \<Rightarrow> ('s \<Rightarrow> error option \<times> 's) \<Rightarrow> 's \<times> error option \<Rightarrow>
     (bool \<times> error option) \<times> 's \<times> error option" where
  "OnError_condition retriable fn sl =
     (let (err, s1) = fn (fst sl)
      in case err of
           None \<Rightarrow> ((True, None), (s1, snd sl))
         | Some e \<Rightarrow> if retriable e then ((False, None), (s1, Some e))
                     else ((False, Some e), (s1, snd sl)))"

definition OnError ::
    "(int \<Rightarrow> float64) \<Rightarrow> Backoff \<Rightarrow> (error \<Rightarrow> bool) \<Rightarrow> ('s \<Rightarrow> error option \<times> 's) \<Rightarrow> 's \<Rightarrow>
     error option \<times> time list \<times> 's" where
  "OnError rnd backoff retriable fn s =
     (let (err, ds, (s1, lastErr)) =
        ExponentialBackoff rnd (OnError_condition retriable fn) backoff (s, None)
      in (if err = Some WaitTimeout then lastErr else err, ds, s1))"

definition DefaultBackoff :: Backoff where
  "DefaultBackoff = \<lparr>Duration = 10 * millisecond, Factor = float_of_int 5,
     BackoffJitter = float_const 1 10, Steps = 4, Cap = 0\<rparr>"

definition DefaultRetry :: Backoff where
  "DefaultRetry = \<lparr>Duration = 10 * millisecond, Factor = float_of_int 1,
     BackoffJitter = float_const 1 10, Steps = 5, Cap = 0\<rparr>"

definition retry_Do ::
    "(int \<Rightarrow> float64) \<Rightarrow> ('s \<Rightarrow> error option \<times> 's) \<Rightarrow> 's \<Rightarrow> error option \<times> time list \<times> 's" where
  "retry_Do rnd fn s = OnError rnd DefaultBackoff (\<lambda>_. True) fn s"

section \<open>Reference: at most \<open>n\<close> attempts\<close>

fun attempts :: "nat \<Rightarrow> ('s \<Rightarrow> error option \<times> 's) \<Rightarrow> 's \<Rightarrow> error option \<times> 's" where
  "attempts 0 fn s = (None, s)"
| "attempts (Suc n) fn s =
     (let (err, s1) = fn s in if err = None \<or> n = 0 then (err, s1) else attempts n fn s1)"

lemma ExponentialBackoff_sleeps:
  "length (fst (snd (ExponentialBackoff rnd c b s))) \<le> nat (Steps b - 1)"
proof (induction rnd c b s rule: ExponentialBackoff.induct)
  case (1 rnd c b s)
  show ?case
  proof (cases "Steps b > 1 \<and> fst (fst (c s)) = False \<and> snd (fst (c s)) = None")
    case True
    obtain s1 where s1: "c s = ((False, None), s1)" using True by (cases "c s") auto
    have "length (fst (snd (ExponentialBackoff rnd c (snd (Step rnd b)) s1))) \<le>
        nat (Steps (snd (Step rnd b)) - 1)"
      using "1.IH" [OF _ s1 [symmetric] refl] True by fastforce
    moreover have "ExponentialBackoff rnd c b s =
        (let (e, ds, s2) = ExponentialBackoff rnd c (snd (Step rnd b)) s1
         in (e, fst (Step rnd b) # ds, s2))"
      using True by (subst ExponentialBackoff.simps) (simp add: s1)
    ultimately show ?thesis
      using Step_Steps [of b rnd] True by (auto simp: Let_def split: prod.splits)
  next
    case False
    then show ?thesis
      by (subst ExponentialBackoff.simps) (auto split: prod.splits)
  qed
qed

text \<open>
  Without a cap, and when every error is retriable, the loop makes exactly as many attempts as
  there are steps.
\<close>

abbreviation retry_condition ::
    "('s \<Rightarrow> error option \<times> 's) \<Rightarrow> 's \<times> error option \<Rightarrow> (bool \<times> error option) \<times> 's \<times> error option" where
  "retry_condition \<equiv> OnError_condition (\<lambda>_. True)"

lemma retry_condition_simps:
  "fn s = (None, s1) \<Longrightarrow> retry_condition fn (s, l) = ((True, None), (s1, l))"
  "fn s = (Some e, s1) \<Longrightarrow> retry_condition fn (s, l) = ((False, None), (s1, Some e))"
  by (simp_all add: OnError_condition_def)

lemma ExponentialBackoff_attempts:
  assumes "Cap b = 0" and "0 < Steps b"
  shows "\<exists>err ds last. ExponentialBackoff rnd (retry_condition fn) b (s, l) =
      (err, ds, (snd (attempts (nat (Steps b)) fn s), last)) \<and>
    (if fst (attempts (nat (Steps b)) fn s) = None then err = None
     else err = Some WaitTimeout \<and> last = fst (attempts (nat (Steps b)) fn s))"
  using assms
proof (induction "nat (Steps b)" arbitrary: b s l)
  case 0
  then show ?case by simp
next
  case (Suc n)
  obtain e s1 where fn: "fn s = (e, s1)" by fastforce
  let ?b = "snd (Step rnd b)"
  have b': "Steps ?b = Steps b - 1" "Cap ?b = 0"
    using Step_Steps [of b rnd] Suc.prems by auto
  show ?case
  proof (cases "e = None \<or> n = 0")
    case True
    have "n = 0 \<Longrightarrow> Steps b = 1" using Suc.hyps(2) by simp
    with True Suc.prems show ?thesis
      by (subst ExponentialBackoff.simps)
        (cases e, auto simp: retry_condition_simps fn Suc.hyps(2) [symmetric])
  next
    case False
    then obtain x where x: "e = Some x" "n \<noteq> 0" by auto
    have "n = nat (Steps ?b)" "0 < Steps ?b" using Suc.hyps(2) x b' by auto
    from Suc.hyps(1) [OF this(1) b'(2) this(2), of s1 "Some x"] obtain err ds last where
      IH: "ExponentialBackoff rnd (retry_condition fn) ?b (s1, Some x) =
          (err, ds, (snd (attempts n fn s1), last))"
        "if fst (attempts n fn s1) = None then err = None
         else err = Some WaitTimeout \<and> last = fst (attempts n fn s1)"
      using \<open>n = nat (Steps ?b)\<close> by auto
    have "Steps b \<noteq> 1" using Suc.hyps(2) x by auto
    then have "ExponentialBackoff rnd (retry_condition fn) b (s, l) =
        (err, fst (Step rnd b) # ds, (snd (attempts n fn s1), last))"
      using Suc.prems x
      by (subst ExponentialBackoff.simps) (simp add: retry_condition_simps fn IH(1))
    moreover have "attempts (nat (Steps b)) fn s = attempts n fn s1"
      using x by (simp add: Suc.hyps(2) [symmetric] fn)
    ultimately show ?thesis using IH(2) by simp
  qed
qed

lemma retry_Do_attempts:
  "fst (retry_Do rnd fn s) = fst (attempts 4 fn s) \<and>
   snd (snd (retry_Do rnd fn s)) = snd (attempts 4 fn s) \<and>
   length (fst (snd (retry_Do rnd fn s))) \<le> 3"
proof -
  have D: "Cap DefaultBackoff = 0" "0 < Steps DefaultBackoff" "nat (Steps DefaultBackoff) = 4"
    by (simp_all add: DefaultBackoff_def)
  obtain err ds last where run:
    "ExponentialBackoff rnd (retry_condition fn) DefaultBackoff (s, None) =
      (err, ds, (snd (attempts 4 fn s), last))"
    "if fst (attempts 4 fn s) = None then err = None
     else err = Some WaitTimeout \<and> last = fst (attempts 4 fn s)"
    using ExponentialBackoff_attempts [OF D(1,2), of rnd fn s None] D(3) by auto
  have "length ds \<le> 3"
    using ExponentialBackoff_sleeps [of rnd "retry_condition fn" DefaultBackoff "(s, None)"] run(1)
    by (simp add: DefaultBackoff_def)
  with run(2) show ?thesis
    unfolding retry_Do_def OnError_def run(1)
    by (cases "attempts 4 fn s") (simp split: if_splits)
qed

section \<open>Properties\<close>

text \<open>
  C32: \<open>retry.Do\<close> is "at most four attempts".  Whatever the random numbers, it makes attempts until
  one succeeds or the fourth has failed, reports success exactly when the last attempt made
  succeeded and otherwise the error of the fourth, has performed the effects of exactly the
  attempts made, and has slept at most three times.
\<close>

theorem retry_Do_spec:
  "(fst (retry_Do rnd fn s), snd (snd (retry_Do rnd fn s))) = attempts 4 fn s \<and>
   length (fst (snd (retry_Do rnd fn s))) \<le> 3"
  by (simp add: retry_Do_attempts)

text \<open>
  With a cap the loop can sleep and then give up without another attempt: when the next pause
  would exceed the cap, \<open>Steps\<close> becomes 0.
\<close>

theorem capped_backoff_gives_up_early:
  assumes "1 < Steps b" and "0 < Cap b" and "\<not> float_is_zero (Factor b)"
    and "Cap b < float_trunc (float_mult (float_of_int (Duration b)) (Factor b))"
    and "c s = ((False, None), s1)"
  shows "ExponentialBackoff rnd c b s = (Some WaitTimeout, [fst (Step rnd b)], s1)"
proof -
  have "Steps (snd (Step rnd b)) = 0"
    using assms(1-4) by (simp add: Step_def delay_def Let_def split: prod.splits if_splits)
  then have "ExponentialBackoff rnd c (snd (Step rnd b)) s1 = (Some WaitTimeout, [], s1)"
    by (subst ExponentialBackoff.simps) simp
  with assms show ?thesis by (subst ExponentialBackoff.simps) simp
qed

theorem capped_backoff_gives_up_early_witness:
  "ExponentialBackoff (\<lambda>_. Fin 0 0) (\<lambda>n. ((False, None), Suc n))
     \<lparr>Duration = 10, Factor = float_of_int 5, BackoffJitter = Fin 0 0, Steps = 4, Cap = 20\<rparr> 0 =
   (Some WaitTimeout, [10], 1)"
proof -
  let ?b = "\<lparr>Duration = 10, Factor = float_of_int 5, BackoffJitter = Fin 0 0, Steps = 4, Cap = 20\<rparr>"
  have "20 < float_trunc (float_mult (float_of_int 10) (float_of_int 5))"
    "\<not> float_is_zero (float_of_int 5)" by code_simp+
  moreover have "fst (Step (\<lambda>_. Fin 0 0) ?b) = 10" by code_simp
  ultimately show ?thesis
    using capped_backoff_gives_up_early [of ?b "\<lambda>n. ((False, None), Suc n)" 0 1 "\<lambda>_. Fin 0 0"]
    by simp
qed

end
