(* ===== verification/Infomer.thy ===== *)
theory Infomer
  imports WorkQueue Indexer Components Retry
begin

text \<open>
  \<^verbatim>\<open>core/worker/infomer\<close>: the control loop of a worker.  A trigger names the tasks to look at; the
  loop loads their wanted states from the repository and their actual states from the cache,
  computes the changes, writes exceptional ones back and puts the others into the queue; the
  monitor of actual states writes every new state to the repository and releases the task in the
  queue.  The tasks are keyed by their task key in the queue: \<open>Change\<close> has the method \<open>GetUniKey\<close>.
\<close>

abbreviation change_key :: "Change unikey" where
  "change_key \<equiv> Some GetUniKey"

abbreviation key_change :: "string \<Rightarrow> Change" where
  "key_change k \<equiv> zero_Change\<lparr>chg_TaskKey := k\<rparr>"

record triggerInfo =
  resync :: bool
  taskKeys :: "string list"

record taskPair =
  want :: "Task option"
  real :: "TaskExecResult option"

section \<open>Loading the pairs\<close>

text \<open>\<open>ks\<close> is the order in which the cache is listed; a nil and an empty slice have length 0.\<close>

definition loadTaskPairs ::
    "('r, 'z) recorder_scheme \<Rightarrow> 'r \<Rightarrow> string list \<Rightarrow> task_cache \<Rightarrow> string list \<Rightarrow> string list \<Rightarrow> taskPair list result" where
  "loadTaskPairs repo r ks c wantTaskKeys realTaskKeys =
     (if length wantTaskKeys = 0 \<and> length realTaskKeys = 0 then Ok []
      else (case BatchGetTask repo wantTaskKeys r of
              Inl err \<Rightarrow> Err err
            | Inr wantTasks \<Rightarrow>
                let realTasks = ListTasks ks realTaskKeys c
                in if length wantTasks = 0 \<and> length realTasks = 0 then Ok []
                   else
                     let realMap = key_by res_TaskKey realTasks;
                         wantMap = key_by task_TaskKey wantTasks
                     in Ok (map (\<lambda>w. \<lparr>want = Some w, real = realMap (task_TaskKey w)\<rparr>) wantTasks @
                            map (\<lambda>r. \<lparr>want = None, real = Some r\<rparr>)
                              (filter (\<lambda>r. wantMap (res_TaskKey r) = None) realTasks))))"

definition not_final :: "taskPair \<Rightarrow> bool" where
  "not_final pair \<longleftrightarrow>
     (case want pair of None \<Rightarrow> True | Some w \<Rightarrow> \<not> IsFinalStatus (task_Status w)) \<and>
     (case real pair of None \<Rightarrow> True | Some r \<Rightarrow> \<not> IsFinalStatus (res_Status r))"

text \<open>
  Other goroutines move on between the steps of \<open>loadTaskPairsThreadSafe\<close>: \<open>q\<close> is the queue when the
  keys are checked, \<open>c1\<close> the cache when a resync lists its keys, \<open>c2\<close> the cache when the tasks are
  read and \<open>r\<close> the repository when it is asked.
\<close>

definition selectTaskKeys ::
    "Change Typed \<Rightarrow> string list \<Rightarrow> task_cache \<Rightarrow> triggerInfo \<Rightarrow> string list \<times> string list" where
  "selectTaskKeys q ks1 c1 info =
     (let processingKeys = filter (\<lambda>key. Exist change_key (key_change key) q) (taskKeys info);
          wantTaskKeys = taskKeys info;
          realTaskKeys = (if resync info then ListTaskKeys ks1 c1 else taskKeys info)
      in if length processingKeys > 0
         then (filter (\<lambda>key. key \<notin> set processingKeys) wantTaskKeys,
               filter (\<lambda>key. key \<notin> set processingKeys) realTaskKeys)
         else (wantTaskKeys, realTaskKeys))"

definition loadTaskPairsThreadSafe ::
    "('r, 'z) recorder_scheme \<Rightarrow> 'r \<Rightarrow> Change Typed \<Rightarrow> string list \<Rightarrow> task_cache \<Rightarrow> string list \<Rightarrow> task_cache \<Rightarrow>
     triggerInfo \<Rightarrow> taskPair list result" where
  "loadTaskPairsThreadSafe repo r q ks1 c1 ks2 c2 info =
     (let (wantTaskKeys, realTaskKeys) = selectTaskKeys q ks1 c1 info
      in case loadTaskPairs repo r ks2 c2 wantTaskKeys realTaskKeys of
           Inl err \<Rightarrow> Err err
         | Inr taskPairs \<Rightarrow> if length taskPairs = 0 then Ok [] else Ok (filter not_final taskPairs))"

section \<open>The difference between wanted and actual states\<close>

definition pair_want_status :: "taskPair \<Rightarrow> TaskStatus" where
  "pair_want_status pair =
     (case want pair of None \<Rightarrow> TaskStatusNotExist | Some w \<Rightarrow> task_WantRunStatus w)"
definition pair_real_status :: "taskPair \<Rightarrow> TaskStatus" where
  "pair_real_status pair =
     (case real pair of None \<Rightarrow> TaskStatusNotExist | Some r \<Rightarrow> res_Status r)"

definition diff_pair :: "taskPair \<Rightarrow> Change option" where
  "diff_pair pair =
     (let change0 = zero_Change;
          change1 = (case real pair of None \<Rightarrow> change0 | Some r \<Rightarrow>
            change0\<lparr>chg_TaskKey := res_TaskKey r, chg_TaskType := res_TaskType r\<rparr>);
          change2 = (case want pair of None \<Rightarrow> change1 | Some w \<Rightarrow>
            change1\<lparr>chg_TaskKey := task_TaskKey w, chg_TaskType := task_Type w\<rparr>);
          wantStatus = pair_want_status pair;
          realStatus = pair_real_status pair
      in if realStatus = wantStatus then None
         else case GetChangeType realStatus wantStatus of
                Inl err \<Rightarrow> None
              | Inr changeType \<Rightarrow>
                  let change3 = change2\<lparr>chg_ChangeType := changeType\<rparr>
                  in Some (if changeType = ChangeCreate then change3\<lparr>chg_Task := want pair\<rparr>
                           else change3))"

fun diff :: "taskPair list \<Rightarrow> Change list" where
  "diff [] = []"
| "diff (pair # pairs) = (case diff_pair pair of None \<Rightarrow> diff pairs | Some c \<Rightarrow> c # diff pairs)"

text \<open>\<open>fmt.Sprintf("exception:%s", t)\<close>; an error of the update is logged and ignored.\<close>

definition exception_update :: "Change \<Rightarrow> Task" where
  "exception_update c = zero_Task\<lparr>task_TaskKey := chg_TaskKey c, task_Status := TaskStatusPaused,
     task_Msg := ''exception:'' @ chg_ChangeType c\<rparr>"

fun handleException :: "('r, 'z) recorder_scheme \<Rightarrow> Change list \<Rightarrow> 'r \<Rightarrow> Change list \<times> 'r" where
  "handleException repo [] r = ([], r)"
| "handleException repo (c # cs) r =
     (if \<not> IsException c
      then (let (normalChanges, r') = handleException repo cs r in (c # normalChanges, r'))
      else handleException repo cs (snd (UpdateTask repo (exception_update c) r)))"

text \<open>
  The body of the loop of \<open>enqueueIfTaskChange\<close> for one trigger; \<open>q\<close> is the queue when the keys are
  checked and \<open>q'\<close> the queue when the changes are added.
\<close>

definition enqueueIfTaskChange ::
    "('r, 'z) recorder_scheme \<Rightarrow> Change Typed \<Rightarrow> string list \<Rightarrow> task_cache \<Rightarrow> string list \<Rightarrow> task_cache \<Rightarrow>
     triggerInfo \<Rightarrow> 'r \<Rightarrow> Change Typed \<Rightarrow> 'r \<times> Change Typed" where
  "enqueueIfTaskChange repo q ks1 c1 ks2 c2 info r q' =
     (case loadTaskPairsThreadSafe repo r q ks1 c1 ks2 c2 info of
        Inl err \<Rightarrow> (r, q')
      | Inr taskPairs \<Rightarrow>
          if length taskPairs = 0 then (r, q')
          else let changes = diff taskPairs;
                   (changes', r') = handleException repo changes r
               in (r', snd (add_all (Add change_key) changes' q')))"

section \<open>The monitor of actual states\<close>

text \<open>The callback that \<open>monitorChangeResult\<close> installs: the update is retried, then the task is released.\<close>

definition afterChange ::
    "('r, 'z) recorder_scheme \<Rightarrow> (int \<Rightarrow> float64) \<Rightarrow> TaskExecResult \<Rightarrow> 'r \<times> Change Typed \<Rightarrow> 'r \<times> Change Typed" where
  "afterChange repo rnd t rq =
     (let (err, sleeps, r') = retry_Do rnd
            (UpdateTask repo (zero_Task\<lparr>task_TaskKey := res_TaskKey t, task_Status := res_Status t\<rparr>))
            (fst rq)
      in (r', Done change_key (key_change (res_TaskKey t)) (snd rq)))"

text \<open>One message of \<open>Monitor\<close>: the cache is set first, then the callback runs.\<close>

definition monitor_message ::
    "('r, 'z) recorder_scheme \<Rightarrow> (int \<Rightarrow> float64) \<Rightarrow> time \<Rightarrow> TaskExecResult option \<Rightarrow>
     'r \<times> task_cache \<times> Change Typed \<Rightarrow> 'r \<times> task_cache \<times> Change Typed" where
  "monitor_message repo rnd now ch st =
     (let (r, c, q) = st; (cb, c') = processTask True now ch c
      in case cb of
           None \<Rightarrow> (r, c', q)
         | Some t \<Rightarrow> let (r', q') = afterChange repo rnd t (r, q) in (r', c', q'))"

section \<open>Start, consumer and shutdown\<close>

text \<open>\<open>Run\<close> up to the start of its goroutines; \<open>running\<close> is swapped atomically.\<close>

definition defaultResync :: time where "defaultResync = 15 * second"

datatype watch_result = WatchOk | WatchErr error

definition makeTigger ::
    "('r, 'z) recorder_scheme \<Rightarrow> 'r \<Rightarrow> watch_result \<Rightarrow> string \<Rightarrow> time \<Rightarrow> (time \<times> triggerInfo list) result" where
  "makeTigger repo r watch workerID resync_period =
     (let period = (if resync_period \<le> 0 then defaultResync else resync_period)
      in case ListRunnableTasks repo workerID r of
           Inl err \<Rightarrow> Err err
         | Inr keys \<Rightarrow>
             (case watch of
                WatchErr err \<Rightarrow> Err err
              | WatchOk \<Rightarrow> Ok (period, [\<lparr>resync = True, taskKeys = keys\<rparr>])))"

text \<open>The two sources of later triggers: a list of keys from the watch, and a tick of the timer.\<close>

definition watch_trigger :: "string list \<Rightarrow> triggerInfo" where
  "watch_trigger keys = \<lparr>resync = False, taskKeys = keys\<rparr>"

definition tick_trigger :: "('r, 'z) recorder_scheme \<Rightarrow> 'r \<Rightarrow> string \<Rightarrow> triggerInfo option" where
  "tick_trigger repo r workerID =
     (case ListRunnableTasks repo workerID r of
        Inl err \<Rightarrow> None
      | Inr keys \<Rightarrow> Some \<lparr>resync = True, taskKeys = keys\<rparr>)"

definition infomer_Run ::
    "('r, 'z) recorder_scheme \<Rightarrow> 'r \<Rightarrow> watch_result \<Rightarrow> string \<Rightarrow> time \<Rightarrow> bool \<Rightarrow>
     (time \<times> triggerInfo list) result \<times> bool" where
  "infomer_Run repo r watch workerID resync_period running =
     (if running then (Err AlreadyRunning, True)
      else (makeTigger repo r watch workerID resync_period, True))"

definition WaitChange :: "Change Typed \<Rightarrow> Change get_outcome \<times> Change Typed" where
  "WaitChange q = Get change_key q"

definition JumpChange :: "Change \<Rightarrow> Change Typed \<Rightarrow> Change Typed" where
  "JumpChange item q = Done change_key item q"

text \<open>
  \<open>Shutdown\<close> waits for the end of \<open>ShutDownWithDrain\<close> or of the context: its result, when the drain
  is observed in state \<open>q'\<close> before the deadline (\<open>None\<close>) or the context ends with an error.
\<close>

definition infomer_Shutdown :: "Change Typed \<Rightarrow> Change Typed" where
  "infomer_Shutdown q = ShutDownWithDrain q"

definition Shutdown_result :: "Change Typed \<Rightarrow> error option \<Rightarrow> error option option" where
  "Shutdown_result q' ctx_err =
     (case ctx_err of
        Some e \<Rightarrow> Some (Some e)
      | None \<Rightarrow> if drain_waits q' then None else Some None)"

section \<open>Facts about the difference\<close>

definition pair_key :: "taskPair \<Rightarrow> string" where
  "pair_key pair = (case want pair of Some w \<Rightarrow> task_TaskKey w
     | None \<Rightarrow> (case real pair of Some r \<Rightarrow> res_TaskKey r | None \<Rightarrow> []))"

lemma diff_pair_iff:
  "diff_pair pair = Some c \<longleftrightarrow>
     GetChangeType (pair_real_status pair) (pair_want_status pair) = Ok (chg_ChangeType c) \<and>
     chg_TaskKey c = pair_key pair \<and>
     chg_TaskType c = (case want pair of Some w \<Rightarrow> task_Type w
       | None \<Rightarrow> (case real pair of Some r \<Rightarrow> res_TaskType r | None \<Rightarrow> [])) \<and>
     chg_Task c = (if chg_ChangeType c = ChangeCreate then want pair else None)"
proof -
  have irrefl: "GetChangeType s s \<noteq> Ok t" for s t
    using GetChangeType_Ok_iff [of s s t] by (auto simp: change_table_def)
  then show ?thesis
    by (cases c) (auto simp: diff_pair_def pair_key_def zero_Change_def Let_def irrefl
        split: option.splits sum.splits if_splits)
qed

lemma diff_pair_None_iff:
  "diff_pair pair = None \<longleftrightarrow>
     (\<forall>t. GetChangeType (pair_real_status pair) (pair_want_status pair) \<noteq> Ok t)"
proof -
  have irrefl: "GetChangeType s s \<noteq> Ok t" for s t
    using GetChangeType_Ok_iff [of s s t] by (auto simp: change_table_def)
  then show ?thesis
    by (auto simp: diff_pair_def Let_def split: sum.splits)
qed

lemma diff_eq_map_filter: "diff pairs = List.map_filter diff_pair pairs"
  by (induction pairs) (auto simp: map_filter_simps split: option.splits)

lemma set_diff: "set (diff pairs) = {c. \<exists>pair\<in>set pairs. diff_pair pair = Some c}"
  by (induction pairs) (auto split: option.splits)

lemma diff_keys: "chg_TaskKey ` set (diff pairs) \<subseteq> pair_key ` set pairs"
  by (auto simp: set_diff diff_pair_iff)

lemma distinct_diff: "distinct (map pair_key pairs) \<Longrightarrow> distinct (map chg_TaskKey (diff pairs))"
proof (induction pairs)
  case (Cons pair pairs)
  then show ?case
    using diff_keys [of pairs] by (auto simp: diff_pair_iff split: option.splits)
qed simp

lemma create_carries_task:
  assumes "diff_pair pair = Some c" and "chg_ChangeType c = ChangeCreate"
  shows "\<exists>w. want pair = Some w \<and> chg_Task c = Some w \<and> task_WantRunStatus w = TaskStatusRunning"
  using assms
  by (auto simp: diff_pair_iff GetChangeType_Ok_iff change_table_def pair_want_status_def
      split: option.splits)

section \<open>Facts about exceptional changes\<close>

lemma handleException_fst: "fst (handleException repo cs r) = filter (\<lambda>c. \<not> IsException c) cs"
  by (induction repo cs r rule: handleException.induct) (auto simp: Let_def split_beta)

lemma handleException_snd:
  "snd (handleException repo cs r) =
     foldl (\<lambda>r c. snd (UpdateTask repo (exception_update c) r)) r (filter IsException cs)"
  by (induction repo cs r rule: handleException.induct) (auto simp: Let_def split_beta)

lemma diff_IsException_iff:
  assumes "diff_pair pair = Some c"
  shows "IsException c \<longleftrightarrow> pair_real_status pair = TaskStatusNotExist \<and>
    pair_want_status pair \<in> {TaskStatusPaused, TaskStatusStop}"
proof -
  have "(pair_real_status pair, pair_want_status pair, chg_ChangeType c) \<in> set change_table"
    using assms by (simp add: diff_pair_iff GetChangeType_Ok_iff)
  then show ?thesis
    by (auto simp: change_table_def IsException_iff)
qed

section \<open>Facts about the pairs\<close>

lemma pairs_keys:
  assumes "distinct (map task_TaskKey ws)" and "distinct (map res_TaskKey rs)"
  shows "distinct (map pair_key (map (\<lambda>w. \<lparr>want = Some w, real = key_by res_TaskKey rs (task_TaskKey w)\<rparr>) ws @
    map (\<lambda>r. \<lparr>want = None, real = Some r\<rparr>)
      (filter (\<lambda>r. key_by task_TaskKey ws (res_TaskKey r) = None) rs)))"
proof -
  have "map pair_key (map (\<lambda>w. \<lparr>want = Some w, real = key_by res_TaskKey rs (task_TaskKey w)\<rparr>) ws)
      = map task_TaskKey ws"
    by (simp add: pair_key_def)
  moreover have "map pair_key (map (\<lambda>r. \<lparr>want = None, real = Some r\<rparr>)
      (filter (\<lambda>r. key_by task_TaskKey ws (res_TaskKey r) = None) rs)) =
      map res_TaskKey (filter (\<lambda>r. key_by task_TaskKey ws (res_TaskKey r) = None) rs)"
    by (simp add: pair_key_def)
  moreover have "distinct (map task_TaskKey ws @
      map res_TaskKey (filter (\<lambda>r. key_by task_TaskKey ws (res_TaskKey r) = None) rs))"
    using assms distinct_map_filter_sub [OF assms(2)] by (auto simp: key_by_None_iff) (metis image_eqI)
  ultimately show ?thesis by (simp only: map_append)
qed

text \<open>What a repository returns for a list of keys, as far as the loop relies on it.\<close>

definition batch_ok :: "('r, 'z) recorder_scheme \<Rightarrow> 'r \<Rightarrow> bool" where
  "batch_ok repo r \<longleftrightarrow> (\<forall>keys ws. BatchGetTask repo keys r = Ok ws \<longrightarrow>
     distinct (map task_TaskKey ws) \<and> task_TaskKey ` set ws \<subseteq> set keys)"

lemma loadTaskPairs_distinct:
  assumes "batch_ok repo r" and "cache_ok c" and "range_order ks (items c)"
    and "distinct realTaskKeys"
    and "loadTaskPairs repo r ks c wantTaskKeys realTaskKeys = Ok pairs"
  shows "distinct (map pair_key pairs)"
proof (cases "BatchGetTask repo wantTaskKeys r")
  case (Inl e)
  with assms(5) show ?thesis by (auto simp: loadTaskPairs_def split: if_splits)
next
  case (Inr ws)
  have "distinct (map task_TaskKey ws)" using assms(1) Inr by (auto simp: batch_ok_def)
  moreover have "distinct (map res_TaskKey (ListTasks ks realTaskKeys c))"
    using List_ok(1) [OF assms(2,3)] ListTasks_distinct [OF assms(2,3) _ assms(4)]
    by (cases "realTaskKeys = []") (auto simp: ListTasks_all)
  ultimately show ?thesis
    using assms(5) Inr pairs_keys by (auto simp: loadTaskPairs_def Let_def split: if_splits)
qed

lemma selectTaskKeys_real_distinct:
  assumes "cache_ok c1" and "range_order ks1 (items c1)" and "distinct (taskKeys info)"
  shows "distinct (snd (selectTaskKeys q ks1 c1 info))"
  using assms by (auto simp: selectTaskKeys_def Let_def ListTaskKeys_distinct)

lemma loadTaskPairsThreadSafe_distinct:
  assumes "batch_ok repo r" and "cache_ok c1" and "range_order ks1 (items c1)"
    and "cache_ok c2" and "range_order ks2 (items c2)" and "distinct (taskKeys info)"
    and "loadTaskPairsThreadSafe repo r q ks1 c1 ks2 c2 info = Ok pairs"
  shows "distinct (map pair_key pairs)"
proof -
  let ?keys = "selectTaskKeys q ks1 c1 info"
  from assms(7) have "pairs = [] \<or> (\<exists>all. loadTaskPairs repo r ks2 c2 (fst ?keys) (snd ?keys) = Ok all \<and>
      pairs = filter not_final all)"
    by (auto simp: loadTaskPairsThreadSafe_def split_beta split: sum.splits if_splits)
  then show ?thesis
    using loadTaskPairs_distinct [OF assms(1,4,5) selectTaskKeys_real_distinct [OF assms(2,3,6)]]
    by (auto intro: distinct_map_filter_sub)
qed

lemma distinct_change_keys:
  "distinct (map (getKey change_key) cs) = distinct (map chg_TaskKey cs)"
  by (induction cs) (auto simp: getKey_def image_iff)

lemma enqueueIfTaskChange_alt:
  assumes "loadTaskPairsThreadSafe repo r q ks1 c1 ks2 c2 info = Ok pairs"
  shows "enqueueIfTaskChange repo q ks1 c1 ks2 c2 info r q' =
    (foldl (\<lambda>r c. snd (UpdateTask repo (exception_update c) r)) r (filter IsException (diff pairs)),
     snd (add_all (Add change_key) (filter (\<lambda>c. \<not> IsException c) (diff pairs)) q'))"
  using assms handleException_fst [of repo "diff pairs" r] handleException_snd [of repo "diff pairs" r]
  by (cases "handleException repo (diff pairs) r") (simp add: enqueueIfTaskChange_def)

lemma enqueue_pending:
  assumes "loadTaskPairsThreadSafe repo r q ks1 c1 ks2 c2 info = Ok pairs"
    and "queue_inv change_key q'" and "\<not> shuttingDown q'" and "distinct (map chg_TaskKey (diff pairs))"
  shows "let q'' = snd (enqueueIfTaskChange repo q ks1 c1 ks2 c2 info r q')
    in elems (queue q'') = elems (queue q') @
         filter (\<lambda>c. \<not> IsException c \<and> \<not> Exist change_key c q') (diff pairs) \<and>
       processing q'' = processing q' \<and> queue_inv change_key q''"
proof -
  have "distinct (map (getKey change_key) (filter (\<lambda>c. \<not> IsException c) (diff pairs)))"
    unfolding distinct_change_keys using assms(4) by (rule distinct_map_filter_sub)
  from typed.add_all_open [OF assms(2,3) this] show ?thesis
    by (simp add: enqueueIfTaskChange_alt [OF assms(1)] conj_commute)
qed

lemma Done_processing: "processing (Done uk x q) = processing q - {getKey uk x}"
  by (simp add: queue_defs Let_def)

lemma monitor_message_eq:
  "monitor_message repo rnd now (Some t) (r, c, q) =
     (snd (attempts 4 (UpdateTask repo (zero_Task\<lparr>task_TaskKey := res_TaskKey t,
         task_Status := res_Status t\<rparr>)) r),
      Set now (res_TaskKey t) t c,
      Done change_key (key_change (res_TaskKey t)) q)"
  using retry_Do_attempts [of rnd "UpdateTask repo (zero_Task\<lparr>task_TaskKey := res_TaskKey t,
         task_Status := res_Status t\<rparr>)" r]
  by (auto simp: monitor_message_def processTask_def afterChange_def split_beta Let_def)

lemma Exist_key: "Exist change_key c q = Exist change_key (key_change (chg_TaskKey c)) q"
  by (simp add: queue_defs getKey_def GetUniKey_def)

section \<open>Properties\<close>

text \<open>
  \<open>diff\<close> is the table of changes applied to every pair.  A change comes from a pair whose
  actual and wanted state have a row in the table, and every such pair gives one; it has the key
  and the type of the wanted task where there is one and of the actual task otherwise; exactly the
  create changes carry a task, and it is one that is wanted running; pairs with different keys give
  changes with different keys.
\<close>

theorem diff_spec:
  assumes "distinct (map pair_key pairs)"
  shows "distinct (map chg_TaskKey (diff pairs)) \<and>
    set (diff pairs) = {c. \<exists>pair\<in>set pairs.
      GetChangeType (pair_real_status pair) (pair_want_status pair) = Ok (chg_ChangeType c) \<and>
      chg_TaskKey c = pair_key pair \<and>
      chg_TaskType c = (case want pair of Some w \<Rightarrow> task_Type w
        | None \<Rightarrow> (case real pair of Some r \<Rightarrow> res_TaskType r | None \<Rightarrow> [])) \<and>
      chg_Task c = (if chg_ChangeType c = ChangeCreate then want pair else None)} \<and>
    (\<forall>c\<in>set (diff pairs). chg_ChangeType c = ChangeCreate \<longrightarrow>
      (\<exists>w. chg_Task c = Some w \<and> task_WantRunStatus w = TaskStatusRunning))"
proof (intro conjI ballI impI)
  show "distinct (map chg_TaskKey (diff pairs))" by (rule distinct_diff [OF assms])
  fix c assume "c \<in> set (diff pairs)" and "chg_ChangeType c = ChangeCreate"
  then show "\<exists>w. chg_Task c = Some w \<and> task_WantRunStatus w = TaskStatusRunning"
    using create_carries_task by (auto simp: set_diff)
qed (simp add: set_diff diff_pair_iff)

text \<open>
  The loop closes.  When the executor has carried out the change that \<open>diff\<close> computed for a
  pair, so that the actual state is the target of the change, the same wanted state gives no change
  any more.
\<close>

theorem diff_converges:
  assumes "diff_pair pair = Some c" and "\<not> IsException c"
    and "want pair' = want pair" and "change_target (chg_ChangeType c) = Some (pair_real_status pair')"
  shows "diff_pair pair' = None"
proof -
  have "(pair_real_status pair, pair_want_status pair, chg_ChangeType c) \<in> set change_table"
    using assms(1) by (simp add: diff_pair_iff GetChangeType_Ok_iff)
  with assms(4) have "pair_real_status pair' = pair_want_status pair"
    by (auto simp: change_table_def)
  moreover have "pair_want_status pair' = pair_want_status pair"
    using assms(3) by (simp add: pair_want_status_def)
  ultimately show ?thesis
    by (auto simp: diff_pair_None_iff GetChangeType_Ok_iff change_table_def)
qed

text \<open>
  C7: what one trigger does.  The normal changes whose task is neither waiting nor being processed
  are appended to the queue in order, nothing else in the queue moves, and the new ones are for
  different tasks, none of which is being processed; the exceptional changes are written to the
  repository, in order.
\<close>

theorem enqueueIfTaskChange_spec:
  assumes "batch_ok repo r" and "cache_ok c1" and "range_order ks1 (items c1)"
    and "cache_ok c2" and "range_order ks2 (items c2)" and "distinct (taskKeys info)"
    and "loadTaskPairsThreadSafe repo r q ks1 c1 ks2 c2 info = Ok pairs"
    and "queue_inv change_key q'" and "\<not> shuttingDown q'"
  shows "let (r', q'') = enqueueIfTaskChange repo q ks1 c1 ks2 c2 info r q';
      new = filter (\<lambda>c. \<not> IsException c \<and> \<not> Exist change_key c q') (diff pairs)
    in elems (queue q'') = elems (queue q') @ new \<and> processing q'' = processing q' \<and>
       queue_inv change_key q'' \<and> distinct (map chg_TaskKey new) \<and>
       (\<forall>c\<in>set new. GetUniKey c \<notin> processing q'') \<and>
       r' = foldl (\<lambda>r c. snd (UpdateTask repo (exception_update c) r)) r
              (filter IsException (diff pairs))"
proof -
  have d: "distinct (map chg_TaskKey (diff pairs))"
    by (rule distinct_diff [OF loadTaskPairsThreadSafe_distinct [OF assms(1-7)]])
  have "GetUniKey c \<notin> processing q'" if "\<not> Exist change_key c q'" for c
    using that by (simp add: queue_defs getKey_def)
  with enqueue_pending [OF assms(7-9) d] show ?thesis
    by (simp add: enqueueIfTaskChange_alt [OF assms(7)] distinct_map_filter_sub [OF d] Let_def)
qed

text \<open>
  A report of an executor.  The reported result is in the cache under its key, the repository
  has seen at most four updates with the reported state (the effects of the attempts up to the
  first success), and the task is released: whether or not an update succeeded, no change of it is
  being processed any more, so the next change of it can be queued.
\<close>

theorem monitor_message_spec:
  "monitor_message repo rnd now (Some t) (r, c, q) =
     (snd (attempts 4 (UpdateTask repo (zero_Task\<lparr>task_TaskKey := res_TaskKey t,
         task_Status := res_Status t\<rparr>)) r),
      Set now (res_TaskKey t) t c,
      Done change_key (key_change (res_TaskKey t)) q) \<and>
   GetUniKey (key_change (res_TaskKey t)) \<notin>
     processing (snd (snd (monitor_message repo rnd now (Some t) (r, c, q)))) \<and>
   cache_Get (res_TaskKey t) (fst (snd (monitor_message repo rnd now (Some t) (r, c, q)))) = Some t"
  by (simp add: monitor_message_eq Done_processing getKey_def cache_Get_def Set_def)

text \<open>
  Stopping a task that no executor knows never takes effect.  The change is the exceptional
  one, which is not queued; the state that is written is \<open>paused\<close> and not a final one, and the pair
  that is loaded next gives the same change again.
\<close>

theorem stop_of_unknown_task_writes_paused:
  assumes "want pair = Some w" and "real pair = None" and "task_WantRunStatus w = TaskStatusStop"
  shows "\<exists>c. diff [pair] = [c] \<and> chg_ChangeType c = ChangeExceptionFinish \<and>
    fst (handleException repo [c] r) = [] \<and>
    snd (handleException repo [c] r) = snd (UpdateTask repo (exception_update c) r) \<and>
    task_Status (exception_update c) = TaskStatusPaused \<and>
    (\<forall>w'. task_WantRunStatus w' = TaskStatusStop \<and> task_Status w' = TaskStatusPaused \<and>
       task_TaskKey w' = task_TaskKey w \<and> task_Type w' = task_Type w \<longrightarrow>
       not_final \<lparr>want = Some w', real = None\<rparr> \<and> diff [\<lparr>want = Some w', real = None\<rparr>] = [c])"
proof -
  have "pair = \<lparr>want = Some w, real = None\<rparr>" using assms(1,2) by simp
  with assms(3) show ?thesis
    by (simp add: diff_pair_def GetChangeType_def pair_want_status_def pair_real_status_def
        IsException_iff handleException.simps exception_update_def not_final_def)
qed

text \<open>
  A wanted task can be deleted.  At a resync, when the only cached task \<open>a\<close> has a change in the
  queue and another task \<open>b\<close> is runnable, removing \<open>a\<close> leaves the empty list of actual keys, for
  which the cache is listed completely: \<open>a\<close> is paired with no wanted task and its difference is a
  delete.  If the change of \<open>a\<close> is finished before the changes are added, the delete is queued.
\<close>

theorem empty_key_list_deletes_wanted_task:
  assumes "Exist change_key (key_change a) q" and "\<not> Exist change_key (key_change b) q" and "a \<noteq> b"
    and "items c = [a \<mapsto> ra]" and "res_TaskKey ra = a" and "res_Status ra = TaskStatusRunning"
    and "BatchGetTask repo [b] r = Ok wbs" and "batch_ok repo r"
    and "queue_inv change_key q'" and "\<not> shuttingDown q'" and "\<not> Exist change_key (key_change a) q'"
  shows "\<exists>chg\<in>set (elems (queue (snd (enqueueIfTaskChange repo q [a] c [a] c
      \<lparr>resync = True, taskKeys = [a, b]\<rparr> r q')))). chg_TaskKey chg = a \<and> chg_ChangeType chg = ChangeDelete"
proof -
  let ?orphan = "\<lparr>want = None, real = Some ra\<rparr>"
  let ?chg = "\<lparr>chg_TaskKey = a, chg_TaskType = res_TaskType ra, chg_ChangeType = ChangeDelete, chg_Task = None\<rparr>"
  let ?wants = "map (\<lambda>w. \<lparr>want = Some w, real = key_by res_TaskKey [ra] (task_TaskKey w)\<rparr>) wbs"
  have wbs: "task_TaskKey ` set wbs \<subseteq> {b}" "distinct (map task_TaskKey wbs)"
    using assms(8) [unfolded batch_ok_def, rule_format, OF assms(7)] by auto
  then have lk: "key_by task_TaskKey wbs a = None" using assms(3) by (auto simp: key_by_None_iff)
  have "selectTaskKeys q [a] c \<lparr>resync = True, taskKeys = [a, b]\<rparr> = ([b], [])"
    using assms(1-5) by (simp add: selectTaskKeys_def ListTaskKeys_def cache_List_def)
  moreover have "loadTaskPairs repo r [a] c [b] [] = Ok (?wants @ [?orphan])"
    using assms(4,5,7) lk by (simp add: loadTaskPairs_def ListTasks_all cache_List_def)
  moreover have "not_final ?orphan" using assms(6) by (simp add: not_final_def)
  ultimately have load: "loadTaskPairsThreadSafe repo r q [a] c [a] c \<lparr>resync = True, taskKeys = [a, b]\<rparr>
      = Ok (filter not_final ?wants @ [?orphan])"
    by (simp add: loadTaskPairsThreadSafe_def)
  have "distinct (map pair_key (?wants @ [?orphan]))"
    using pairs_keys [OF wbs(2), of "[ra]"] lk assms(5) by simp
  then have "distinct (map pair_key (filter not_final (?wants @ [?orphan])))"
    by (rule distinct_map_filter_sub)
  then have "distinct (map pair_key (filter not_final ?wants @ [?orphan]))"
    using \<open>not_final ?orphan\<close> by simp
  note new = enqueue_pending [OF load assms(9,10) distinct_diff [OF this]]
  have "diff_pair ?orphan = Some ?chg"
    using assms(5,6)
    by (simp add: diff_pair_iff pair_real_status_def pair_want_status_def pair_key_def GetChangeType_def)
  then have "?chg \<in> set (diff (filter not_final ?wants @ [?orphan]))"
    by (auto simp: set_diff)
  moreover have "\<not> IsException ?chg" by (simp add: IsException_iff)
  moreover have "\<not> Exist change_key ?chg q'" using assms(11) Exist_key [of ?chg q'] by simp
  ultimately have "?chg \<in> set (elems (queue (snd (enqueueIfTaskChange repo q [a] c [a] c
      \<lparr>resync = True, taskKeys = [a, b]\<rparr> r q'))))"
    using new by (simp add: Let_def)
  then show ?thesis by force
qed

section \<open>Witnesses\<close>

definition demo_task :: "string \<Rightarrow> TaskStatus \<Rightarrow> TaskStatus \<Rightarrow> Task" where
  "demo_task key st wt = zero_Task\<lparr>task_TaskKey := key, task_Type := ''goroutine'',
     task_Status := st, task_WantRunStatus := wt\<rparr>"

lemma demo_task_simps [simp]:
  "task_TaskKey (demo_task k st wt) = k" "task_Status (demo_task k st wt) = st"
  "task_WantRunStatus (demo_task k st wt) = wt" "task_Type (demo_task k st wt) = ''goroutine''"
  by (simp_all add: demo_task_def)

definition demo_repo :: mem_repo where
  "demo_repo = \<lparr>rows = [demo_task ''a'' TaskStatusRunning TaskStatusRunning,
     demo_task ''b'' TaskStatusWaitRunning TaskStatusRunning], updates = []\<rparr>"

lemma demo_repo_batch_ok: "batch_ok mem_TaskRepo demo_repo"
  by (auto simp: batch_ok_def mem_TaskRepo_def demo_repo_def)

definition demo_running :: "string \<Rightarrow> task_cache" where
  "demo_running a = Set 3 a (demo_result a TaskStatusRunning) NewThreadSafeMap"

lemma demo_running_items: "items (demo_running a) = [a \<mapsto> demo_result a TaskStatusRunning]"
  by (simp add: demo_running_def Set_def NewThreadSafeMap_def)

lemma demo_running_ok: "cache_ok (demo_running a)" "range_order [a] (items (demo_running a))"
  by (simp_all add: cache_ok_def times_ok_def range_order_def demo_running_def Set_def
      NewThreadSafeMap_def)

definition demo_changes :: "Change Typed" where
  "demo_changes = snd (Get change_key (snd (Add change_key
     ((key_change ''a'')\<lparr>chg_ChangeType := ChangePause\<rparr>) (NewTyped grow2 0))))"

lemma demo_changes_inv: "queue_inv change_key demo_changes"
  unfolding demo_changes_def NewTyped_eq by (intro Get_inv Add_inv newQueue_inv grow2_ge)

lemma demo_changes_fields:
  "processing demo_changes = {key_change ''a''}" "dirty demo_changes = {}"
  "\<not> shuttingDown demo_changes" "elems (queue demo_changes) = []"
  by (simp_all add: demo_changes_def newQueue_simps queue_defs Pop_def Push_def
      getKey_def Let_def GetUniKey_def zero_Change_def)

lemma demo_changes_Exist: "Exist change_key c demo_changes \<longleftrightarrow> chg_TaskKey c = ''a''"
  by (simp add: queue_defs demo_changes_fields getKey_def GetUniKey_def zero_Change_def)

theorem diff_spec_witness:
  "distinct (map chg_TaskKey (diff
     [\<lparr>want = Some (demo_task ''a'' TaskStatusRunning TaskStatusPaused),
       real = Some (demo_result ''a'' TaskStatusRunning)\<rparr>,
      \<lparr>want = Some (demo_task ''b'' TaskStatusWaitRunning TaskStatusRunning), real = None\<rparr>]))"
  by (rule diff_spec [THEN conjunct1]) (simp add: pair_key_def)

theorem diff_converges_witness:
  "diff_pair \<lparr>want = Some (demo_task ''a'' TaskStatusRunning TaskStatusPaused),
     real = Some (demo_result ''a'' TaskStatusPaused)\<rparr> = None"
  by (rule diff_converges [of "\<lparr>want = Some (demo_task ''a'' TaskStatusRunning TaskStatusPaused),
     real = Some (demo_result ''a'' TaskStatusRunning)\<rparr>" "\<lparr>chg_TaskKey = ''a'',
     chg_TaskType = ''goroutine'', chg_ChangeType = ChangePause, chg_Task = None\<rparr>"])
    (simp_all add: diff_pair_iff pair_real_status_def pair_want_status_def pair_key_def
      GetChangeType_def IsException_iff)

theorem enqueueIfTaskChange_spec_witness:
  "map chg_ChangeType (elems (queue (snd (enqueueIfTaskChange mem_TaskRepo demo_changes
      [''a''] (demo_running ''a'') [''a''] (demo_running ''a'')
      \<lparr>resync = False, taskKeys = [''a'', ''b'']\<rparr> demo_repo demo_changes)))) = [ChangeCreate]"
proof -
  let ?info = "\<lparr>resync = False, taskKeys = [''a'', ''b'']\<rparr>"
  let ?b = "demo_task ''b'' TaskStatusWaitRunning TaskStatusRunning"
  have load: "loadTaskPairsThreadSafe mem_TaskRepo demo_repo demo_changes [''a''] (demo_running ''a'')
      [''a''] (demo_running ''a'') ?info = Ok [\<lparr>want = Some ?b, real = None\<rparr>]"
    by (simp add: loadTaskPairsThreadSafe_def selectTaskKeys_def demo_changes_Exist loadTaskPairs_def
        mem_TaskRepo_def demo_repo_def ListTasks_def cache_List_def demo_running_items key_by_def
        not_final_def)
  have "distinct (taskKeys ?info)" by simp
  note enqueueIfTaskChange_spec [OF demo_repo_batch_ok demo_running_ok demo_running_ok this load
      demo_changes_inv demo_changes_fields(3)]
  then show ?thesis
    by (simp add: Let_def split_beta demo_changes_fields(4) demo_changes_Exist diff_pair_def
        pair_want_status_def pair_real_status_def GetChangeType_def IsException_iff zero_Change_def)
qed

theorem stop_of_unknown_task_writes_paused_witness:
  "\<exists>c. diff [\<lparr>want = Some (demo_task ''a'' TaskStatusWaitStop TaskStatusStop), real = None\<rparr>] = [c] \<and>
     task_Status (exception_update c) = TaskStatusPaused"
  using stop_of_unknown_task_writes_paused
    [of "\<lparr>want = Some (demo_task ''a'' TaskStatusWaitStop TaskStatusStop), real = None\<rparr>"
      "demo_task ''a'' TaskStatusWaitStop TaskStatusStop" mem_TaskRepo demo_repo]
  by (metis demo_task_simps(3) taskPair.select_convs)

theorem empty_key_list_deletes_wanted_task_witness:
  "\<exists>chg\<in>set (elems (queue (snd (enqueueIfTaskChange mem_TaskRepo demo_changes
      [''a''] (demo_running ''a'') [''a''] (demo_running ''a'') \<lparr>resync = True, taskKeys = [''a'', ''b'']\<rparr>
      demo_repo (Done change_key (key_change ''a'') demo_changes))))).
    chg_TaskKey chg = ''a'' \<and> chg_ChangeType chg = ChangeDelete"
proof (rule empty_key_list_deletes_wanted_task [where ra = "demo_result ''a'' TaskStatusRunning"])
  show "BatchGetTask mem_TaskRepo [''b''] demo_repo =
      Ok [demo_task ''b'' TaskStatusWaitRunning TaskStatusRunning]"
    by (simp add: mem_TaskRepo_def demo_repo_def)
  show "queue_inv change_key (Done change_key (key_change ''a'') demo_changes)"
    by (rule Done_inv [OF demo_changes_inv])
  show "\<not> Exist change_key (key_change ''a'') (Done change_key (key_change ''a'') demo_changes)"
    by (simp add: queue_defs demo_changes_fields getKey_def Let_def GetUniKey_def zero_Change_def)
  show "\<not> shuttingDown (Done change_key (key_change ''a'') demo_changes)"
    using typed.finish_closed demo_changes_fields(3) by metis
qed (simp_all add: demo_changes_Exist demo_running_items demo_repo_batch_ok)

end
