(* ===== verification/Executor.thy ===== *)
theory Executor
  imports TaskModel
begin

text \<open>
  \<^verbatim>\<open>core/worker/executor\<close>: the interface of an executor and the manager that dispatches changes to
  the registered executors and merges what they report.
\<close>

section \<open>The interface\<close>

text \<open>
  How a call of a method ends: it returns, it waits for room in a channel, or it panics.  The
  executors act on a common state \<open>'s\<close>; a registered executor is the record of its methods.
\<close>

datatype call_outcome = CallReturns "error option" | CallBlocks | CallPanics

record 's Interface =
  exe_Run :: "TaskExecParam \<Rightarrow> 's \<Rightarrow> call_outcome \<times> 's"
  exe_Pause :: "string \<Rightarrow> 's \<Rightarrow> call_outcome \<times> 's"
  exe_Resume :: "string \<Rightarrow> 's \<Rightarrow> call_outcome \<times> 's"
  exe_Stop :: "string \<Rightarrow> 's \<Rightarrow> call_outcome \<times> 's"
  exe_Exit :: "string \<Rightarrow> 's \<Rightarrow> call_outcome \<times> 's"
  exe_List :: "'s \<Rightarrow> TaskExecResult list result"

type_synonym 's registry = "string \<rightharpoonup> 's Interface"

definition RegisterExecutor :: "string \<Rightarrow> 's Interface \<Rightarrow> 's registry \<Rightarrow> 's registry" where
  "RegisterExecutor taskType ce executors = executors(taskType \<mapsto> ce)"

definition getExecutor :: "'s registry \<Rightarrow> string \<Rightarrow> 's Interface option" where
  "getExecutor executors taskType = executors taskType"

section \<open>The manager\<close>

text \<open>The loop of \<open>List\<close> over the registered executors.\<close>

fun list_executors :: "(string \<times> 's Interface) list \<Rightarrow> 's \<Rightarrow> TaskExecResult list result" where
  "list_executors [] s = Ok []"
| "list_executors ((ty, e) # es) s =
     (case exe_List e s of
        Inl err \<Rightarrow> Err err
      | Inr ts \<Rightarrow>
          (case list_executors es s of
             Inl err \<Rightarrow> Err err
           | Inr rest \<Rightarrow> Ok (map (\<lambda>t. t\<lparr>res_TaskType := ty\<rparr>) ts @ rest)))"

definition manager_List :: "string list \<Rightarrow> 's registry \<Rightarrow> 's \<Rightarrow> TaskExecResult list result" where
  "manager_List ks executors s = list_executors (go_range ks executors) s"

definition ChangeHandle :: "'s registry \<Rightarrow> Change \<Rightarrow> 's \<Rightarrow> call_outcome \<times> 's" where
  "ChangeHandle executors change s =
     (case getExecutor executors (chg_TaskType change) of
        None \<Rightarrow> (CallReturns (Some (ExecutorNotFound (chg_TaskType change))), s)
      | Some exe \<Rightarrow>
          if chg_ChangeType change = ChangeCreate then
            (case chg_Task change of
               None \<Rightarrow> (CallPanics, s)
             | Some t \<Rightarrow> exe_Run exe
                 \<lparr>param_TaskKey = chg_TaskKey change, param_BizID = task_BizID t,
                  param_BizType = task_BizType t, param_Payload = task_Payload t\<rparr> s)
          else if chg_ChangeType change = ChangeDelete then exe_Exit exe (chg_TaskKey change) s
          else if chg_ChangeType change = ChangePause then exe_Pause exe (chg_TaskKey change) s
          else if chg_ChangeType change = ChangeResume then exe_Resume exe (chg_TaskKey change) s
          else if chg_ChangeType change = ChangeStop then exe_Stop exe (chg_TaskKey change) s
          else (CallReturns (Some (UnknownChangeType (chg_ChangeType change))), s))"

text \<open>
  \<open>ChangeResult\<close>: for every registered executor a goroutine moves the events of its channel, tagged
  with its type, into one channel with a buffer of 100.  The state is what is left in the channel of
  every executor, an event that a goroutine holds while it waits to send it, and the merged channel.
\<close>

definition resultChBuffer :: nat where "resultChBuffer = 100"

record fan_in =
  sources :: "string \<Rightarrow> TaskExecResult list"
  held :: "string \<Rightarrow> TaskExecResult option"
  resultCh :: "TaskExecResult list"

datatype fan_step = Take string | Forward string | Receive

fun ChangeResult_step :: "'s registry \<Rightarrow> fan_step \<Rightarrow> fan_in \<Rightarrow> fan_in option" where
  "ChangeResult_step executors (Take t) f =
     (case executors t of
        None \<Rightarrow> None
      | Some e \<Rightarrow>
          (case (held f t, sources f t) of
             (None, event # events) \<Rightarrow>
               Some (f\<lparr>sources := (sources f)(t := events),
                       held := (held f)(t \<mapsto> event\<lparr>res_TaskType := t\<rparr>)\<rparr>)
           | _ \<Rightarrow> None))"
| "ChangeResult_step executors (Forward t) f =
     (case held f t of
        None \<Rightarrow> None
      | Some event \<Rightarrow>
          if length (resultCh f) < resultChBuffer
          then Some (f\<lparr>held := (held f)(t := None), resultCh := resultCh f @ [event]\<rparr>) else None)"
| "ChangeResult_step executors Receive f =
     (case resultCh f of [] \<Rightarrow> None | event # events \<Rightarrow> Some (f\<lparr>resultCh := events\<rparr>))"

text \<open>A run of the steps; the second component are the events received, in order.\<close>

fun fan_run :: "'s registry \<Rightarrow> fan_step list \<Rightarrow> fan_in \<Rightarrow> (fan_in \<times> TaskExecResult list) option" where
  "fan_run executors [] f = Some (f, [])"
| "fan_run executors (a # acts) f =
     (case ChangeResult_step executors a f of
        None \<Rightarrow> None
      | Some f1 \<Rightarrow>
          (case fan_run executors acts f1 of
             None \<Rightarrow> None
           | Some (f2, got) \<Rightarrow>
               Some (f2, (if a = Receive then hd (resultCh f) # got else got))))"

section \<open>The contract of an executor\<close>

text \<open>
  What the manager and the worker rely on: \<open>known k s\<close> says that the executor has a task \<open>k\<close>.  A
  command on a task it does not have is refused without an effect; a task that it has accepted is
  listed as running; a command does not touch what is listed of other tasks.
\<close>

locale executor =
  fixes exe :: "'s Interface" and known :: "string \<Rightarrow> 's \<Rightarrow> bool" and status :: "'s \<Rightarrow> string \<rightharpoonup> TaskStatus"
  assumes refuse_Pause: "\<not> known k s \<Longrightarrow> \<exists>e. exe_Pause exe k s = (CallReturns (Some e), s)"
    and refuse_Resume: "\<not> known k s \<Longrightarrow> \<exists>e. exe_Resume exe k s = (CallReturns (Some e), s)"
    and refuse_Stop: "\<not> known k s \<Longrightarrow> \<exists>e. exe_Stop exe k s = (CallReturns (Some e), s)"
    and refuse_Exit: "\<not> known k s \<Longrightarrow> \<exists>e. exe_Exit exe k s = (CallReturns (Some e), s)"
    and run_accepts: "exe_Run exe p s = (CallReturns None, s') \<Longrightarrow>
          known (param_TaskKey p) s' \<and> status s' (param_TaskKey p) = Some TaskStatusRunning"
    and run_frame: "exe_Run exe p s = (out, s') \<Longrightarrow> k \<noteq> param_TaskKey p \<Longrightarrow> status s' k = status s k"
    and pause_frame: "exe_Pause exe j s = (out, s') \<Longrightarrow> k \<noteq> j \<Longrightarrow> status s' k = status s k"
    and resume_frame: "exe_Resume exe j s = (out, s') \<Longrightarrow> k \<noteq> j \<Longrightarrow> status s' k = status s k"
    and stop_frame: "exe_Stop exe j s = (out, s') \<Longrightarrow> k \<noteq> j \<Longrightarrow> status s' k = status s k"
    and exit_frame: "exe_Exit exe j s = (out, s') \<Longrightarrow> k \<noteq> j \<Longrightarrow> status s' k = status s k"

context executor begin

text \<open>A change of an unknown task that is not its creation fails and changes nothing.\<close>

lemma handle_unknown:
  assumes "executors (chg_TaskType c) = Some exe" and "\<not> known (chg_TaskKey c) s"
    and "chg_ChangeType c \<noteq> ChangeCreate"
  shows "\<exists>e. ChangeHandle executors c s = (CallReturns (Some e), s)"
  using assms refuse_Pause refuse_Resume refuse_Stop refuse_Exit
  by (auto simp: ChangeHandle_def getExecutor_def)

lemma handle_frame:
  assumes "executors (chg_TaskType c) = Some exe" and "ChangeHandle executors c s = (out, s')"
    and "k \<noteq> chg_TaskKey c"
  shows "status s' k = status s k"
  using assms
  by (auto simp: ChangeHandle_def getExecutor_def split: if_splits option.splits
      dest: run_frame pause_frame resume_frame stop_frame exit_frame)

lemma handle_create:
  assumes "executors (chg_TaskType c) = Some exe" and "chg_ChangeType c = ChangeCreate"
    and "ChangeHandle executors c s = (CallReturns None, s')"
  shows "known (chg_TaskKey c) s' \<and> status s' (chg_TaskKey c) = Some TaskStatusRunning"
  using assms run_accepts by (fastforce simp: ChangeHandle_def getExecutor_def split: option.splits)

end

section \<open>Facts about the manager\<close>

lemma list_executors_Ok:
  "list_executors es s = Ok ts \<Longrightarrow>
     set ts = {t\<lparr>res_TaskType := ty\<rparr> | t ty. \<exists>e l. (ty, e) \<in> set es \<and> exe_List e s = Ok l \<and> t \<in> set l}"
proof (induction es s arbitrary: ts rule: list_executors.induct)
  case (2 ty e es s)
  then show ?case by (auto split: sum.splits) blast+
qed simp

lemma list_executors_Err_iff:
  "(\<exists>err. list_executors es s = Err err) \<longleftrightarrow>
     (\<exists>ty e err. (ty, e) \<in> set es \<and> exe_List e s = Err err)"
  by (induction es s rule: list_executors.induct) (auto split: sum.splits, (metis Inl_Inr_False)+)

text \<open>The order of the events of one executor: received, in the buffer, held, not taken yet.\<close>

definition pipeline :: "string \<Rightarrow> fan_in \<Rightarrow> TaskExecResult list" where
  "pipeline t f = filter (\<lambda>e. res_TaskType e = t) (resultCh f) @
     (case held f t of None \<Rightarrow> [] | Some e \<Rightarrow> [e]) @
     map (\<lambda>e. e\<lparr>res_TaskType := t\<rparr>) (sources f t)"

definition fan_ok :: "fan_in \<Rightarrow> bool" where
  "fan_ok f \<longleftrightarrow> length (resultCh f) \<le> resultChBuffer \<and>
     (\<forall>t e. held f t = Some e \<longrightarrow> res_TaskType e = t)"

lemma fan_step_ok: "fan_ok f \<Longrightarrow> ChangeResult_step executors a f = Some f1 \<Longrightarrow> fan_ok f1"
  by (cases a) (auto simp: fan_ok_def split: option.splits list.splits if_splits)

lemma fan_step_pipeline:
  assumes "fan_ok f" and "ChangeResult_step executors a f = Some f1"
  shows "(if a = Receive then filter (\<lambda>e. res_TaskType e = t) [hd (resultCh f)] else []) @
    pipeline t f1 = pipeline t f"
  using assms
  by (cases a) (auto simp: pipeline_def fan_ok_def split: option.splits list.splits if_splits)

lemma fan_run_pipeline:
  "fan_ok f \<Longrightarrow> fan_run executors acts f = Some (f', got) \<Longrightarrow>
     fan_ok f' \<and> filter (\<lambda>e. res_TaskType e = t) got @ pipeline t f' = pipeline t f"
proof (induction acts arbitrary: f got)
  case (Cons a acts)
  from Cons.prems(2) obtain f1 got1 where s: "ChangeResult_step executors a f = Some f1"
    "fan_run executors acts f1 = Some (f', got1)"
    "got = (if a = Receive then hd (resultCh f) # got1 else got1)"
    by (auto split: option.splits)
  from Cons.IH [OF fan_step_ok [OF Cons.prems(1) s(1)] s(2)]
    fan_step_pipeline [OF Cons.prems(1) s(1), of t]
  show ?case unfolding s(3) by (cases "a = Receive") (simp_all split: if_splits)
qed simp

section \<open>Properties\<close>

text \<open>
  The merged channel loses, repeats and reorders nothing.  In every run of the forwarding
  goroutines, what has been received of one executor, followed by what is under way, is the
  sequence of events of that executor with its type filled in; the buffer never holds more than a
  hundred events.
\<close>

theorem ChangeResult_preserves_order:
  assumes "fan_run executors acts \<lparr>sources = src, held = (\<lambda>_. None), resultCh = []\<rparr> = Some (f', got)"
  shows "filter (\<lambda>e. res_TaskType e = t) got @ pipeline t f' =
      map (\<lambda>e. e\<lparr>res_TaskType := t\<rparr>) (src t) \<and> length (resultCh f') \<le> resultChBuffer"
proof -
  have "fan_ok \<lparr>sources = src, held = (\<lambda>_. None), resultCh = []\<rparr>" by (simp add: fan_ok_def)
  from fan_run_pipeline [OF this assms, of t] show ?thesis by (simp add: pipeline_def fan_ok_def)
qed

text \<open>
  \<open>List\<close> of the manager is the union of the lists of all registered executors, every task with
  the type under which its executor is registered; it fails exactly if one executor's \<open>List\<close> fails.
\<close>

theorem manager_List_spec:
  assumes "range_order ks executors"
  shows "((\<exists>err. manager_List ks executors s = Err err) \<longleftrightarrow>
      (\<exists>ty e err. executors ty = Some e \<and> exe_List e s = Err err)) \<and>
    (\<forall>ts. manager_List ks executors s = Ok ts \<longrightarrow>
      set ts = {t\<lparr>res_TaskType := ty\<rparr> | t ty. \<exists>e l. executors ty = Some e \<and> exe_List e s = Ok l \<and> t \<in> set l})"
proof -
  have "(ty, e) \<in> set (go_range ks executors) \<longleftrightarrow> executors ty = Some e" for ty e
    using assms by (auto simp: set_go_range range_order_def)
  then show ?thesis
    using list_executors_Err_iff [of "go_range ks executors" s]
      list_executors_Ok [of "go_range ks executors" s]
    by (auto simp: manager_List_def)
qed

section \<open>Witnesses\<close>

definition demo_exe :: "TaskExecResult list Interface" where
  "demo_exe = \<lparr>exe_Run = (\<lambda>p s. (CallReturns None, s)), exe_Pause = (\<lambda>k s. (CallReturns None, s)),
     exe_Resume = (\<lambda>k s. (CallReturns None, s)), exe_Stop = (\<lambda>k s. (CallReturns None, s)),
     exe_Exit = (\<lambda>k s. (CallReturns None, s)), exe_List = Ok\<rparr>"

definition demo_event :: "TaskStatus \<Rightarrow> TaskExecResult" where
  "demo_event st = \<lparr>res_TaskKey = ''a'', res_TaskType = [], res_Status = st, res_Msg = []\<rparr>"

theorem ChangeResult_preserves_order_witness:
  "\<exists>f' got. fan_run [''g'' \<mapsto> demo_exe] [Take ''g'', Forward ''g'', Take ''g'', Receive]
      \<lparr>sources = (\<lambda>t. if t = ''g'' then [demo_event TaskStatusRunning, demo_event TaskStatusPaused]
         else []), held = (\<lambda>_. None), resultCh = []\<rparr> = Some (f', got) \<and>
    map res_Status (filter (\<lambda>e. res_TaskType e = ''g'') got @ pipeline ''g'' f') =
      [TaskStatusRunning, TaskStatusPaused]"
proof -
  let ?src = "\<lambda>t. if t = ''g'' then [demo_event TaskStatusRunning, demo_event TaskStatusPaused] else []"
  obtain f' got where run: "fan_run [''g'' \<mapsto> demo_exe]
      [Take ''g'', Forward ''g'', Take ''g'', Receive]
      \<lparr>sources = ?src, held = (\<lambda>_. None), resultCh = []\<rparr> = Some (f', got)"
    by (simp add: resultChBuffer_def)
  then have "map res_Status (filter (\<lambda>e. res_TaskType e = ''g'') got @ pipeline ''g'' f') =
      [TaskStatusRunning, TaskStatusPaused]"
    unfolding ChangeResult_preserves_order [OF run, of "''g''", THEN conjunct1]
    by (simp add: demo_event_def)
  with run show ?thesis by (intro exI conjI)
qed

theorem manager_List_spec_witness:
  "manager_List [''g''] [''g'' \<mapsto> demo_exe] [demo_event TaskStatusRunning] =
     Ok [(demo_event TaskStatusRunning)\<lparr>res_TaskType := ''g''\<rparr>] \<and>
   {(demo_event TaskStatusRunning)\<lparr>res_TaskType := ''g''\<rparr>} =
     {t\<lparr>res_TaskType := ty\<rparr> | t ty. \<exists>e l. [''g'' \<mapsto> demo_exe] ty = Some e \<and>
        exe_List e [demo_event TaskStatusRunning] = Ok l \<and> t \<in> set l}"
proof -
  have l: "manager_List [''g''] [''g'' \<mapsto> demo_exe] [demo_event TaskStatusRunning] =
     Ok [(demo_event TaskStatusRunning)\<lparr>res_TaskType := ''g''\<rparr>]"
    by (simp add: manager_List_def demo_exe_def)
  have "range_order [''g''] [''g'' \<mapsto> demo_exe]" by (simp add: range_order_def)
  from manager_List_spec [OF this, of "[demo_event TaskStatusRunning]"] l show ?thesis by force
qed

end
