(* ===== verification/Strconv.thy ===== *)
theory Strconv
  imports Float64
begin

text \<open>
  The two functions of \<^verbatim>\<open>strconv\<close> that the code calls: \<open>ParseFloat(s, 64)\<close>, whose error is always
  ignored by the callers, and \<open>FormatFloat(x, 'f', 2, 64)\<close>.
\<close>

definition digit_val :: "char \<Rightarrow> int option" where
  "digit_val c = (let n = of_char c :: int in if 48 \<le> n \<and> n \<le> 57 then Some (n - 48) else None)"

definition lower :: "char \<Rightarrow> int" where
  "lower c = (let n = of_char c :: int in if 65 \<le> n \<and> n \<le> 90 then n + 32 else n)"

definition hex_val :: "char \<Rightarrow> int option" where
  "hex_val c =
     (case digit_val c of
        Some d \<Rightarrow> Some d
      | None \<Rightarrow> (let n = lower c in if 97 \<le> n \<and> n \<le> 102 then Some (n - 87) else None))"

text \<open>
  The digits, underscores and point of the mantissa: the digits read as one number, how many of
  them follow the point, whether there was a digit, and the rest of the input.
\<close>

fun scan_mantissa :: "bool \<Rightarrow> string \<Rightarrow> bool \<Rightarrow> bool \<Rightarrow> int \<Rightarrow> int \<Rightarrow> int \<times> int \<times> bool \<times> string" where
  "scan_mantissa hex [] sawdot sawdigits mant nfrac = (mant, nfrac, sawdigits, [])"
| "scan_mantissa hex (c # cs) sawdot sawdigits mant nfrac =
     (if c = CHR ''_'' then scan_mantissa hex cs sawdot sawdigits mant nfrac
      else if c = CHR ''.'' then
        (if sawdot then (mant, nfrac, sawdigits, c # cs)
         else scan_mantissa hex cs True sawdigits mant nfrac)
      else (case (if hex then hex_val c else digit_val c) of
              Some d \<Rightarrow> scan_mantissa hex cs sawdot True
                          (mant * (if hex then 16 else 10) + d) (if sawdot then nfrac + 1 else nfrac)
            | None \<Rightarrow> (mant, nfrac, sawdigits, c # cs)))"

text \<open>The digits of the exponent, which stop counting at five digits.\<close>

fun scan_exp :: "string \<Rightarrow> int \<Rightarrow> int \<times> string" where
  "scan_exp [] e = (e, [])"
| "scan_exp (c # cs) e =
     (if c = CHR ''_'' then scan_exp cs e
      else (case digit_val c of
              Some d \<Rightarrow> scan_exp cs (if e < 10000 then e * 10 + d else e)
            | None \<Rightarrow> (e, c # cs)))"

text \<open>\<open>underscoreOK\<close>: the last character seen is a digit, an underscore or something else.\<close>

datatype seen = SeenDigit | SeenUnderscore | SeenOther

fun underscore_loop :: "bool \<Rightarrow> seen \<Rightarrow> string \<Rightarrow> bool" where
  "underscore_loop hex i [] = (i \<noteq> SeenUnderscore)"
| "underscore_loop hex i (c # cs) =
     (if (if hex then hex_val c else digit_val c) \<noteq> None then underscore_loop hex SeenDigit cs
      else if c = CHR ''_'' then i = SeenDigit \<and> underscore_loop hex SeenUnderscore cs
      else i \<noteq> SeenUnderscore \<and> underscore_loop hex SeenOther cs)"

definition underscoreOK :: "string \<Rightarrow> bool" where
  "underscoreOK s =
     (let t = (case s of c # cs \<Rightarrow> if c = CHR ''+'' \<or> c = CHR ''-'' then cs else s | [] \<Rightarrow> s)
      in case t of
           CHR ''0'' # c # cs \<Rightarrow>
             (if lower c = 120 then underscore_loop True SeenDigit cs
              else if lower c = 98 \<or> lower c = 111 then underscore_loop False SeenDigit cs
              else underscore_loop False SeenOther t)
         | _ \<Rightarrow> underscore_loop False SeenOther t)"

text \<open>
  \<open>read_float\<close>: sign, mantissa and exponent of base 2 or 10 of a well-formed number that is the
  whole input; \<open>None\<close> is a syntax error.
\<close>

definition read_exp :: "bool \<Rightarrow> string \<Rightarrow> int option" where
  "read_exp hex s =
     (case s of
        [] \<Rightarrow> if hex then None else Some 0
      | c # cs \<Rightarrow>
          if lower c \<noteq> (if hex then 112 else 101) then None
          else let (neg, ds) = (case cs of
                   CHR ''+'' # r \<Rightarrow> (False, r) | CHR ''-'' # r \<Rightarrow> (True, r) | _ \<Rightarrow> (False, cs))
               in case ds of
                    [] \<Rightarrow> None
                  | d # _ \<Rightarrow>
                      if digit_val d = None then None
                      else let (e, rest) = scan_exp ds 0
                           in if rest = [] then Some (if neg then - e else e) else None)"

definition read_float :: "string \<Rightarrow> (bool \<times> bool \<times> int \<times> int) option" where
  "read_float s =
     (let (neg, t) = (case s of
          CHR ''+'' # cs \<Rightarrow> (False, cs) | CHR ''-'' # cs \<Rightarrow> (True, cs) | _ \<Rightarrow> (False, s));
          hex = (case t of CHR ''0'' # x # _ # _ \<Rightarrow> lower x = 120 | _ \<Rightarrow> False);
          (mant, nfrac, sawdigits, rest) =
            scan_mantissa hex (if hex then drop 2 t else t) False False 0 0
      in if \<not> sawdigits then None
         else case read_exp hex rest of
                None \<Rightarrow> None
              | Some e \<Rightarrow>
                  if CHR ''_'' \<in> set s \<and> \<not> underscoreOK s then None
                  else Some (neg, hex, mant, if hex then e - 4 * nfrac else e - nfrac))"

definition special_float :: "string \<Rightarrow> float64 option" where
  "special_float s =
     (let l = map lower s; inf = map of_char ''inf''; infinity = map of_char ''infinity''
      in if l = map of_char ''nan'' then Some NaN
         else if l = inf \<or> l = infinity \<or> l = 43 # inf \<or> l = 43 # infinity then Some (Inf False)
         else if l = 45 # inf \<or> l = 45 # infinity then Some (Inf True)
         else None)"

text \<open>The value that \<open>ParseFloat\<close> returns beside its error: 0 on a syntax error.\<close>

definition ParseFloat :: "string \<Rightarrow> float64" where
  "ParseFloat s =
     (case special_float s of
        Some x \<Rightarrow> x
      | None \<Rightarrow>
          (case read_float s of
             None \<Rightarrow> Fin 0 0
           | Some (neg, hex, mant, e) \<Rightarrow>
               if hex then round_ratio neg (mant * pow2 e) (pow2 (- e))
               else round_ratio neg (mant * 10 ^ nat e) (10 ^ nat (- e))))"

section \<open>FormatFloat\<close>

function digits_of :: "int \<Rightarrow> string" where
  "digits_of n = (if n < 10 then [char_of (48 + n)] else digits_of (n div 10) @ [char_of (48 + n mod 10)])"
  by pat_completeness auto
termination
  by (relation "measure nat") auto

declare digits_of.simps [simp del]

text \<open>\<open>FormatFloat(x, 'f', 2, 64)\<close>: the exact value in hundredths, rounded to nearest even.\<close>

definition FormatFloat2 :: "float64 \<Rightarrow> string" where
  "FormatFloat2 x =
     (case x of
        NaN \<Rightarrow> ''NaN''
      | Inf s \<Rightarrow> if s then ''-Inf'' else ''+Inf''
      | Fin m e \<Rightarrow>
          let n = div_even (\<bar>m\<bar> * 100 * pow2 e) (pow2 (- e))
          in (if m < 0 then ''-'' else []) @ digits_of (n div 100) @ ''.'' @
             [char_of (48 + n mod 100 div 10), char_of (48 + n mod 10)])"

end
