(* ===== verification/Resource.thy ===== *)
theory Resource
  imports Components Strconv
begin

text \<open>
  \<^verbatim>\<open>core/model/resource.go\<close> and \<^verbatim>\<open>core/worker/metadata.go\<close>: what a worker reports of its machine, how
  the scheduler reads it, and the stains that keep tasks away from a worker.
\<close>

definition CpuUsageKey :: string where "CpuUsageKey = ''rs_cpu_usage''"
definition MemTotalKey :: string where "MemTotalKey = ''rs_mem_total''"
definition MemUsedKey :: string where "MemUsedKey = ''rs_mem_used''"
definition MemUsageKey :: string where "MemUsageKey = ''rs_mem_usage''"
definition GoGcPauseKey :: string where "GoGcPauseKey = ''rs_go_gc_pause''"
definition GoGcCountKey :: string where "GoGcCountKey = ''rs_go_gc_count''"
definition GoGoroutineKey :: string where "GoGoroutineKey = ''rs_go_goroutine''"
definition stainPressureCPU :: string where "stainPressureCPU = ''stain_pressure_cpu''"
definition stainPressureMem :: string where "stainPressureMem = ''stain_pressure_mem''"
definition stainDisable :: string where "stainDisable = ''stain_disable''"

lemmas key_values [status_defs] =
  CpuUsageKey_def MemTotalKey_def MemUsedKey_def MemUsageKey_def GoGcPauseKey_def GoGcCountKey_def
  GoGoroutineKey_def stainPressureCPU_def stainPressureMem_def stainDisable_def

lemma key_distinct:
  "distinct [CpuUsageKey, MemTotalKey, MemUsedKey, MemUsageKey, GoGcPauseKey, GoGcCountKey,
     GoGoroutineKey, stainPressureCPU, stainPressureMem, stainDisable, ''worker_id'', []]"
  by (simp add: status_defs)

lemmas key_neqs [simp] =
  key_distinct [unfolded distinct_unfold]
  key_distinct [THEN distinct_reversed, unfolded rev.simps append.simps distinct_unfold]

lemma key_prefixes [simp]:
  "HasPrefix CpuUsageKey ''rs_''" "HasPrefix MemTotalKey ''rs_''" "HasPrefix MemUsedKey ''rs_''"
  "HasPrefix MemUsageKey ''rs_''" "HasPrefix GoGcPauseKey ''rs_''" "HasPrefix GoGcCountKey ''rs_''"
  "HasPrefix GoGoroutineKey ''rs_''"
  "HasPrefix stainPressureCPU ''stain_''" "HasPrefix stainPressureMem ''stain_''"
  "HasPrefix stainDisable ''stain_''"
  "\<not> HasPrefix CpuUsageKey ''stain_''" "\<not> HasPrefix MemUsageKey ''stain_''"
  "\<not> HasPrefix GoGoroutineKey ''stain_''"
  by (simp_all add: status_defs)

text \<open>
  \<open>GenerateResourceUsage\<close> takes what the probes return: the CPU percentages, the total and used
  memory in bytes with the used percentage, and the counters of the run time.  An empty list of
  percentages without an error would make the code panic.
\<close>

definition GenerateResourceUsage ::
    "float64 list result \<Rightarrow> (int \<times> int \<times> float64) result \<Rightarrow> int \<Rightarrow> int \<Rightarrow> int \<Rightarrow>
     (string \<rightharpoonup> string) result run" where
  "GenerateResourceUsage cpu mem pauseTotalNs numGC numGoroutine =
     (case cpu of
        Inl err \<Rightarrow> Return (Err (Wrapped ''cpu'' err))
      | Inr cpuPercent \<Rightarrow>
          (case mem of
             Inl err \<Rightarrow> Return (Err (Wrapped ''mem'' err))
           | Inr (tot, used, usedPercent) \<Rightarrow>
               (case cpuPercent of
                  [] \<Rightarrow> Panic
                | cpu0 # _ \<Rightarrow> Return (Ok
                    [CpuUsageKey \<mapsto> FormatFloat2 cpu0,
                     MemTotalKey \<mapsto> FormatFloat2 (float_div (float_of_int tot) (float_of_int (1024 * 1024 * 1024))),
                     MemUsedKey \<mapsto> FormatFloat2 (float_div (float_of_int used) (float_of_int (1024 * 1024 * 1024))),
                     MemUsageKey \<mapsto> FormatFloat2 usedPercent,
                     GoGcPauseKey \<mapsto> FormatFloat2 (float_of_int pauseTotalNs),
                     GoGcCountKey \<mapsto> FormatFloat2 (float_of_int numGC),
                     GoGoroutineKey \<mapsto> FormatFloat2 (float_of_int numGoroutine)]))))"

text \<open>
  The loops of \<open>ParseResourceUsage\<close> and \<open>Parsestain\<close> copy the entries whose key has a prefix; the
  result does not depend on the order in which the map is visited.
\<close>

definition ParseResourceUsage :: "(string \<rightharpoonup> string) \<Rightarrow> (string \<rightharpoonup> float64)" where
  "ParseResourceUsage md =
     (\<lambda>key. if \<not> HasPrefix key ''rs_'' then None else map_option ParseFloat (md key))"

definition Parsestain :: "(string \<rightharpoonup> string) \<Rightarrow> (string \<rightharpoonup> string)" where
  "Parsestain md = (\<lambda>key. if \<not> HasPrefix key ''stain_'' then None else md key)"

definition usage_of :: "(string \<rightharpoonup> float64) \<Rightarrow> string \<Rightarrow> float64" where
  "usage_of u k = (case u k of None \<Rightarrow> Fin 0 0 | Some x \<Rightarrow> x)"

definition GenerateStain :: "(string \<rightharpoonup> string) \<Rightarrow> bool \<Rightarrow> (string \<rightharpoonup> string) result" where
  "GenerateStain ru disable =
     (let u = ParseResourceUsage ru;
          stain = Map.empty;
          stain1 = (if float_less (float_of_int 85) (usage_of u MemUsageKey)
                    then stain(stainPressureMem \<mapsto> ''high'') else stain);
          stain2 = (if float_less (float_of_int 85) (usage_of u MemUsageKey)
                    then stain1(stainPressureCPU \<mapsto> ''high'') else stain1);
          stain3 = (if disable then stain2(stainDisable \<mapsto> ''true'') else stain2)
      in Ok stain3)"

section \<open>Worker metadata\<close>

definition generateWorkerDesc :: "string \<Rightarrow> (string \<rightharpoonup> string)" where
  "generateWorkerDesc wid = [''worker_id'' \<mapsto> wid]"

text \<open>The three loops that copy one map after the other into the metadata.\<close>

definition generateInstanceMetadata ::
    "string \<Rightarrow> (string \<rightharpoonup> string) result \<Rightarrow> (string \<rightharpoonup> string) result" where
  "generateInstanceMetadata wid usage =
     (case usage of
        Inl err \<Rightarrow> Err err
      | Inr ru \<Rightarrow>
          (case GenerateStain ru False of
             Inl err \<Rightarrow> Err err
           | Inr stain \<Rightarrow> Ok (((Map.empty ++ generateWorkerDesc wid) ++ ru) ++ stain)))"

section \<open>Properties\<close>

lemma Parsestain_simps:
  "Parsestain Map.empty = Map.empty"
  "Parsestain (md(k \<mapsto> v)) =
     (if HasPrefix k ''stain_'' then (Parsestain md)(k \<mapsto> v) else Parsestain md)"
  by (auto simp: Parsestain_def fun_eq_iff)

lemma GenerateStain_dom:
  "GenerateStain ru False = Ok stain \<Longrightarrow> stain k \<noteq> None \<Longrightarrow>
     k = stainPressureCPU \<or> k = stainPressureMem"
  by (auto simp: GenerateStain_def Let_def split: if_splits)

lemma GenerateStain_Ok: "\<exists>stain. GenerateStain ru disable = Ok stain"
  by (simp add: GenerateStain_def Let_def)

text \<open>
  The stain for CPU pressure is decided by the memory usage.  A worker gets it exactly when
  its memory usage exceeds 85, together with the stain for memory pressure and whatever its CPU
  usage is; so a worker whose CPU is saturated is not marked.
\<close>

theorem cpu_stain_follows_memory:
  "\<exists>stain. GenerateStain ru disable = Ok stain \<and>
     (stain stainPressureCPU = Some ''high'' \<longleftrightarrow>
        float_less (float_of_int 85) (usage_of (ParseResourceUsage ru) MemUsageKey)) \<and>
     stain stainPressureCPU = stain stainPressureMem \<and>
     GenerateStain (ru(CpuUsageKey \<mapsto> cpu)) disable = Ok stain"
proof -
  have "usage_of (ParseResourceUsage (ru(CpuUsageKey \<mapsto> cpu))) MemUsageKey =
      usage_of (ParseResourceUsage ru) MemUsageKey"
    by (simp add: usage_of_def ParseResourceUsage_def)
  then show ?thesis by (simp add: GenerateStain_def Let_def)
qed

text \<open>
  The metadata that a worker registers identifies it and keeps what it measured: the worker id
  is the one given, every measured value is there unless it carries the name of a stain, and the
  stains that the scheduler reads back are those of \<open>GenerateStain\<close>.
\<close>

theorem generateInstanceMetadata_spec:
  assumes "\<And>k. ru k \<noteq> None \<Longrightarrow> HasPrefix k ''rs_''"
  shows "\<exists>md. generateInstanceMetadata wid (Ok ru) = Ok md \<and> md ''worker_id'' = Some wid \<and>
    (\<forall>k. ru k \<noteq> None \<longrightarrow> md k = ru k) \<and>
    Ok (Parsestain md) = GenerateStain ru False \<and>
    ParseResourceUsage md = ParseResourceUsage ru"
proof -
  obtain stain where st: "GenerateStain ru False = Ok stain"
    using GenerateStain_Ok by blast
  have "HasPrefix k ''stain_'' \<and> \<not> HasPrefix k ''rs_'' \<and> k \<noteq> ''worker_id''" if "stain k \<noteq> None" for k
    using GenerateStain_dom [OF st that] by (auto simp: stainPressureCPU_def stainPressureMem_def)
  then have sp: "stain k = Some v \<Longrightarrow> HasPrefix k ''stain_''"
    "HasPrefix k ''rs_'' \<Longrightarrow> stain k = None" and w2: "stain ''worker_id'' = None" for k v
    by (metis option.distinct(1))+
  have rp: "\<not> HasPrefix k ''stain_''" if "HasPrefix k ''rs_''" for k
    using that by (cases k) (auto simp: HasPrefix_iff)
  let ?md = "((Map.empty ++ generateWorkerDesc wid) ++ ru) ++ stain"
  have w: "ru ''worker_id'' = None" using assms [of "''worker_id''"] by fastforce
  have md: "?md k = ru k" if "HasPrefix k ''rs_''" for k
    using sp(2) [OF that] w that
    by (auto simp: map_add_def generateWorkerDesc_def split: option.splits)
  have "?md ''worker_id'' = Some wid"
    using w w2 by (simp add: map_add_def generateWorkerDesc_def)
  moreover have "Parsestain ?md = stain"
  proof
    fix k
    show "Parsestain ?md k = stain k"
      using sp(1) [of k] rp [of k] assms [of k]
      by (cases "stain k"; cases "ru k")
        (auto simp: Parsestain_def map_add_def generateWorkerDesc_def)
  qed
  moreover have "ParseResourceUsage ?md = ParseResourceUsage ru"
    using md by (auto simp: ParseResourceUsage_def)
  ultimately show ?thesis
    using md assms st by (intro exI [of _ ?md]) (auto simp: generateInstanceMetadata_def)
qed

theorem generateInstanceMetadata_spec_witness:
  "\<exists>md. generateInstanceMetadata ''w1'' (Ok [MemUsageKey \<mapsto> ''40.00'']) = Ok md \<and>
     md ''worker_id'' = Some ''w1''"
proof -
  have "HasPrefix k ''rs_''" if "[MemUsageKey \<mapsto> ''40.00''] k \<noteq> None" for k
    using that by (cases "k = MemUsageKey") auto
  from generateInstanceMetadata_spec [OF this] show ?thesis by blast
qed

end
