(* ===== verification/Worker.thy ===== *)
theory Worker
  imports Infomer Executor Resource
begin

text \<open>
  \<^verbatim>\<open>core/worker\<close>: the worker process (\<^verbatim>\<open>worker.go\<close>, \<^verbatim>\<open>metadata.go\<close>, \<^verbatim>\<open>option.go\<close>).  It registers with
  service discovery, reports its load, hands the changes of the infomer to the executors and shuts
  down in order.
\<close>

section \<open>Options\<close>

record options =
  reportResourceInterval :: time
  resync_interval :: time
  shutdownTimeout :: time
  logger :: nat \<comment> \<open>which logger\<close>

datatype Option =
    WithLogger nat
  | WithShutdownTimeout time
  | WithReportResourceInterval time
  | WithTriggerResync time

fun apply_option :: "Option \<Rightarrow> options \<Rightarrow> options" where
  "apply_option (WithLogger l) opt = opt\<lparr>logger := l\<rparr>"
| "apply_option (WithShutdownTimeout timeout) opt = opt\<lparr>shutdownTimeout := timeout\<rparr>"
| "apply_option (WithReportResourceInterval interval) opt = opt\<lparr>reportResourceInterval := interval\<rparr>"
| "apply_option (WithTriggerResync interval) opt = opt\<lparr>resync_interval := interval\<rparr>"

text \<open>\<open>global\<close> is the logger that \<open>log.Global()\<close> returns.\<close>

definition newOptions :: "nat \<Rightarrow> Option list \<Rightarrow> options" where
  "newOptions global opts = foldl (\<lambda>opt f. apply_option f opt)
     \<lparr>reportResourceInterval = 10 * second, resync_interval = 15 * second,
      shutdownTimeout = 180 * second, logger = global\<rparr> opts"

section \<open>State\<close>

text \<open>
  An instance that is passed to service discovery travels with the contents of its metadata.
\<close>

record sent =
  sent_Ip :: string
  sent_Port :: "64 word"
  sent_Healthy :: bool
  sent_Enable :: bool
  sent_Metadata :: "string \<rightharpoonup> string"

record 'd Discover =
  GetAvailableInstances :: "'d \<Rightarrow> Instance list result \<times> 'd"
  UpdateInstance :: "sent \<Rightarrow> 'd \<Rightarrow> error option \<times> 'd"
  Register :: "sent \<Rightarrow> 'd \<Rightarrow> bool result \<times> 'd"
  UnRegister :: "sent \<Rightarrow> 'd \<Rightarrow> bool result \<times> 'd"

record Worker =
  wid :: string
  wip :: string
  wport :: "64 word"

text \<open>
  A service discovery that behaves like \<open>disc\<close> and keeps the list of the calls, for statements about
  what the worker calls.
\<close>

datatype discover_call =
  CallList | CallUpdate sent | CallRegister sent | CallUnRegister sent

definition recorded :: "discover_call \<Rightarrow> ('d \<Rightarrow> 'x \<times> 'd) \<Rightarrow>
    'd \<times> discover_call list \<Rightarrow> 'x \<times> 'd \<times> discover_call list" where
  "recorded c f dl = (let (x, d1) = f (fst dl) in (x, d1, snd dl @ [c]))"

definition recording :: "'d Discover \<Rightarrow> ('d \<times> discover_call list) Discover" where
  "recording disc = \<lparr>GetAvailableInstances = recorded CallList (GetAvailableInstances disc),
     UpdateInstance = (\<lambda>m. recorded (CallUpdate m) (UpdateInstance disc m)),
     Register = (\<lambda>m. recorded (CallRegister m) (Register disc m)),
     UnRegister = (\<lambda>m. recorded (CallUnRegister m) (UnRegister disc m))\<rparr>"

lemmas recording_defs = recording_def recorded_def

definition announce :: "Worker \<Rightarrow> bool \<Rightarrow> (string \<rightharpoonup> string) \<Rightarrow> sent" where
  "announce w enable md = \<lparr>sent_Ip = wip w, sent_Port = wport w, sent_Healthy = True,
     sent_Enable = enable, sent_Metadata = md\<rparr>"

section \<open>Registration\<close>

text \<open>
  The loop of \<open>setInstanceID\<close>; every round that starts without an id sleeps and asks for the list of
  instances, in which the first one with the worker's address gives the id.
\<close>

definition own_instance :: "Worker \<Rightarrow> Instance list \<Rightarrow> Instance option" where
  "own_instance w instances = find (\<lambda>i. Ip i = wip w \<and> Port i = wport w) instances"

fun setInstanceID_loop :: "'d Discover \<Rightarrow> nat \<Rightarrow> Worker \<Rightarrow> 'd \<Rightarrow> Worker \<times> 'd" where
  "setInstanceID_loop disc 0 w d = (w, d)"
| "setInstanceID_loop disc (Suc n) w d =
     (if wid w \<noteq> [] then (w, d)
      else case GetAvailableInstances disc d of
        (Inl err, d1) \<Rightarrow> setInstanceID_loop disc n w d1
      | (Inr instances, d1) \<Rightarrow>
          setInstanceID_loop disc n
            (case own_instance w instances of None \<Rightarrow> w | Some i \<Rightarrow> w\<lparr>wid := InstanceId i\<rparr>) d1)"

definition setInstanceID :: "'d Discover \<Rightarrow> Worker \<Rightarrow> 'd \<Rightarrow> error option \<times> Worker \<times> 'd" where
  "setInstanceID disc w d =
     (let (w1, d1) = setInstanceID_loop disc 10 w d
      in if wid w1 = [] then (Some InstanceIdNotFound, w1, d1) else (None, w1, d1))"

definition worker_init ::
    "'d Discover \<Rightarrow> (string \<rightharpoonup> string) result \<Rightarrow> Worker \<Rightarrow> 'd \<Rightarrow> error option \<times> Worker \<times> 'd" where
  "worker_init disc usage w d =
     (case generateInstanceMetadata (wid w) usage of
        Inl err \<Rightarrow> (Some (Wrapped ''generateInstanceMetadata'' err), w, d)
      | Inr md \<Rightarrow>
          (case Register disc (announce w True md) d of
             (Inl err, d1) \<Rightarrow> (Some (Wrapped ''register instance'' err), w, d1)
           | (Inr success, d1) \<Rightarrow>
               if \<not> success then (Some RegisterFailed, w, d1)
               else if wid w = [] then
                 (case setInstanceID disc w d1 of
                    (Some err, w1, d2) \<Rightarrow> (Some (Wrapped ''setInstanceID'' err), w1, d2)
                  | (None, w1, d2) \<Rightarrow> (None, w1, d2))
               else (None, w, d1)))"

text \<open>The function that \<open>init\<close> returns and that \<open>Run\<close> defers.\<close>

definition worker_clear :: "'d Discover \<Rightarrow> Worker \<Rightarrow> 'd \<Rightarrow> error option \<times> 'd" where
  "worker_clear disc w d =
     (case UnRegister disc \<lparr>sent_Ip = wip w, sent_Port = wport w, sent_Healthy = False,
             sent_Enable = False, sent_Metadata = Map.empty\<rparr> d of
        (Inl err, d1) \<Rightarrow> (Some err, d1) | (Inr ok, d1) \<Rightarrow> (None, d1))"

section \<open>Reporting the load\<close>

text \<open>
  One iteration of \<open>runResourceUsageReporter\<close>: how long it sleeps, and the new state of discovery;
  \<open>rnd\<close> is the random number below 500.
\<close>

definition runResourceUsageReporter ::
    "'d Discover \<Rightarrow> options \<Rightarrow> int \<Rightarrow> (string \<rightharpoonup> string) result \<Rightarrow> Worker \<Rightarrow> 'd \<Rightarrow> time \<times> 'd" where
  "runResourceUsageReporter disc opts rnd usage w d =
     (case generateInstanceMetadata (wid w) usage of
        Inl err \<Rightarrow> (0, d)
      | Inr md \<Rightarrow>
          (reportResourceInterval opts + rnd * millisecond,
           snd (UpdateInstance disc (announce w True md) d)))"

section \<open>Carrying out changes\<close>

text \<open>One iteration of \<open>runChangeSyncer\<close> on the queue of changes and the state of the executors.\<close>

datatype syncer_outcome = SyncWaits | SyncStops | SyncBlocks | SyncPanics | SyncDone "error option"

definition runChangeSyncer ::
    "'s registry \<Rightarrow> Change Typed \<Rightarrow> 's \<Rightarrow> syncer_outcome \<times> Change Typed \<times> 's" where
  "runChangeSyncer executors q s =
     (case WaitChange q of
        (Blocked, q1) \<Rightarrow> (SyncWaits, q1, s)
      | (Shutdown, q1) \<Rightarrow> (SyncStops, q1, s)
      | (GetPanic, q1) \<Rightarrow> (SyncPanics, q1, s)
      | (Item change, q1) \<Rightarrow>
          (case ChangeHandle executors change s of
             (CallBlocks, s1) \<Rightarrow> (SyncBlocks, q1, s1)
           | (CallPanics, s1) \<Rightarrow> (SyncPanics, q1, s1)
           | (CallReturns (Some err), s1) \<Rightarrow> (SyncDone (Some err), JumpChange change q1, s1)
           | (CallReturns None, s1) \<Rightarrow> (SyncDone None, q1, s1)))"

section \<open>Facts\<close>

lemma shutdown_stain: "GenerateStain Map.empty True = Ok [stainDisable \<mapsto> ''true'']"
proof -
  have "\<not> float_less (float_of_int 85) (Fin 0 0)" by code_simp
  then show ?thesis by (simp add: GenerateStain_def ParseResourceUsage_def usage_of_def Let_def)
qed

lemma own_instance_Some:
  "own_instance w is = Some i \<Longrightarrow> i \<in> set is \<and> Ip i = wip w \<and> Port i = wport w"
  by (auto simp: own_instance_def find_Some_iff)

lemma setInstanceID_loop_frame:
  "wip (fst (setInstanceID_loop disc n w d)) = wip w \<and> wport (fst (setInstanceID_loop disc n w d)) = wport w"
  by (induction disc n w d rule: setInstanceID_loop.induct)
    (auto split: prod.splits sum.splits option.splits)

lemma own_instance_wid [simp]: "own_instance (w\<lparr>wid := k\<rparr>) = own_instance w"
  by (simp add: own_instance_def fun_eq_iff)

lemma setInstanceID_loop_done: "wid w \<noteq> [] \<Longrightarrow> setInstanceID_loop disc n w d = (w, d)"
  by (cases n) simp_all

text \<open>An id that the loop sets is the id of an instance that was listed with the worker's address.\<close>

lemma setInstanceID_loop_id:
  "wid w = [] \<Longrightarrow> setInstanceID_loop disc n w d = (w1, d1) \<Longrightarrow> wid w1 \<noteq> [] \<Longrightarrow>
     \<exists>e is e' i. GetAvailableInstances disc e = (Ok is, e') \<and> own_instance w is = Some i \<and>
       wid w1 = InstanceId i"
proof (induction n arbitrary: d)
  case (Suc n)
  obtain r d2 where get: "GetAvailableInstances disc d = (r, d2)" by fastforce
  show ?case
  proof (cases "\<exists>is i. r = Inr is \<and> own_instance w is = Some i \<and> InstanceId i \<noteq> []")
    case True
    then obtain "is" i where i: "r = Inr is" "own_instance w is = Some i" "InstanceId i \<noteq> []" by blast
    with Suc.prems get have "w1 = w\<lparr>wid := InstanceId i\<rparr>" by (simp add: setInstanceID_loop_done)
    with i get show ?thesis by auto
  next
    case False
    have same: "w\<lparr>wid := []\<rparr> = w" using Suc.prems(1) by simp
    from False Suc.prems get have "setInstanceID_loop disc n w d2 = (w1, d1)"
      by (auto simp: same split: sum.splits option.splits)
    with Suc.IH Suc.prems(1,3) show ?thesis by blast
  qed
qed simp

section \<open>Properties\<close>

text \<open>
  One iteration of the change syncer.  It takes the oldest waiting change; if the executor
  accepts it, its task stays reserved, so that every further change of the task is refused until a
  result is reported; if the executor or the manager returns an error, the task is released at once.
\<close>

theorem runChangeSyncer_spec:
  assumes "queue_inv change_key q" and "elems (queue q) = c # cs"
    and "runChangeSyncer executors q s = (SyncDone err, q', s')"
  shows "elems (queue q') = cs \<and> ChangeHandle executors c s = (CallReturns err, s') \<and>
    processing q' = (if err = None then insert (GetUniKey c) (processing q)
      else processing q - {GetUniKey c}) \<and>
    (\<forall>d. chg_TaskKey d = chg_TaskKey c \<longrightarrow> Exist change_key d q' = (err = None)) \<and>
    queue_inv change_key q'"
proof -
  obtain o1 q1 where g: "Get change_key q = (o1, q1)" by fastforce
  with typed.get_Cons [OF assms(1,2)] have q1: "o1 = Item c" "elems (queue q1) = cs"
    "processing q1 = insert (GetUniKey c) (processing q)" by (auto simp: getKey_def)
  have inv: "queue_inv change_key q1" using typed.invar_get [OF assms(1)] g by simp
  have fin: "elems (queue (Done change_key c q1)) = cs" "queue_inv change_key (Done change_key c q1)"
    "processing (Done change_key c q1) = processing q - {GetUniKey c}"
    using typed.finish_pending [OF inv, of c] typed.invar_finish [OF inv, of c] q1
    by (auto simp: Done_processing getKey_def)
  have new: "GetUniKey c \<notin> GetUniKey ` set cs"
    using assms(1,2) by (auto simp: queue_inv_def getKey_def)
  have ex: "Exist change_key d p \<longleftrightarrow> GetUniKey d \<in> GetUniKey ` set cs \<union> processing p"
    if "queue_inv change_key p" "elems (queue p) = cs" for d p
    using typed.exist_iff [OF that(1), of d] that(2) by (simp add: getKey_def)
  have key: "GetUniKey d = GetUniKey c" if "chg_TaskKey d = chg_TaskKey c" for d
    using that by simp
  show ?thesis
  proof (cases err)
    case None
    with assms(3) g q1 have "q' = q1" "ChangeHandle executors c s = (CallReturns None, s')"
      by (auto simp: runChangeSyncer_def WaitChange_def split: call_outcome.splits option.splits prod.splits)
    with None q1 inv ex [OF inv q1(2)] key show ?thesis by (metis UnI2 insertI1)
  next
    case (Some e)
    with assms(3) g q1 have "q' = Done change_key c q1" "ChangeHandle executors c s = (CallReturns err, s')"
      by (auto simp: runChangeSyncer_def WaitChange_def JumpChange_def
          split: call_outcome.splits option.splits prod.splits)
    with Some fin new ex [OF fin(2,1)] key show ?thesis by (metis DiffE UnE insertI1 option.distinct(1))
  qed
qed

text \<open>
  A worker without an id takes it from service discovery.  If \<open>setInstanceID\<close> succeeds, the id
  is that of the first instance with the worker's address in a list that discovery has returned, and
  is not empty; otherwise the error is reported and the worker has no id; address and port never
  change.
\<close>

theorem setInstanceID_spec:
  assumes "wid w = []" and "setInstanceID disc w d = (err, w1, d1)"
  shows "wip w1 = wip w \<and> wport w1 = wport w \<and>
    (case err of
       None \<Rightarrow> wid w1 \<noteq> [] \<and> (\<exists>e is e' i. GetAvailableInstances disc e = (Ok is, e') \<and>
         own_instance w is = Some i \<and> i \<in> set is \<and> Ip i = wip w \<and> Port i = wport w \<and>
         wid w1 = InstanceId i)
     | Some e \<Rightarrow> e = InstanceIdNotFound \<and> wid w1 = [])"
proof -
  obtain w2 d2 where loop: "setInstanceID_loop disc 10 w d = (w2, d2)" by fastforce
  have "w1 = w2" "err = (if wid w2 = [] then Some InstanceIdNotFound else None)"
    using assms(2) by (auto simp: setInstanceID_def loop Let_def split: if_splits)
  moreover have "wip w2 = wip w \<and> wport w2 = wport w"
    using setInstanceID_loop_frame [of disc 10 w d] loop by simp
  moreover have "wid w2 \<noteq> [] \<Longrightarrow> \<exists>e is e' i. GetAvailableInstances disc e = (Ok is, e') \<and>
         own_instance w is = Some i \<and> wid w2 = InstanceId i"
    using setInstanceID_loop_id [OF assms(1) loop] by blast
  ultimately show ?thesis using own_instance_Some [of w] by (simp split: option.splits) metis
qed

text \<open>
  The reporter undoes the marking.  Its next report after the shutdown has begun announces the
  instance as enabled again and without the disable stain; and while the load cannot be measured,
  it reports nothing and does not sleep.
\<close>

theorem reporter_reenables:
  "(\<forall>ru. ru stainDisable = None \<longrightarrow> (\<exists>md. md stainDisable = None \<and>
     runResourceUsageReporter disc opts rnd (Ok ru) w d =
       (reportResourceInterval opts + rnd * millisecond, snd (UpdateInstance disc
         \<lparr>sent_Ip = wip w, sent_Port = wport w, sent_Healthy = True, sent_Enable = True,
          sent_Metadata = md\<rparr> d)))) \<and>
   runResourceUsageReporter disc opts rnd (Err e) w d = (0, d)"
proof (intro conjI allI impI)
  fix ru :: "string \<rightharpoonup> string" assume ru: "ru stainDisable = None"
  obtain stain where st: "GenerateStain ru False = Ok stain" using GenerateStain_Ok by blast
  let ?md = "((Map.empty ++ generateWorkerDesc (wid w)) ++ ru) ++ stain"
  have "stain stainDisable = None" using GenerateStain_dom [OF st, of stainDisable] by fastforce
  with ru have "?md stainDisable = None" by (simp add: map_add_def generateWorkerDesc_def)
  moreover have "generateInstanceMetadata (wid w) (Ok ru) = Ok ?md"
    by (simp add: generateInstanceMetadata_def st)
  ultimately show "\<exists>md. md stainDisable = None \<and>
     runResourceUsageReporter disc opts rnd (Ok ru) w d =
       (reportResourceInterval opts + rnd * millisecond, snd (UpdateInstance disc
         \<lparr>sent_Ip = wip w, sent_Port = wport w, sent_Healthy = True, sent_Enable = True,
          sent_Metadata = md\<rparr> d))"
    by (intro exI [of _ ?md]) (simp add: runResourceUsageReporter_def announce_def)
qed (simp add: runResourceUsageReporter_def generateInstanceMetadata_def)

section \<open>Witnesses\<close>

definition demo_change :: Change where
  "demo_change = \<lparr>chg_TaskKey = ''a'', chg_TaskType = ''g'', chg_ChangeType = ChangePause, chg_Task = None\<rparr>"

definition demo_waiting :: "Change Typed" where
  "demo_waiting = snd (Add change_key demo_change (NewTyped grow2 0))"

lemma demo_waiting_facts:
  "queue_inv change_key demo_waiting" "elems (queue demo_waiting) = [demo_change]"
  "processing demo_waiting = {}"
proof -
  show "queue_inv change_key demo_waiting"
    unfolding demo_waiting_def NewTyped_eq by (intro Add_inv newQueue_inv grow2_ge)
qed (simp_all add: demo_waiting_def newQueue_simps queue_defs getKey_def)

theorem runChangeSyncer_spec_witness:
  "\<exists>q'. runChangeSyncer [''g'' \<mapsto> demo_exe] demo_waiting [] = (SyncDone None, q', []) \<and>
     processing q' = {GetUniKey demo_change} \<and> Exist change_key demo_change q'"
proof -
  obtain q' where q': "Get change_key demo_waiting = (Item demo_change, q')"
    using typed.get_Cons [OF demo_waiting_facts(1,2)] by (metis prod.collapse)
  have "ChangeHandle [''g'' \<mapsto> demo_exe] demo_change [] = (CallReturns None, [])"
    by (simp add: ChangeHandle_def getExecutor_def demo_change_def demo_exe_def)
  then have run: "runChangeSyncer [''g'' \<mapsto> demo_exe] demo_waiting [] = (SyncDone None, q', [])"
    by (simp add: runChangeSyncer_def WaitChange_def q')
  from runChangeSyncer_spec [OF demo_waiting_facts(1,2) run] run demo_waiting_facts(3)
  show ?thesis by auto
qed

definition demo_Discover :: "sent list Discover" where
  "demo_Discover = \<lparr>GetAvailableInstances = (\<lambda>d. (Ok [\<lparr>InstanceId = ''i-7'', Ip = ''10.0.0.1'', Port = 80,
       Healthy = True, Enable = True, Metadata = None\<rparr>], d)),
     UpdateInstance = (\<lambda>i d. (None, d @ [i])), Register = (\<lambda>i d. (Ok True, d @ [i])),
     UnRegister = (\<lambda>i d. (Ok True, d))\<rparr>"

definition demo_Worker :: Worker where
  "demo_Worker = \<lparr>wid = [], wip = ''10.0.0.1'', wport = 80\<rparr>"

theorem setInstanceID_spec_witness:
  "\<exists>w1. setInstanceID demo_Discover demo_Worker [] = (None, w1, []) \<and> wid w1 \<noteq> [] \<and> wip w1 = ''10.0.0.1''"
proof -
  have "setInstanceID_loop demo_Discover 10 demo_Worker [] = (demo_Worker\<lparr>wid := ''i-7''\<rparr>, [])"
    by (simp add: eval_nat_numeral demo_Discover_def demo_Worker_def own_instance_def)
  then obtain w1 where w1: "setInstanceID demo_Discover demo_Worker [] = (None, w1, [])"
    by (simp add: setInstanceID_def)
  have "wid demo_Worker = []" by (simp add: demo_Worker_def)
  from setInstanceID_spec [OF this w1] have "wip w1 = wip demo_Worker \<and> wid w1 \<noteq> []"
    unfolding option.case by blast
  moreover have "wip demo_Worker = ''10.0.0.1''" by (simp add: demo_Worker_def)
  ultimately show ?thesis using w1 by metis
qed

theorem reporter_reenables_witness:
  "\<exists>md. md stainDisable = None \<and>
     map (\<lambda>i. (sent_Enable i, sent_Metadata i)) (snd (runResourceUsageReporter demo_Discover
       (newOptions 0 []) 3 (Ok [MemUsageKey \<mapsto> ''40.00'']) demo_Worker [])) = [(True, md)]"
proof -
  have none: "[MemUsageKey \<mapsto> ''40.00''] stainDisable = None" by simp
  obtain md where md: "md stainDisable = None"
    "snd (runResourceUsageReporter demo_Discover (newOptions 0 []) 3 (Ok [MemUsageKey \<mapsto> ''40.00'']) demo_Worker []) =
       snd (UpdateInstance demo_Discover \<lparr>sent_Ip = wip demo_Worker, sent_Port = wport demo_Worker,
         sent_Healthy = True, sent_Enable = True, sent_Metadata = md\<rparr> [])"
    using reporter_reenables [where disc = demo_Discover and opts = "newOptions 0 []" and rnd = 3
        and w = demo_Worker and d = "[]" and e = PayloadNil, THEN conjunct1,
        THEN spec [of _ "[MemUsageKey \<mapsto> ''40.00'']"], THEN mp, OF none]
    by (elim exE conjE) (metis snd_conv)
  show ?thesis unfolding md(2)
    by (intro exI [of _ md] conjI md(1)) (simp add: demo_Discover_def)
qed

end
