(* ===== verification/WorkerSystem.thy ===== *)
theory WorkerSystem
  imports Worker
begin

text \<open>
  A worker as a whole (\<^verbatim>\<open>core/worker\<close>): the goroutines that \<open>Run\<close> starts share the repository, the
  cache of actual states, the queue of changes and the executors, and are composed here as they are
  in the code.
\<close>

section \<open>The worker as a system\<close>

text \<open>
  The goroutines of a worker share the repository, the cache, the queue of changes and the
  executors.  A step is one trigger of the infomer (with the states of the queue and of the cache
  that it read before, which may be any), one iteration of the change syncer, one report of an
  executor or the begin of the shutdown.  The events are the changes handed to the executors and
  the tasks released.
\<close>

record ('r, 's) worker_system =
  ws_repo :: 'r
  ws_cache :: task_cache
  ws_queue :: "Change Typed"
  ws_exec :: 's

datatype worker_op =
    WTrigger "Change Typed" "string list" task_cache "string list" task_cache triggerInfo
  | WSync
  | WReport "int \<Rightarrow> float64" time TaskExecResult
  | WShutdown

definition sync_events :: "syncer_outcome \<Rightarrow> Change Typed \<Rightarrow> Change queue_event list" where
  "sync_events out q =
     (case fst (WaitChange q) of
        Item c \<Rightarrow> Delivered c # (case out of SyncDone (Some err) \<Rightarrow> [Finished c] | _ \<Rightarrow> [])
      | _ \<Rightarrow> [])"

fun worker_step :: "'r TaskRepo \<Rightarrow> 's registry \<Rightarrow> worker_op \<Rightarrow> ('r, 's) worker_system \<Rightarrow>
    Change queue_event list \<times> ('r, 's) worker_system" where
  "worker_step repo executors (WTrigger q ks1 c1 ks2 c2 info) ws =
     (let (r', q') = enqueueIfTaskChange repo q ks1 c1 ks2 c2 info (ws_repo ws) (ws_queue ws)
      in ([], ws\<lparr>ws_repo := r', ws_queue := q'\<rparr>))"
| "worker_step repo executors WSync ws =
     (let (out, q', s') = runChangeSyncer executors (ws_queue ws) (ws_exec ws)
      in (sync_events out (ws_queue ws), ws\<lparr>ws_queue := q', ws_exec := s'\<rparr>))"
| "worker_step repo executors (WReport rnd now t) ws =
     (let (r', c', q') = monitor_message repo rnd now (Some t) (ws_repo ws, ws_cache ws, ws_queue ws)
      in ([Finished (key_change (res_TaskKey t))],
          ws\<lparr>ws_repo := r', ws_cache := c', ws_queue := q'\<rparr>))"
| "worker_step repo executors WShutdown ws =
     ([], ws\<lparr>ws_queue := infomer_Shutdown (ws_queue ws)\<rparr>)"

fun worker_run :: "'r TaskRepo \<Rightarrow> 's registry \<Rightarrow> worker_op list \<Rightarrow> ('r, 's) worker_system \<Rightarrow>
    Change queue_event list \<times> ('r, 's) worker_system" where
  "worker_run repo executors [] ws = ([], ws)"
| "worker_run repo executors (a # ops) ws =
     (let (es, ws1) = worker_step repo executors a ws; (fs, ws2) = worker_run repo executors ops ws1
      in (es @ fs, ws2))"

lemma Add_processing: "processing (snd (Add uk x q)) = processing q"
  by (simp add: Add_def)

lemma add_all_processing: "processing (snd (add_all (Add uk) xs q)) = processing q"
  by (induction xs arbitrary: q) (simp_all add: Let_def split_beta Add_processing)

lemma enqueue_frame:
  assumes "queue_inv change_key q'"
  shows "processing (snd (enqueueIfTaskChange repo q ks1 c1 ks2 c2 info r q')) = processing q' \<and>
    queue_inv change_key (snd (enqueueIfTaskChange repo q ks1 c1 ks2 c2 info r q'))"
  using assms typed.add_all_invar [OF assms]
  by (auto simp: enqueueIfTaskChange_def Let_def split_beta add_all_processing split: sum.splits)

text \<open>One step keeps the invariant and is serial on top of what is in flight.\<close>

lemma sync_step:
  assumes inv: "queue_inv change_key q" and run: "runChangeSyncer executors q s = (out, q', s')"
    and rest: "serial GetUniKey (processing q') es"
  shows "queue_inv change_key q' \<and> serial GetUniKey (processing q) (sync_events out q @ es)"
proof (cases rule: Get_cases [OF inv])
  case (3 x xs rest')
  let ?q1 = "snd (Get change_key q)"
  have q1: "queue_inv change_key ?q1" "processing ?q1 = insert (GetUniKey x) (processing q)"
    using Get_inv [OF inv] 3(5) by (simp_all add: getKey_def)
  have new: "GetUniKey x \<notin> processing q" using inv 3(1) by (auto simp: queue_inv_def getKey_def)
  have wait: "WaitChange q = (Item x, ?q1)" using 3(5) by (simp add: WaitChange_def)
  from run consider "q' = ?q1" "\<And>e. out \<noteq> SyncDone (Some e)"
    | e where "q' = Done change_key x ?q1" "out = SyncDone (Some e)"
    by (auto simp: runChangeSyncer_def wait JumpChange_def
        split: call_outcome.splits option.splits prod.splits)
  then show ?thesis
  proof cases
    case 1
    then have "sync_events out q = [Delivered x]"
      by (auto simp: sync_events_def wait split: syncer_outcome.splits option.splits)
    with 1 q1 new rest show ?thesis by simp
  next
    case 2
    then have "processing q' = processing ?q1 - {GetUniKey x}" by (simp add: Done_processing getKey_def)
    with 2 q1 new rest Done_inv [OF q1(1), of x] show ?thesis
      by (simp add: sync_events_def wait)
  qed
qed (use assms in \<open>auto simp: runChangeSyncer_def WaitChange_def sync_events_def\<close>)

lemma worker_step_serial:
  assumes inv: "queue_inv change_key (ws_queue ws)"
    and rest: "serial GetUniKey (processing (ws_queue (snd (worker_step repo executors a ws)))) es"
  shows "queue_inv change_key (ws_queue (snd (worker_step repo executors a ws))) \<and>
    serial GetUniKey (processing (ws_queue ws)) (fst (worker_step repo executors a ws) @ es)"
proof (cases a)
  case (WTrigger q ks1 c1 ks2 c2 info)
  with rest show ?thesis by (simp add: Let_def split_beta enqueue_frame [OF inv])
next
  case WSync
  with sync_step [OF inv, of executors "ws_exec ws"] rest show ?thesis
    by (cases "runChangeSyncer executors (ws_queue ws) (ws_exec ws)") simp
next
  case (WReport rnd now t)
  then show ?thesis
    using rest Done_inv [OF inv]
    by (simp add: monitor_message_def processTask_def afterChange_def split_beta Let_def
        Done_processing getKey_def)
next
  case WShutdown
  moreover have "processing (ShutDownWithDrain (ws_queue ws)) = processing (ws_queue ws)"
    by (simp add: ShutDownWithDrain_def)
  ultimately show ?thesis using inv rest by (simp add: infomer_Shutdown_def)
qed

lemma worker_run_serial:
  "queue_inv change_key (ws_queue ws) \<Longrightarrow>
     serial GetUniKey (processing (ws_queue ws)) (fst (worker_run repo executors ops ws))"
proof (induction ops arbitrary: ws)
  case (Cons a ops)
  let ?ws = "snd (worker_step repo executors a ws)"
  have "queue_inv change_key (ws_queue ?ws)"
    using worker_step_serial [OF Cons.prems, where es = "[]"] by simp
  from worker_step_serial [OF Cons.prems Cons.IH [OF this]] show ?case
    by (simp add: Let_def split_beta)
qed simp

section \<open>One task alone\<close>

lemma distinct_set_singleton: "distinct xs \<Longrightarrow> set xs = {x} \<Longrightarrow> xs = [x]"
  by (cases xs) (auto simp: insert_eq_iff subset_singleton_iff insert_subset)

lemma ListTasks_single:
  assumes "cache_ok c" and "range_order ks (items c)"
  shows "ListTasks ks [k] c = (case items c k of None \<Rightarrow> [] | Some r \<Rightarrow> [r])"
proof -
  let ?l = "ListTasks ks [k] c"
  have s: "set ?l = {r. res_TaskKey r = k \<and> items c k = Some r}"
    using ListTasks_set [OF assms, of "[k]"] by auto
  have d: "distinct ?l"
    using ListTasks_distinct [OF assms, of "[k]"] by (simp add: distinct_map)
  show ?thesis
  proof (cases "items c k")
    case None
    with s show ?thesis by simp
  next
    case (Some r)
    with assms(1) have "set ?l = {r}" unfolding s by (auto simp: cache_ok_def)
    with d have "?l = [r]" by (rule distinct_set_singleton)
    with Some show ?thesis by simp
  qed
qed

text \<open>What a trigger for one task loads when no change of the task is in the queue.\<close>

lemma load_single:
  assumes "BatchGetTask repo [k] r = Ok [w]" and "task_TaskKey w = k"
    and "cache_ok c" and "range_order ks (items c)" and "\<not> Exist change_key (key_change k) q"
    and "not_final \<lparr>want = Some w, real = items c k\<rparr>"
  shows "loadTaskPairsThreadSafe repo r q ks1 c1 ks c \<lparr>resync = False, taskKeys = [k]\<rparr> =
    Ok [\<lparr>want = Some w, real = items c k\<rparr>]"
proof -
  have "\<And>x. items c k = Some x \<Longrightarrow> res_TaskKey x = k" using assms(3) by (simp add: cache_ok_def)
  then have "loadTaskPairs repo r ks c [k] [k] = Ok [\<lparr>want = Some w, real = items c k\<rparr>]"
    using assms(1,2) ListTasks_single [OF assms(3,4), of k]
    by (cases "items c k") (auto simp: loadTaskPairs_def key_by_def Let_def)
  then show ?thesis
    using assms(5,6) by (simp add: loadTaskPairsThreadSafe_def selectTaskKeys_def Let_def)
qed

text \<open>The change of a pair whose states have a row in the table.\<close>

definition change_of :: "string \<Rightarrow> Task \<Rightarrow> ChangeType \<Rightarrow> Change" where
  "change_of k w ct = \<lparr>chg_TaskKey = k, chg_TaskType = task_Type w, chg_ChangeType = ct,
     chg_Task = (if ct = ChangeCreate then Some w else None)\<rparr>"

lemma diff_single:
  assumes "task_TaskKey w = k"
    and "GetChangeType (pair_real_status \<lparr>want = Some w, real = re\<rparr>) (task_WantRunStatus w) = Ok ct"
  shows "diff [\<lparr>want = Some w, real = re\<rparr>] = [change_of k w ct]"
proof -
  have "diff_pair \<lparr>want = Some w, real = re\<rparr> = Some (change_of k w ct)"
    using assms by (simp add: diff_pair_iff change_of_def pair_want_status_def pair_key_def)
  then show ?thesis by simp
qed

text \<open>A queue in which nothing waits and nothing is being processed.\<close>

definition idle :: "Change Typed \<Rightarrow> bool" where
  "idle q \<longleftrightarrow> queue_inv change_key q \<and> \<not> shuttingDown q \<and> elems (queue q) = [] \<and> processing q = {}"

lemma idle_Exist: "idle q \<Longrightarrow> \<not> Exist change_key c q"
  using typed.exist_iff [of change_key q c] by (simp add: idle_def)

text \<open>The way of one change through an idle queue.\<close>

lemma idle_trigger:
  assumes "idle q" and "\<not> IsException c"
    and "loadTaskPairsThreadSafe repo r q ks1 c1 ks2 c2 info = Ok pairs" and "diff pairs = [c]"
  obtains q1 where "enqueueIfTaskChange repo q ks1 c1 ks2 c2 info r q = (r, q1)"
    "queue_inv change_key q1" "elems (queue q1) = [c]" "processing q1 = {}" "\<not> shuttingDown q1"
proof -
  let ?q1 = "snd (Add change_key c q)"
  have q: "queue_inv change_key q" "\<not> shuttingDown q" "elems (queue q) = []" "processing q = {}"
    using assms(1) by (simp_all add: idle_def)
  have "enqueueIfTaskChange repo q ks1 c1 ks2 c2 info r q = (r, ?q1)"
    using assms(2) by (simp add: enqueueIfTaskChange_alt [OF assms(3)] assms(4) Let_def split_beta)
  moreover have "queue_inv change_key ?q1" by (rule typed.invar_add [OF q(1)])
  ultimately show thesis
    using typed.add_new [OF q(1,2) idle_Exist [OF assms(1)], of c] q by (intro that [of ?q1]) auto
qed

lemma idle_sync:
  assumes "queue_inv change_key q" and "elems (queue q) = [c]" and "processing q = {}"
    and "\<not> shuttingDown q" and "ChangeHandle executors c s = (CallReturns None, s1)"
  obtains q1 where "runChangeSyncer executors q s = (SyncDone None, q1, s1)"
    "sync_events (SyncDone None) q = [Delivered c]"
    "queue_inv change_key q1" "elems (queue q1) = []" "processing q1 = {GetUniKey c}" "\<not> shuttingDown q1"
proof -
  obtain o1 q1 where g: "Get change_key q = (o1, q1)" by fastforce
  with typed.get_Cons [OF assms(1,2)] typed.invar_get [OF assms(1)] assms(3,4)
  have q1: "o1 = Item c" "elems (queue q1) = []" "processing q1 = {GetUniKey c}" "\<not> shuttingDown q1"
    "queue_inv change_key q1" by (auto simp: getKey_def)
  then have "runChangeSyncer executors q s = (SyncDone None, q1, s1)"
    "sync_events (SyncDone None) q = [Delivered c]"
    using g assms(5) by (simp_all add: runChangeSyncer_def WaitChange_def sync_events_def)
  with q1 show thesis by (intro that)
qed

lemma idle_done:
  assumes "queue_inv change_key q" and "elems (queue q) = []" and "processing q = {GetUniKey c}"
    and "\<not> shuttingDown q" and "GetUniKey d = GetUniKey c"
  shows "idle (Done change_key d q)"
  using typed.invar_finish [OF assms(1), of d] typed.finish_pending [OF assms(1), of d] assms(2-)
  by (simp add: idle_def typed.finish_closed Done_processing getKey_def)

section \<open>A round of the control loop\<close>

text \<open>The trigger, the syncer and the report, one after the other, from an idle queue.\<close>

lemma control_round:
  assumes "idle (ws_queue ws)" and "cache_ok (ws_cache ws)" and "range_order ks (items (ws_cache ws))"
    and "BatchGetTask repo [k] (ws_repo ws) = Ok [w]" and "task_TaskKey w = k"
    and "not_final \<lparr>want = Some w, real = items (ws_cache ws) k\<rparr>"
    and "GetChangeType (pair_real_status \<lparr>want = Some w, real = items (ws_cache ws) k\<rparr>)
      (task_WantRunStatus w) = Ok ct" and "\<not> IsException (change_of k w ct)"
    and "ChangeHandle executors (change_of k w ct) (ws_exec ws) = (CallReturns None, s1)"
    and "res_TaskKey t = k"
    and "UpdateTask repo (zero_Task\<lparr>task_TaskKey := k, task_Status := res_Status t\<rparr>) (ws_repo ws) = (None, r1)"
  obtains q where "worker_run repo executors
      [WTrigger (ws_queue ws) ks (ws_cache ws) ks (ws_cache ws) \<lparr>resync = False, taskKeys = [k]\<rparr>,
       WSync, WReport rnd now t] ws =
      ([Delivered (change_of k w ct), Finished (key_change k)],
       ws\<lparr>ws_repo := r1, ws_cache := Set now k t (ws_cache ws), ws_queue := q, ws_exec := s1\<rparr>)" and "idle q"
proof -
  let ?c = "change_of k w ct" and ?info = "\<lparr>resync = False, taskKeys = [k]\<rparr>"
  have key: "GetUniKey (key_change k) = GetUniKey ?c" by (simp add: GetUniKey_def change_of_def)
  note load = load_single [OF assms(4,5,2,3) idle_Exist [OF assms(1)] assms(6)]
  obtain q1 where q1: "enqueueIfTaskChange repo (ws_queue ws) ks (ws_cache ws) ks (ws_cache ws) ?info
      (ws_repo ws) (ws_queue ws) = (ws_repo ws, q1)"
    "queue_inv change_key q1" "elems (queue q1) = [?c]" "processing q1 = {}" "\<not> shuttingDown q1"
    by (rule idle_trigger [OF assms(1,8) load diff_single [OF assms(5,7)]])
  obtain q2 where q2: "runChangeSyncer executors q1 (ws_exec ws) = (SyncDone None, q2, s1)"
    "sync_events (SyncDone None) q1 = [Delivered ?c]"
    "queue_inv change_key q2" "elems (queue q2) = []" "processing q2 = {GetUniKey ?c}" "\<not> shuttingDown q2"
    by (rule idle_sync [OF q1(2-5) assms(9)])
  have r1: "snd (attempts 4 (UpdateTask repo (zero_Task\<lparr>task_TaskKey := k, task_Status := res_Status t\<rparr>))
      (ws_repo ws)) = r1" using assms(11) by (simp add: eval_nat_numeral)
  show thesis
    by (rule that [OF _ idle_done [OF q2(3-6) key]])
      (use q1(1) q2(1,2) r1 assms(10) in \<open>simp add: monitor_message_eq\<close>)
qed

text \<open>A trigger for a task that is in its wanted state does nothing.\<close>

lemma quiet_trigger:
  assumes "idle q" and "cache_ok c" and "range_order ks (items c)" and "items c k = Some t"
    and "res_TaskKey t = k" and "BatchGetTask repo [k] r = Ok [w]" and "task_TaskKey w = k"
    and "task_WantRunStatus w = res_Status t"
  shows "enqueueIfTaskChange repo q ks c ks c \<lparr>resync = False, taskKeys = [k]\<rparr> r q = (r, q)"
proof -
  have pairs: "loadTaskPairs repo r ks c [k] [k] = Ok [\<lparr>want = Some w, real = Some t\<rparr>]"
    using assms(4-7) ListTasks_single [OF assms(2,3), of k] by (auto simp: loadTaskPairs_def key_by_def Let_def)
  have "diff_pair \<lparr>want = Some w, real = Some t\<rparr> = None"
    using assms(8) by (simp add: diff_pair_def pair_real_status_def pair_want_status_def)
  then have none: "diff (filter not_final [\<lparr>want = Some w, real = Some t\<rparr>]) = []" by simp
  have "loadTaskPairsThreadSafe repo r q ks c ks c \<lparr>resync = False, taskKeys = [k]\<rparr> =
      Ok (filter not_final [\<lparr>want = Some w, real = Some t\<rparr>])"
    using pairs idle_Exist [OF assms(1)] by (simp add: loadTaskPairsThreadSafe_def selectTaskKeys_def Let_def)
  from enqueueIfTaskChange_alt [OF this] show ?thesis unfolding none by simp
qed

section \<open>Properties\<close>

text \<open>
  C4: one round of the control loop brings a task to its wanted state.  Take a task whose actual
  state, cached or absent, is not the wanted one but has a way to it in the table of changes, and a
  worker with an idle queue.  The way must be one that executors carry out, so a task that is absent
  and wanted paused or stopped is not meant: that is an exceptional change, which the infomer itself
  writes to the repository.  Nor is the task recorded or cached in a final state, since triggers skip
  these.  If the executor accepts the change and then reports the wanted state, and the update of the
  repository succeeds, the trigger for the task, the change syncer and the report hand exactly the
  one change to the executor and release the task again; then the cache holds the reported state, the
  repository has been sent it in one update, the queue is idle, and a further trigger with the same
  wanted state changes nothing.
\<close>

theorem control_round_converges:
  assumes "idle (ws_queue ws)" and "cache_ok (ws_cache ws)" and "range_order ks (items (ws_cache ws))"
    and "BatchGetTask repo [k] (ws_repo ws) = Ok [w]" and "task_TaskKey w = k"
    and "not_final \<lparr>want = Some w, real = items (ws_cache ws) k\<rparr>"
    and "GetChangeType (pair_real_status \<lparr>want = Some w, real = items (ws_cache ws) k\<rparr>)
      (task_WantRunStatus w) = Ok ct" and "\<not> IsException (change_of k w ct)"
    and "ChangeHandle executors (change_of k w ct) (ws_exec ws) = (CallReturns None, s1)"
    and "res_TaskKey t = k" and "res_Status t = task_WantRunStatus w"
    and "UpdateTask repo (zero_Task\<lparr>task_TaskKey := k, task_Status := res_Status t\<rparr>) (ws_repo ws) = (None, r1)"
  shows "\<exists>ws'. worker_run repo executors
      [WTrigger (ws_queue ws) ks (ws_cache ws) ks (ws_cache ws) \<lparr>resync = False, taskKeys = [k]\<rparr>,
       WSync, WReport rnd now t] ws =
      ([Delivered (change_of k w ct), Finished (key_change k)], ws') \<and>
    cache_Get k (ws_cache ws') = Some t \<and> ws_repo ws' = r1 \<and> idle (ws_queue ws') \<and> ws_exec ws' = s1 \<and>
    (\<forall>w' ks'. BatchGetTask repo [k] r1 = Ok [w'] \<longrightarrow> task_TaskKey w' = k \<longrightarrow>
       task_WantRunStatus w' = task_WantRunStatus w \<longrightarrow> range_order ks' (items (ws_cache ws')) \<longrightarrow>
       enqueueIfTaskChange repo (ws_queue ws') ks' (ws_cache ws') ks' (ws_cache ws')
         \<lparr>resync = False, taskKeys = [k]\<rparr> r1 (ws_queue ws') = (r1, ws_queue ws'))"
proof -
  let ?c3 = "Set now k t (ws_cache ws)"
  obtain q where run: "worker_run repo executors
      [WTrigger (ws_queue ws) ks (ws_cache ws) ks (ws_cache ws) \<lparr>resync = False, taskKeys = [k]\<rparr>,
       WSync, WReport rnd now t] ws =
      ([Delivered (change_of k w ct), Finished (key_change k)],
       ws\<lparr>ws_repo := r1, ws_cache := ?c3, ws_queue := q, ws_exec := s1\<rparr>)" and q: "idle q"
    by (rule control_round [OF assms(1-10,12)])
  have "cache_ok ?c3" "items ?c3 k = Some t"
    using cache_ok_processTask [OF assms(2), of True now "Some t"] assms(10) by (simp_all add: processTask_def Set_def)
  then have quiet: "enqueueIfTaskChange repo q ks' ?c3 ks' ?c3 \<lparr>resync = False, taskKeys = [k]\<rparr> r1 q = (r1, q)"
    if "BatchGetTask repo [k] r1 = Ok [w']" "task_TaskKey w' = k" "task_WantRunStatus w' = task_WantRunStatus w"
      "range_order ks' (items ?c3)" for w' ks'
    using quiet_trigger [OF q _ that(4) _ assms(10) that(1,2)] that(3) assms(11) by simp
  show ?thesis
    by (rule exI [of _ "ws\<lparr>ws_repo := r1, ws_cache := ?c3, ws_queue := q, ws_exec := s1\<rparr>"], intro conjI allI impI)
      (use run q quiet in \<open>simp_all add: cache_Get_def Set_def del: worker_run.simps worker_step.simps\<close>)
qed

section \<open>Witnesses\<close>

theorem control_round_converges_witness:
  "\<exists>ws'. worker_run mem_TaskRepo [''goroutine'' \<mapsto> demo_exe]
      [WTrigger (NewTyped grow2 0) [''a''] (demo_running ''a'') [''a''] (demo_running ''a'')
         \<lparr>resync = False, taskKeys = [''a'']\<rparr>,
       WSync, WReport (\<lambda>_. Fin 0 0) 7 (demo_result ''a'' TaskStatusPaused)]
      \<lparr>ws_repo = \<lparr>rows = [demo_task ''a'' TaskStatusWaitPaused TaskStatusPaused], updates = []\<rparr>,
       ws_cache = demo_running ''a'', ws_queue = NewTyped grow2 0, ws_exec = []\<rparr> =
      ([Delivered (change_of ''a'' (demo_task ''a'' TaskStatusWaitPaused TaskStatusPaused) ChangePause),
        Finished (key_change ''a'')], ws') \<and>
    cache_Get ''a'' (ws_cache ws') = Some (demo_result ''a'' TaskStatusPaused) \<and>
    map task_Status (rows (ws_repo ws')) = [TaskStatusPaused]"
proof -
  let ?w = "demo_task ''a'' TaskStatusWaitPaused TaskStatusPaused"
  let ?ws = "\<lparr>ws_repo = \<lparr>rows = [?w], updates = []\<rparr>, ws_cache = demo_running ''a'',
    ws_queue = NewTyped grow2 0, ws_exec = []\<rparr>"
  let ?t = "demo_result ''a'' TaskStatusPaused"
  let ?u = "zero_Task\<lparr>task_TaskKey := ''a'', task_Status := res_Status ?t\<rparr>"
  let ?r1 = "\<lparr>rows = [?w\<lparr>task_Status := TaskStatusPaused\<rparr>], updates = [?u]\<rparr>"
  have "queue_inv change_key (NewTyped grow2 0)"
    unfolding NewTyped_eq by (intro newQueue_inv grow2_ge)
  then have 1: "idle (ws_queue ?ws)" by (simp add: idle_def newQueue_simps)
  have 2: "cache_ok (ws_cache ?ws)" "range_order [''a''] (items (ws_cache ?ws))"
    using demo_running_ok by simp_all
  have 3: "BatchGetTask mem_TaskRepo [''a''] (ws_repo ?ws) = Ok [?w]" "task_TaskKey ?w = ''a''"
    by (simp_all add: mem_TaskRepo_def)
  have 4: "not_final \<lparr>want = Some ?w, real = items (ws_cache ?ws) ''a''\<rparr>"
    by (simp add: not_final_def demo_running_items)
  have 5: "GetChangeType (pair_real_status \<lparr>want = Some ?w, real = items (ws_cache ?ws) ''a''\<rparr>)
      (task_WantRunStatus ?w) = Ok ChangePause"
    by (simp add: pair_real_status_def demo_running_items GetChangeType_def)
  have 6: "\<not> IsException (change_of ''a'' ?w ChangePause)" by (simp add: change_of_def IsException_iff)
  have 7: "ChangeHandle [''goroutine'' \<mapsto> demo_exe] (change_of ''a'' ?w ChangePause) (ws_exec ?ws) =
      (CallReturns None, [])"
    by (simp add: ChangeHandle_def getExecutor_def change_of_def demo_exe_def)
  have 8: "res_TaskKey ?t = ''a''" "res_Status ?t = task_WantRunStatus ?w" by simp_all
  have 9: "UpdateTask mem_TaskRepo ?u (ws_repo ?ws) = (None, ?r1)"
    by (simp add: mem_TaskRepo_def merge_task_def zero_Task_def TaskStatusPaused_def)
  note round = control_round_converges [OF 1 2 3 4 5 6 7 8 9, where rnd = "\<lambda>_. Fin 0 0" and now = 7]
  show ?thesis
    by (rule ex_forward [OF round])
      (elim conjE, intro conjI, simp_all del: worker_run.simps worker_step.simps)
qed

end
