(* ===== verification/Channels.thy ===== *)
theory Channels
  imports Prelude
begin

text \<open>
  Go channels with a buffer into which several goroutines send.  A goroutine that executes
  \<open>ch <- x\<close> holds \<open>x\<close> until there is room; the receiver takes the oldest element.  The elements carry
  the goroutine that sent them, which no component reads: it is there to state the order.
\<close>

section \<open>Steps\<close>

record ('p, 'a) chan =
  pending :: "'p \<Rightarrow> 'a option"
  buffer :: "('p \<times> 'a) list"

definition make_chan :: "('p, 'a) chan" where
  "make_chan = \<lparr>pending = (\<lambda>_. None), buffer = []\<rparr>"

text \<open>\<open>offer\<close> is the begin of a send statement, \<open>send\<close> its end.\<close>

definition offer :: "'p \<Rightarrow> 'a \<Rightarrow> ('p, 'a) chan \<Rightarrow> ('p, 'a) chan option" where
  "offer p x c =
     (if pending c p = None then Some (c\<lparr>pending := (pending c)(p \<mapsto> x)\<rparr>) else None)"

definition send :: "nat \<Rightarrow> 'p \<Rightarrow> ('p, 'a) chan \<Rightarrow> ('p, 'a) chan option" where
  "send cap p c =
     (case pending c p of
        None \<Rightarrow> None
      | Some x \<Rightarrow>
          if length (buffer c) < cap
          then Some (c\<lparr>pending := (pending c)(p := None), buffer := buffer c @ [(p, x)]\<rparr>) else None)"

definition receive :: "('p, 'a) chan \<Rightarrow> (('p \<times> 'a) \<times> ('p, 'a) chan) option" where
  "receive c = (case buffer c of [] \<Rightarrow> None | m # ms \<Rightarrow> Some (m, c\<lparr>buffer := ms\<rparr>))"

lemmas chan_defs = make_chan_def offer_def send_def receive_def

section \<open>Order and bound\<close>

text \<open>What one sender has sent, oldest first.\<close>

definition sent_by :: "'p \<Rightarrow> ('p \<times> 'a) list \<Rightarrow> 'a list" where
  "sent_by p ms = map snd (filter (\<lambda>m. fst m = p) ms)"

lemma sent_by_simps [simp]:
  "sent_by p [] = []"
  "sent_by p (m # ms) = (if fst m = p then [snd m] else []) @ sent_by p ms"
  "sent_by p (ms @ ns) = sent_by p ms @ sent_by p ns"
  by (simp_all add: sent_by_def)

definition under_way :: "'p \<Rightarrow> ('p, 'a) chan \<Rightarrow> 'a list" where
  "under_way p c = sent_by p (buffer c) @ (case pending c p of None \<Rightarrow> [] | Some x \<Rightarrow> [x])"

lemma under_way_make [simp]: "under_way p make_chan = []"
  by (simp add: under_way_def make_chan_def)

text \<open>
  The contract of a channel: what is under way of a sender grows at the end by what it offers,
  shrinks at the front by what is received, and a send moves nothing.
\<close>

locale fifo_channel =
  fixes offer' :: "'p \<Rightarrow> 'a \<Rightarrow> 'c \<Rightarrow> 'c option"
    and send' :: "'p \<Rightarrow> 'c \<Rightarrow> 'c option"
    and receive' :: "'c \<Rightarrow> (('p \<times> 'a) \<times> 'c) option"
    and content :: "'p \<Rightarrow> 'c \<Rightarrow> 'a list" and size' :: "'c \<Rightarrow> nat" and cap :: nat
  assumes offer_content: "offer' p x c = Some c' \<Longrightarrow> content q c' = content q c @ (if p = q then [x] else [])"
    and send_content: "send' p c = Some c' \<Longrightarrow> content q c' = content q c"
    and receive_content: "receive' c = Some ((p, x), c') \<Longrightarrow> content q c = (if p = q then [x] else []) @ content q c'"
    and offer_size: "offer' p x c = Some c' \<Longrightarrow> size' c' = size' c"
    and send_size: "send' p c = Some c' \<Longrightarrow> size' c < cap \<and> size' c' = Suc (size' c)"
    and receive_size: "receive' c = Some (m, c') \<Longrightarrow> size' c = Suc (size' c')"
begin

lemma bounded:
  "size' c \<le> cap \<Longrightarrow>
     offer' p x c = Some c' \<or> send' p c = Some c' \<or> receive' c = Some (m, c') \<Longrightarrow> size' c' \<le> cap"
  using offer_size send_size receive_size by (metis Suc_leD Suc_leI)

text \<open>Received so far followed by what is under way: what has been offered.\<close>

lemma conserved:
  assumes "sent_by q got @ content q c = offered"
  shows "offer' p x c = Some c' \<Longrightarrow> sent_by q got @ content q c' = offered @ (if p = q then [x] else [])"
    and "send' p c = Some c' \<Longrightarrow> sent_by q got @ content q c' = offered"
    and "receive' c = Some (m, c') \<Longrightarrow> sent_by q (got @ [m]) @ content q c' = offered"
proof -
  show "offer' p x c = Some c' \<Longrightarrow> sent_by q got @ content q c' = offered @ (if p = q then [x] else [])"
    using assms offer_content [of p x c c' q] by auto
  show "send' p c = Some c' \<Longrightarrow> sent_by q got @ content q c' = offered"
    using assms send_content [of p c c' q] by simp
  show "receive' c = Some (m, c') \<Longrightarrow> sent_by q (got @ [m]) @ content q c' = offered"
    using assms receive_content [of c "fst m" "snd m" c' q] by (cases m) auto
qed

end

interpretation chan: fifo_channel offer "send cap" receive under_way "\<lambda>c. length (buffer c)" cap for cap
proof (unfold_locales, goal_cases)
  case (1 p x c c' q)
  then show ?case by (auto simp: offer_def under_way_def split: if_splits)
next
  case (2 p c c' q)
  then show ?case by (auto simp: send_def under_way_def split: option.splits if_splits)
next
  case (3 c p x c' q)
  then show ?case by (auto simp: receive_def under_way_def split: list.splits)
next
  case (4 p x c c')
  then show ?case by (auto simp: offer_def split: if_splits)
next
  case (5 p c c')
  then show ?case by (auto simp: send_def split: option.splits if_splits)
next
  case (6 c m c')
  then show ?case by (auto simp: receive_def split: list.splits)
qed

end
