(* ===== verification/Monitor.thy ===== *)
theory Monitor
  imports Infomer Channels
begin

text \<open>
  \<open>Monitor\<close> of \<^verbatim>\<open>core/worker/infomer/indexer.go\<close> with the callback of the infomer, as the three
  goroutines that it consists of: the refresher compares a listing of the executors with the cache
  at every tick, the forwarder reads the results of the executors, both send into a channel with a
  buffer of 100, and the loop of \<open>Monitor\<close> processes its messages.  None of them ever closes the
  channel, so the loop has no end.
\<close>

section \<open>Goroutines and their steps\<close>

text \<open>\<open>time.NewTicker\<close> panics on an interval that is not positive.\<close>

definition refresh_ticker :: "time \<Rightarrow> time run" where
  "refresh_ticker resync_period = (if resync_period \<le> 0 then Panic else Return resync_period)"

datatype sender = Refresher | Forwarder

definition monitorChBuffer :: nat where "monitorChBuffer = 100"

text \<open>
  \<open>listing\<close> is what the loop of \<open>refreshCache\<close> has not compared yet; the repository and the queue
  are the ones that the callback writes to.
\<close>

record 'r monitor_sys =
  mon_repo :: 'r
  mon_cache :: task_cache
  mon_queue :: "Change Typed"
  mon_ch :: "(sender, TaskExecResult) chan"
  listing :: "TaskExecResult list"

text \<open>
  A tick is seen when the refresher is back in its \<open>select\<close>; it loads the listing (an error ends the
  round).  \<open>MCompare\<close> is one iteration of the loop of \<open>refreshCache\<close>, up to the begin of the send.
\<close>

datatype monitor_op =
    MTick "TaskExecResult list result"
  | MCompare
  | MResult TaskExecResult
  | MSend sender
  | MProcess "int \<Rightarrow> float64" time

fun monitor_step ::
    "'r TaskRepo \<Rightarrow> monitor_op \<Rightarrow> 'r monitor_sys \<Rightarrow>
     ((sender \<times> TaskExecResult) list \<times> 'r monitor_sys) option" where
  "monitor_step repo (MTick loaded) s =
     (if listing s = [] \<and> pending (mon_ch s) Refresher = None
      then Some ([], case loaded of Inl err \<Rightarrow> s | Inr newTasks \<Rightarrow> s\<lparr>listing := newTasks\<rparr>)
      else None)"
| "monitor_step repo MCompare s =
     (case listing s of
        [] \<Rightarrow> None
      | new # rest \<Rightarrow>
          if pending (mon_ch s) Refresher \<noteq> None then None
          else if (case cache_Get (res_TaskKey new) (mon_cache s) of
                     None \<Rightarrow> True | Some old \<Rightarrow> res_Status new \<noteq> res_Status old)
          then map_option (\<lambda>ch. ([], s\<lparr>listing := rest, mon_ch := ch\<rparr>)) (offer Refresher new (mon_ch s))
          else Some ([], s\<lparr>listing := rest\<rparr>))"
| "monitor_step repo (MResult r) s =
     map_option (\<lambda>ch. ([], s\<lparr>mon_ch := ch\<rparr>)) (offer Forwarder r (mon_ch s))"
| "monitor_step repo (MSend p) s =
     map_option (\<lambda>ch. ([], s\<lparr>mon_ch := ch\<rparr>)) (send monitorChBuffer p (mon_ch s))"
| "monitor_step repo (MProcess rnd now) s =
     (case receive (mon_ch s) of
        None \<Rightarrow> None
      | Some (m, ch) \<Rightarrow>
          let (r, c, q) = monitor_message repo rnd now (Some (snd m)) (mon_repo s, mon_cache s, mon_queue s)
          in Some ([m], s\<lparr>mon_repo := r, mon_cache := c, mon_queue := q, mon_ch := ch\<rparr>))"

text \<open>A run; the first component are the messages processed, with their senders, in order.\<close>

fun monitor_run ::
    "'r TaskRepo \<Rightarrow> monitor_op list \<Rightarrow> 'r monitor_sys \<Rightarrow>
     ((sender \<times> TaskExecResult) list \<times> 'r monitor_sys) option" where
  "monitor_run repo [] s = Some ([], s)"
| "monitor_run repo (a # ops) s =
     (case monitor_step repo a s of
        None \<Rightarrow> None
      | Some (ms, s1) \<Rightarrow>
          (case monitor_run repo ops s1 of None \<Rightarrow> None | Some (ns, s2) \<Rightarrow> Some (ms @ ns, s2)))"

text \<open>What the executors report in a run, and every task of the listings that it loads.\<close>

fun reported :: "monitor_op list \<Rightarrow> TaskExecResult list" where
  "reported [] = []"
| "reported (MResult r # ops) = r # reported ops"
| "reported (a # ops) = reported ops"

fun listed :: "monitor_op list \<Rightarrow> TaskExecResult list" where
  "listed [] = []"
| "listed (MTick (Inr ts) # ops) = ts @ listed ops"
| "listed (a # ops) = listed ops"

text \<open>The last message about a task in a list of messages.\<close>

definition last_of :: "string \<Rightarrow> (sender \<times> TaskExecResult) list \<Rightarrow> TaskExecResult option" where
  "last_of k ms = map_of (rev (map (\<lambda>m. (res_TaskKey (snd m), snd m)) ms)) k"

lemma last_of_simps [simp]:
  "last_of k [] = None"
  "last_of k (ms @ ns) = (case last_of k ns of None \<Rightarrow> last_of k ms | Some r \<Rightarrow> Some r)"
  "last_of k [m] = (if res_TaskKey (snd m) = k then Some (snd m) else None)"
  by (auto simp: last_of_def map_add_def split: option.splits)

section \<open>What a step does\<close>

lemma monitor_process:
  assumes "monitor_step repo (MProcess rnd now) s = Some (ms, s')"
  obtains m ch where "ms = [m]" "receive (mon_ch s) = Some (m, ch)"
    "s' = s\<lparr>mon_repo := snd (attempts 4 (UpdateTask repo (zero_Task\<lparr>task_TaskKey := res_TaskKey (snd m),
        task_Status := res_Status (snd m)\<rparr>)) (mon_repo s)),
      mon_cache := Set now (res_TaskKey (snd m)) (snd m) (mon_cache s),
      mon_queue := Done change_key (key_change (res_TaskKey (snd m))) (mon_queue s), mon_ch := ch\<rparr>"
  using assms by (auto simp: monitor_message_eq split: option.splits)

text \<open>The shape of every other step: the channel changes by an offer, a send or not at all.\<close>

lemma monitor_other:
  assumes "monitor_step repo a s = Some (ms, s')" and "\<And>rnd now. a \<noteq> MProcess rnd now"
  shows "ms = [] \<and> mon_cache s' = mon_cache s \<and> mon_repo s' = mon_repo s \<and> mon_queue s' = mon_queue s"
  using assms by (cases a) (auto split: list.splits if_splits option.splits sum.splits)

lemma monitor_step_chan:
  assumes "monitor_step repo a s = Some (ms, s')"
  shows "(\<exists>r. a = MResult r \<and> offer Forwarder r (mon_ch s) = Some (mon_ch s')) \<or>
    (\<exists>new. a = MCompare \<and> new \<in> set (listing s) \<and> offer Refresher new (mon_ch s) = Some (mon_ch s')) \<or>
    (\<exists>p. a = MSend p \<and> send monitorChBuffer p (mon_ch s) = Some (mon_ch s')) \<or>
    (\<exists>rnd now m. a = MProcess rnd now \<and> ms = [m] \<and> receive (mon_ch s) = Some (m, mon_ch s')) \<or>
    (mon_ch s' = mon_ch s \<and> reported [a] = [] \<and> ms = [])"
proof (cases a)
  case (MProcess rnd now)
  from assms [unfolded MProcess] show ?thesis
    by (rule monitor_process) (auto simp: MProcess)
qed (use assms in \<open>auto split: list.splits if_splits option.splits sum.splits\<close>)

lemma reported_append: "reported (a # ops) = reported [a] @ reported ops"
  by (cases a) auto

lemma monitor_step_order:
  assumes "monitor_step repo a s = Some (ms, s')"
  shows "sent_by Forwarder ms @ under_way Forwarder (mon_ch s') = under_way Forwarder (mon_ch s) @ reported [a]"
    and "length (buffer (mon_ch s)) \<le> monitorChBuffer \<Longrightarrow> length (buffer (mon_ch s')) \<le> monitorChBuffer"
proof -
  let ?w = "under_way Forwarder"
  from monitor_step_chan [OF assms]
  consider r where "a = MResult r" "offer Forwarder r (mon_ch s) = Some (mon_ch s')" "ms = []"
    | new where "a = MCompare" "offer Refresher new (mon_ch s) = Some (mon_ch s')" "ms = []"
    | p where "a = MSend p" "send monitorChBuffer p (mon_ch s) = Some (mon_ch s')" "ms = []"
    | rnd now m where "a = MProcess rnd now" "ms = [m]" "receive (mon_ch s) = Some (m, mon_ch s')"
    | "mon_ch s' = mon_ch s" "reported [a] = []" "ms = []"
    using monitor_other [OF assms] by blast
  then show "sent_by Forwarder ms @ ?w (mon_ch s') = ?w (mon_ch s) @ reported [a]"
  proof cases
    case (1 r)
    then show ?thesis using chan.offer_content [OF 1(2), of Forwarder] by simp
  next
    case (2 new)
    then show ?thesis using chan.offer_content [OF 2(2), of Forwarder] by simp
  next
    case (3 p)
    then show ?thesis using chan.send_content [OF 3(2), of Forwarder] by simp
  next
    case (4 rnd now m)
    then show ?thesis using chan.receive_content [of "mon_ch s" "fst m" "snd m" "mon_ch s'" Forwarder] by auto
  qed simp
  show "length (buffer (mon_ch s')) \<le> monitorChBuffer" if "length (buffer (mon_ch s)) \<le> monitorChBuffer"
    using monitor_step_chan [OF assms]
  proof (elim disjE exE conjE)
    fix r assume "offer Forwarder r (mon_ch s) = Some (mon_ch s')"
    then show ?thesis using chan.bounded [OF that] by blast
  next
    fix new assume "offer Refresher new (mon_ch s) = Some (mon_ch s')"
    then show ?thesis using chan.bounded [OF that] by blast
  next
    fix p assume "send monitorChBuffer p (mon_ch s) = Some (mon_ch s')"
    then show ?thesis using chan.bounded [OF that] by blast
  next
    fix m assume "receive (mon_ch s) = Some (m, mon_ch s')"
    then show ?thesis using chan.bounded [OF that] by blast
  qed (use that in simp)
qed

text \<open>Every message of the refresher, wherever it is, comes from a listing.\<close>

lemma monitor_step_refresher:
  assumes "monitor_step repo a s = Some (ms, s')"
  shows "set (sent_by Refresher ms) \<union> set (under_way Refresher (mon_ch s')) \<union> set (listing s') \<subseteq>
    set (under_way Refresher (mon_ch s)) \<union> set (listing s) \<union> set (listed [a])"
proof (cases a)
  case (MTick loaded)
  with assms show ?thesis by (cases loaded) (auto split: if_splits)
next
  case MCompare
  with assms show ?thesis
    by (auto split: list.splits if_splits option.splits dest!: chan.offer_content [where q = Refresher])
next
  case (MResult r)
  with assms show ?thesis by (auto dest!: chan.offer_content [where q = Refresher])
next
  case (MSend p)
  with assms show ?thesis by (auto dest!: chan.send_content [where q = Refresher])
next
  case (MProcess rnd now)
  from assms [unfolded MProcess] obtain m ch where m: "ms = [m]"
    "receive (mon_ch s) = Some (m, ch)" "listing s' = listing s" "mon_ch s' = ch"
    by (rule monitor_process) simp
  then have "under_way Refresher (mon_ch s) =
      (if fst m = Refresher then [snd m] else []) @ under_way Refresher ch"
    using chan.receive_content [of "mon_ch s" "fst m" "snd m" ch Refresher] by simp
  with m show ?thesis by auto
qed

lemma monitor_step_cache:
  assumes "monitor_step repo a s = Some (ms, s')"
  shows "items (mon_cache s') k = (case last_of k ms of None \<Rightarrow> items (mon_cache s) k | Some r \<Rightarrow> Some r)"
proof (cases a)
  case (MProcess rnd now)
  from assms [unfolded MProcess] show ?thesis
    by (rule monitor_process) (auto simp: Set_def)
qed (use monitor_other [OF assms] in auto)

lemma listed_append: "listed (a # ops) = listed [a] @ listed ops"
proof (cases a)
  case (MTick loaded)
  then show ?thesis by (cases loaded) auto
qed auto

lemma monitor_run_facts:
  "monitor_run repo ops s = Some (ms, s') \<Longrightarrow>
     sent_by Forwarder ms @ under_way Forwarder (mon_ch s') = under_way Forwarder (mon_ch s) @ reported ops \<and>
     set (sent_by Refresher ms) \<union> set (under_way Refresher (mon_ch s')) \<union> set (listing s') \<subseteq>
       set (under_way Refresher (mon_ch s)) \<union> set (listing s) \<union> set (listed ops) \<and>
     items (mon_cache s') k = (case last_of k ms of None \<Rightarrow> items (mon_cache s) k | Some r \<Rightarrow> Some r) \<and>
     (length (buffer (mon_ch s)) \<le> monitorChBuffer \<longrightarrow> length (buffer (mon_ch s')) \<le> monitorChBuffer)"
proof (induction ops arbitrary: s ms)
  case (Cons a ops)
  from Cons.prems obtain ms1 s1 ms2 where s: "monitor_step repo a s = Some (ms1, s1)"
    "monitor_run repo ops s1 = Some (ms2, s')" "ms = ms1 @ ms2"
    by (auto split: option.splits prod.splits)
  note IH = Cons.IH [OF s(2)]
  have "sent_by Forwarder ms @ under_way Forwarder (mon_ch s') =
      sent_by Forwarder ms1 @ under_way Forwarder (mon_ch s1) @ reported ops"
    using IH s(3) by simp
  then have "sent_by Forwarder ms @ under_way Forwarder (mon_ch s') =
      under_way Forwarder (mon_ch s) @ reported (a # ops)"
    using monitor_step_order(1) [OF s(1)] by (simp add: reported_append [of a ops])
  moreover have "set (sent_by Refresher ms) \<union> set (under_way Refresher (mon_ch s')) \<union> set (listing s') \<subseteq>
       set (under_way Refresher (mon_ch s)) \<union> set (listing s) \<union> set (listed (a # ops))"
    using IH monitor_step_refresher [OF s(1)] by (auto simp: s(3) listed_append [of a ops])
  moreover have "items (mon_cache s') k =
      (case last_of k ms of None \<Rightarrow> items (mon_cache s) k | Some r \<Rightarrow> Some r)"
    using IH monitor_step_cache [OF s(1), of k] by (simp add: s(3) split: option.splits)
  ultimately show ?case using IH monitor_step_order(2) [OF s(1)] by blast
qed simp

lemma monitor_run_append:
  "monitor_run repo (as @ bs) s =
     (case monitor_run repo as s of
        None \<Rightarrow> None
      | Some (ms, s1) \<Rightarrow>
          (case monitor_run repo bs s1 of None \<Rightarrow> None | Some (ns, s2) \<Rightarrow> Some (ms @ ns, s2)))"
  by (induction as arbitrary: s) (auto split: option.splits prod.splits)

text \<open>The messages are those of the two senders.\<close>

lemma set_messages:
  "set ms = Pair Forwarder ` set (sent_by Forwarder ms) \<union> Pair Refresher ` set (sent_by Refresher ms)"
proof -
  have "fst m = Forwarder \<or> fst m = Refresher" for m :: "sender \<times> 'a" by (cases "fst m") auto
  then show ?thesis by (force simp: sent_by_def image_iff)
qed

lemma last_of_None_iff: "last_of k ms = None \<longleftrightarrow> k \<notin> (res_TaskKey \<circ> snd) ` set ms"
  by (auto simp: last_of_def map_of_eq_None_iff image_iff)

lemma monitor_untouched:
  assumes "monitor_run repo ops s = Some (ms, s')" and "mon_ch s = make_chan" and "listing s = []"
    and "k \<notin> res_TaskKey ` set (reported ops @ listed ops)"
  shows "items (mon_cache s') k = items (mon_cache s) k"
proof -
  note f = monitor_run_facts [OF assms(1), of k, unfolded assms(2,3)]
  then have "set (sent_by Forwarder ms) \<subseteq> set (reported ops)" by (metis append_Nil set_append Un_upper1 under_way_make)
  moreover have "set (sent_by Refresher ms) \<subseteq> set (listed ops)" using f by auto
  ultimately have "last_of k ms = None"
    using assms(4) unfolding last_of_None_iff set_messages [of ms] by auto
  then show ?thesis using f by simp
qed

text \<open>The repository is written by the processed messages, in order, and by nothing else.\<close>

definition write_results :: "'r TaskRepo \<Rightarrow> (sender \<times> TaskExecResult) list \<Rightarrow> 'r \<Rightarrow> 'r" where
  "write_results repo ms r = foldl (\<lambda>r m. snd (attempts 4 (UpdateTask repo (zero_Task\<lparr>
     task_TaskKey := res_TaskKey (snd m), task_Status := res_Status (snd m)\<rparr>)) r)) r ms"

lemma write_results_simps [simp]:
  "write_results repo [] r = r"
  "write_results repo (ms @ ns) r = write_results repo ns (write_results repo ms r)"
  by (simp_all add: write_results_def)

lemma monitor_step_repo:
  assumes "monitor_step repo a s = Some (ms, s')"
  shows "mon_repo s' = write_results repo ms (mon_repo s)"
proof (cases a)
  case (MProcess rnd now)
  from assms [unfolded MProcess] show ?thesis by (rule monitor_process) (simp add: write_results_def)
qed (use monitor_other [OF assms] in auto)

lemma monitor_run_repo:
  "monitor_run repo ops s = Some (ms, s') \<Longrightarrow> mon_repo s' = write_results repo ms (mon_repo s)"
proof (induction ops arbitrary: s ms)
  case (Cons a ops)
  from Cons.prems obtain ms1 s1 ms2 where s: "monitor_step repo a s = Some (ms1, s1)"
    "monitor_run repo ops s1 = Some (ms2, s')" "ms = ms1 @ ms2"
    by (auto split: option.splits prod.splits)
  then show ?case using monitor_step_repo [OF s(1)] Cons.IH [OF s(2)] by simp
qed simp

lemma monitor_untouched_messages:
  assumes "monitor_run repo ops s = Some (ms, s')" and "mon_ch s = make_chan" and "listing s = []"
    and "k \<notin> res_TaskKey ` set (reported ops @ listed ops)"
  shows "\<forall>m\<in>set ms. res_TaskKey (snd m) \<noteq> k"
proof -
  note f = monitor_run_facts [OF assms(1), of k, unfolded assms(2,3)]
  then have "set (sent_by Forwarder ms) \<subseteq> set (reported ops)" by (metis append_Nil set_append Un_upper1 under_way_make)
  moreover have "set (sent_by Refresher ms) \<subseteq> set (listed ops)" using f by auto
  ultimately show ?thesis using assms(4) unfolding set_messages [of ms] by auto
qed

section \<open>Properties\<close>

text \<open>
  C15: the monitor loses and reorders no report.  In every run of its goroutines from the start, the
  reports of the executors that have been processed, followed by those under way, are the reports
  in order; whatever else has been processed comes from a listing of the executors; every cached
  state is the one processed last, or the initial one; and the channel never holds more than a
  hundred messages.
\<close>

theorem monitor_pipeline:
  assumes "monitor_run repo ops s = Some (ms, s')" and "mon_ch s = make_chan" and "listing s = []"
  shows "sent_by Forwarder ms @ under_way Forwarder (mon_ch s') = reported ops \<and>
    set (sent_by Refresher ms) \<subseteq> set (listed ops) \<and>
    items (mon_cache s') k = (case last_of k ms of None \<Rightarrow> items (mon_cache s) k | Some r \<Rightarrow> Some r) \<and>
    length (buffer (mon_ch s')) \<le> monitorChBuffer"
  using monitor_run_facts [OF assms(1), of k] by (auto simp: assms(2,3)) (simp add: make_chan_def)

text \<open>
  C40: a refresh can undo a later report.  The refresher loads a listing and finds that the state of
  a task differs from the cached one; before its message is in the channel, the executor reports a
  newer state, which overtakes it.  The cache and the last update of the task in the repository are
  then the outdated state.  They stay so in every later run in which the task is neither listed nor
  reported: the monitor then writes to the repository only what other tasks have reported.
\<close>

theorem stale_refresh_undoes_report:
  assumes "mon_ch s = make_chan" and "listing s = []"
    and "res_TaskKey old = k" and "res_TaskKey new = k"
    and "\<And>r. cache_Get k (mon_cache s) = Some r \<Longrightarrow> res_Status old \<noteq> res_Status r"
  shows "\<exists>s'. monitor_run repo [MTick (Ok [old]), MCompare, MResult new, MSend Forwarder, MSend Refresher,
        MProcess rnd t1, MProcess rnd t2] s = Some ([(Forwarder, new), (Refresher, old)], s') \<and>
    cache_Get k (mon_cache s') = Some old \<and>
    mon_repo s' = snd (attempts 4 (UpdateTask repo (zero_Task\<lparr>task_TaskKey := k, task_Status := res_Status old\<rparr>))
      (snd (attempts 4 (UpdateTask repo (zero_Task\<lparr>task_TaskKey := k, task_Status := res_Status new\<rparr>))
        (mon_repo s)))) \<and>
    (\<forall>ops ms s2. monitor_run repo ops s' = Some (ms, s2) \<longrightarrow>
       k \<notin> res_TaskKey ` set (reported ops @ listed ops) \<longrightarrow>
       cache_Get k (mon_cache s2) = Some old \<and> (\<forall>m\<in>set ms. res_TaskKey (snd m) \<noteq> k) \<and>
       mon_repo s2 = foldl (\<lambda>r m. snd (attempts 4 (UpdateTask repo (zero_Task\<lparr>
         task_TaskKey := res_TaskKey (snd m), task_Status := res_Status (snd m)\<rparr>)) r)) (mon_repo s') ms)"
proof -
  let ?upd = "\<lambda>t. UpdateTask repo (zero_Task\<lparr>task_TaskKey := k, task_Status := res_Status t\<rparr>)"
  let ?s' = "s\<lparr>mon_repo := snd (attempts 4 (?upd old) (snd (attempts 4 (?upd new) (mon_repo s)))),
    mon_cache := Set t2 k old (Set t1 k new (mon_cache s)),
    mon_queue := Done change_key (key_change k) (Done change_key (key_change k) (mon_queue s))\<rparr>"
  have differs: "case cache_Get k (mon_cache s) of None \<Rightarrow> True | Some r \<Rightarrow> res_Status old \<noteq> res_Status r"
    using assms(5) by (simp split: option.split)
  have "monitor_run repo [MTick (Ok [old]), MCompare, MResult new, MSend Forwarder, MSend Refresher,
      MProcess rnd t1, MProcess rnd t2] s = Some ([(Forwarder, new), (Refresher, old)], ?s')"
    using assms(1-4) differs
    by (simp add: chan_defs monitorChBuffer_def monitor_message_eq fun_upd_def if_distrib cong: if_cong)
  moreover have "cache_Get k (mon_cache ?s') = Some old" by (simp add: cache_Get_def Set_def)
  moreover have "cache_Get k (mon_cache s2) = Some old \<and> (\<forall>m\<in>set ms. res_TaskKey (snd m) \<noteq> k) \<and>
      mon_repo s2 = write_results repo ms (mon_repo ?s')"
    if "monitor_run repo ops ?s' = Some (ms, s2)" "k \<notin> res_TaskKey ` set (reported ops @ listed ops)"
    for ops ms s2
  proof -
    have "mon_ch ?s' = make_chan" "listing ?s' = []" using assms(1,2) by simp_all
    from monitor_untouched [OF that(1) this that(2)] monitor_untouched_messages [OF that(1) this that(2)]
    show ?thesis using monitor_run_repo [OF that(1)] by (simp add: cache_Get_def Set_def)
  qed
  ultimately show ?thesis
    unfolding write_results_def by (intro exI [of _ ?s'] conjI allI impI) (auto simp del: monitor_run.simps)
qed

section \<open>Witnesses\<close>

definition demo_monitor :: "mem_repo monitor_sys" where
  "demo_monitor = \<lparr>mon_repo = demo_repo, mon_cache = demo_running ''a'', mon_queue = demo_changes,
     mon_ch = make_chan, listing = []\<rparr>"

theorem monitor_pipeline_witness:
  "\<exists>ms s'. monitor_run mem_TaskRepo [MResult (demo_result ''a'' TaskStatusPaused), MSend Forwarder,
       MResult (demo_result ''a'' TaskStatusRunning), MProcess (\<lambda>_. Fin 0 0) 5] demo_monitor = Some (ms, s') \<and>
     sent_by Forwarder ms @ under_way Forwarder (mon_ch s') =
       [demo_result ''a'' TaskStatusPaused, demo_result ''a'' TaskStatusRunning]"
proof -
  let ?ops = "[MResult (demo_result ''a'' TaskStatusPaused), MSend Forwarder,
       MResult (demo_result ''a'' TaskStatusRunning), MProcess (\<lambda>_. Fin 0 0) 5]"
  obtain ms s' where run: "monitor_run mem_TaskRepo ?ops demo_monitor = Some (ms, s')"
    by (simp add: demo_monitor_def chan_defs monitorChBuffer_def monitor_message_eq)
  from monitor_pipeline [OF this] have "sent_by Forwarder ms @ under_way Forwarder (mon_ch s') = reported ?ops"
    by (simp add: demo_monitor_def)
  with run show ?thesis by (intro exI conjI) auto
qed

theorem stale_refresh_undoes_report_witness:
  "\<exists>s'. monitor_run mem_TaskRepo [MTick (Ok [demo_result ''a'' TaskStatusPaused]), MCompare,
        MResult (demo_result ''a'' TaskStatusStop), MSend Forwarder, MSend Refresher,
        MProcess (\<lambda>_. Fin 0 0) 5, MProcess (\<lambda>_. Fin 0 0) 6] demo_monitor =
      Some ([(Forwarder, demo_result ''a'' TaskStatusStop), (Refresher, demo_result ''a'' TaskStatusPaused)], s') \<and>
    cache_Get ''a'' (mon_cache s') = Some (demo_result ''a'' TaskStatusPaused) \<and>
    map task_Status (updates (mon_repo s')) = [TaskStatusStop, TaskStatusPaused]"
proof -
  have none: "updates (mon_repo demo_monitor) = []" by (simp add: demo_monitor_def demo_repo_def)
  have "mon_ch demo_monitor = make_chan" "listing demo_monitor = []"
    "\<And>r. cache_Get ''a'' (mon_cache demo_monitor) = Some r \<Longrightarrow> TaskStatusPaused \<noteq> res_Status r"
    by (auto simp: demo_monitor_def cache_Get_def demo_running_items)
  from stale_refresh_undoes_report [OF this(1,2), where old = "demo_result ''a'' TaskStatusPaused"
      and new = "demo_result ''a'' TaskStatusStop" and k = "''a''" and repo = mem_TaskRepo
      and rnd = "\<lambda>_. Fin 0 0" and ?t1.0 = 5 and ?t2.0 = 6] this(3) none
  show ?thesis
    by (elim meta_impE exE) (auto simp: mem_TaskRepo_def eval_nat_numeral simp del: monitor_run.simps)
qed

end
