(* ===== verification/Triggers.thy ===== *)
theory Triggers
  imports Monitor
begin

text \<open>
  The triggers of the infomer (\<^verbatim>\<open>core/worker/infomer/trigger.go\<close> and the loop of
  \<open>enqueueIfTaskChange\<close> in \<^verbatim>\<open>infomer.go\<close>): \<open>makeTigger\<close> puts the listing of the runnable tasks into a
  channel with a buffer of 100 and starts a goroutine for the watch and one for the timer, which
  send into the same channel; the loop handles one trigger after the other until the context ends.
\<close>

section \<open>Goroutines and their steps\<close>

datatype trigger_source = Start | Watch | Timer

definition tasksChBuffer :: nat where "tasksChBuffer = 100"

record trigger_sys =
  tasksCh :: "(trigger_source, triggerInfo) chan"
  ctx_done :: bool
  loop_ended :: bool
  timer_ended :: bool

text \<open>The channel when \<open>makeTigger\<close> returns.\<close>

definition trigger_start :: "string list \<Rightarrow> trigger_sys" where
  "trigger_start keys = \<lparr>tasksCh = make_chan\<lparr>buffer := [(Start, \<lparr>resync = True, taskKeys = keys\<rparr>)]\<rparr>,
     ctx_done = False, loop_ended = False, timer_ended = False\<rparr>"

text \<open>
  A \<open>select\<close> with several ready cases takes any of them, so the loop and the timer can go on for a
  while after the end of the context.  \<open>TrTick\<close> carries the repository that the timer asks.
\<close>

datatype 'r trigger_op =
    TrWatch "string list"
  | TrTick 'r
  | TrSend trigger_source
  | TrTake
  | TrCancel
  | TrLoopEnd
  | TrTimerEnd

fun trigger_step ::
    "'r TaskRepo \<Rightarrow> string \<Rightarrow> 'r trigger_op \<Rightarrow> trigger_sys \<Rightarrow>
     ((trigger_source \<times> triggerInfo) list \<times> trigger_sys) option" where
  "trigger_step repo workerID (TrWatch keys) s =
     map_option (\<lambda>ch. ([], s\<lparr>tasksCh := ch\<rparr>)) (offer Watch (watch_trigger keys) (tasksCh s))"
| "trigger_step repo workerID (TrTick r) s =
     (if timer_ended s \<or> pending (tasksCh s) Timer \<noteq> None then None
      else case tick_trigger repo r workerID of
        None \<Rightarrow> Some ([], s)
      | Some info \<Rightarrow> map_option (\<lambda>ch. ([], s\<lparr>tasksCh := ch\<rparr>)) (offer Timer info (tasksCh s)))"
| "trigger_step repo workerID (TrSend p) s =
     map_option (\<lambda>ch. ([], s\<lparr>tasksCh := ch\<rparr>)) (send tasksChBuffer p (tasksCh s))"
| "trigger_step repo workerID TrTake s =
     (if loop_ended s then None
      else map_option (\<lambda>(m, ch). ([m], s\<lparr>tasksCh := ch\<rparr>)) (receive (tasksCh s)))"
| "trigger_step repo workerID TrCancel s = Some ([], s\<lparr>ctx_done := True\<rparr>)"
| "trigger_step repo workerID TrLoopEnd s = (if ctx_done s then Some ([], s\<lparr>loop_ended := True\<rparr>) else None)"
| "trigger_step repo workerID TrTimerEnd s = (if ctx_done s then Some ([], s\<lparr>timer_ended := True\<rparr>) else None)"

text \<open>A run; the first component are the triggers that the loop has handled, in order.\<close>

fun trigger_run ::
    "'r TaskRepo \<Rightarrow> string \<Rightarrow> 'r trigger_op list \<Rightarrow> trigger_sys \<Rightarrow>
     ((trigger_source \<times> triggerInfo) list \<times> trigger_sys) option" where
  "trigger_run repo workerID [] s = Some ([], s)"
| "trigger_run repo workerID (a # ops) s =
     (case trigger_step repo workerID a s of
        None \<Rightarrow> None
      | Some (ms, s1) \<Rightarrow>
          (case trigger_run repo workerID ops s1 of None \<Rightarrow> None | Some (ns, s2) \<Rightarrow> Some (ms @ ns, s2)))"

text \<open>The lists of keys that the watch has delivered in a run.\<close>

fun watched :: "'r trigger_op list \<Rightarrow> string list list" where
  "watched [] = []"
| "watched (TrWatch keys # ops) = keys # watched ops"
| "watched (a # ops) = watched ops"

section \<open>Order and bound\<close>

lemma watched_append: "watched (a # ops) = watched [a] @ watched ops"
  by (cases a) auto

text \<open>Everything in the order of its arrival: handled, then in the buffer.\<close>

lemma trigger_step_buffer:
  assumes "trigger_step repo workerID a s = Some (ms, s')"
  obtains ns where "ms @ buffer (tasksCh s') = buffer (tasksCh s) @ ns"
  using assms
  by (cases a) (auto simp: offer_def send_def receive_def split: if_splits option.splits list.splits)

lemma trigger_step_facts:
  assumes "trigger_step repo workerID a s = Some (ms, s')"
  shows "sent_by Watch ms @ under_way Watch (tasksCh s') =
      under_way Watch (tasksCh s) @ map watch_trigger (watched [a])"
    and "length (buffer (tasksCh s)) \<le> tasksChBuffer \<Longrightarrow> length (buffer (tasksCh s')) \<le> tasksChBuffer"
    and "loop_ended s \<Longrightarrow> ms = [] \<and> loop_ended s'"
proof -
  show "sent_by Watch ms @ under_way Watch (tasksCh s') =
      under_way Watch (tasksCh s) @ map watch_trigger (watched [a])"
    using assms
    by (cases a) (auto dest!: chan.offer_content [where q = Watch] chan.send_content [where q = Watch]
        chan.receive_content [where q = Watch] split: if_splits option.splits)
  show "length (buffer (tasksCh s')) \<le> tasksChBuffer" if "length (buffer (tasksCh s)) \<le> tasksChBuffer"
    using assms that
    by (cases a) (auto dest!: chan.offer_size chan.send_size chan.receive_size split: if_splits option.splits)
  show "ms = [] \<and> loop_ended s'" if "loop_ended s"
    using assms that by (cases a) (auto split: if_splits option.splits)
qed

lemma trigger_run_facts:
  "trigger_run repo workerID ops s = Some (ms, s') \<Longrightarrow>
     (\<exists>ns. ms @ buffer (tasksCh s') = buffer (tasksCh s) @ ns) \<and>
     sent_by Watch ms @ under_way Watch (tasksCh s') =
       under_way Watch (tasksCh s) @ map watch_trigger (watched ops) \<and>
     (length (buffer (tasksCh s)) \<le> tasksChBuffer \<longrightarrow> length (buffer (tasksCh s')) \<le> tasksChBuffer) \<and>
     (loop_ended s \<longrightarrow> ms = [])"
proof (induction ops arbitrary: s ms)
  case (Cons a ops)
  from Cons.prems obtain ms1 s1 ms2 where s: "trigger_step repo workerID a s = Some (ms1, s1)"
    "trigger_run repo workerID ops s1 = Some (ms2, s')" "ms = ms1 @ ms2"
    by (auto split: option.splits prod.splits)
  note IH = Cons.IH [OF s(2)] and f = trigger_step_facts [OF s(1)]
  obtain ns1 where ns1: "ms1 @ buffer (tasksCh s1) = buffer (tasksCh s) @ ns1"
    by (rule trigger_step_buffer [OF s(1)])
  obtain ns2 where "ms2 @ buffer (tasksCh s') = buffer (tasksCh s1) @ ns2" using IH by blast
  with ns1 have "ms @ buffer (tasksCh s') = buffer (tasksCh s) @ (ns1 @ ns2)"
    by (simp add: s(3))
  moreover have "sent_by Watch ms @ under_way Watch (tasksCh s') =
      under_way Watch (tasksCh s) @ map watch_trigger (watched (a # ops))"
    using IH f(1) by (simp add: s(3) watched_append [of a ops])
  moreover have "loop_ended s \<longrightarrow> ms = []" using IH f(3) by (auto simp: s(3))
  ultimately show ?case using IH f(2) by blast
qed simp

section \<open>Properties\<close>

text \<open>
  C24: no trigger is lost.  Whatever the watch, the timer and the loop do in turn, the first trigger
  that is handled is the full listing of the start; the lists of keys that the watch delivers are
  handled or under way, all of them, in order; the channel never holds more than a hundred triggers;
  and once the loop has ended nothing is handled any more.
\<close>

theorem triggers_in_order:
  assumes "trigger_run repo workerID ops (trigger_start keys) = Some (ms, s)"
  shows "(ms = [] \<or> hd ms = (Start, \<lparr>resync = True, taskKeys = keys\<rparr>)) \<and>
    sent_by Watch ms @ under_way Watch (tasksCh s) = map watch_trigger (watched ops) \<and>
    length (buffer (tasksCh s)) \<le> tasksChBuffer \<and>
    (\<forall>ops' ms' s'. loop_ended s \<longrightarrow> trigger_run repo workerID ops' s = Some (ms', s') \<longrightarrow> ms' = [])"
proof -
  let ?first = "(Start, \<lparr>resync = True, taskKeys = keys\<rparr>)"
  have start: "buffer (tasksCh (trigger_start keys)) = [?first]"
    "under_way Watch (tasksCh (trigger_start keys)) = []"
    by (simp_all add: trigger_start_def under_way_def make_chan_def)
  note f = trigger_run_facts [OF assms, unfolded start]
  then obtain ns where "ms @ buffer (tasksCh s) = ?first # ns" by auto
  then have "ms = [] \<or> hd ms = ?first" by (cases ms) auto
  moreover have "length (buffer (tasksCh s)) \<le> tasksChBuffer" using f by (simp add: tasksChBuffer_def)
  ultimately show ?thesis using f trigger_run_facts [of repo workerID _ s] by auto
qed

text \<open>
  An interval that is not positive stops the worker.  \<open>makeTigger\<close> replaces it by the default of
  fifteen seconds, but the refresher of \<open>Monitor\<close> passes it on to \<open>time.NewTicker\<close>, which panics.
\<close>

theorem nonpositive_resync_panics:
  assumes "ListRunnableTasks repo workerID r = Ok keys"
  shows "(\<exists>p. infomer_Run repo r WatchOk workerID resync_period False =
       (Ok (p, [\<lparr>resync = True, taskKeys = keys\<rparr>]), True) \<and> p > 0) \<and>
    (refresh_ticker resync_period = Panic \<longleftrightarrow> resync_period \<le> 0)"
  using assms
  by (auto simp: infomer_Run_def makeTigger_def refresh_ticker_def defaultResync_def second_def Let_def)

section \<open>Witnesses\<close>

theorem triggers_in_order_witness:
  "\<exists>ms s. trigger_run mem_TaskRepo ''w'' [TrWatch [''b''], TrTake, TrSend Watch, TrTick demo_repo, TrTake,
       TrCancel, TrLoopEnd] (trigger_start [''a'']) = Some (ms, s) \<and>
     hd ms = (Start, \<lparr>resync = True, taskKeys = [''a'']\<rparr>) \<and>
     sent_by Watch ms @ under_way Watch (tasksCh s) = [watch_trigger [''b'']]"
proof -
  let ?ops = "[TrWatch [''b''], TrTake, TrSend Watch, TrTick demo_repo, TrTake, TrCancel, TrLoopEnd]"
  obtain ms s where run: "trigger_run mem_TaskRepo ''w'' ?ops (trigger_start [''a'']) = Some (ms, s)" "ms \<noteq> []"
    by (simp add: trigger_start_def chan_defs tasksChBuffer_def tick_trigger_def mem_TaskRepo_def)
  from triggers_in_order [OF run(1)] run show ?thesis
    by (intro exI conjI) auto
qed

theorem nonpositive_resync_panics_witness:
  "infomer_Run mem_TaskRepo demo_repo WatchOk ''w'' 0 False =
     (Ok (15 * second, [\<lparr>resync = True, taskKeys = []\<rparr>]), True) \<and> refresh_ticker 0 = Panic"
proof -
  have "ListRunnableTasks mem_TaskRepo ''w'' demo_repo = Ok []"
    by (simp add: mem_TaskRepo_def demo_repo_def demo_task_def zero_Task_def)
  from nonpositive_resync_panics [OF this, of 0] show ?thesis
    by (auto simp: infomer_Run_def makeTigger_def defaultResync_def Let_def split: sum.splits)
qed

end
