(* ===== verification/WorkerRun.thy ===== *)
theory WorkerRun
  imports WorkerSystem Triggers
begin

text \<open>
  \<open>NewWorker\<close> and \<open>Run\<close> of \<^verbatim>\<open>core/worker/worker.go\<close>: how a worker is put together, and its life from the
  registration over the goroutines that it starts to the shutdown.
\<close>

section \<open>Definitions\<close>

record worker_parts =
  part_worker :: Worker
  part_opts :: options
  part_cache :: task_cache
  part_queue :: "Change Typed"

text \<open>
  \<open>loaded\<close> is what the executor manager lists; \<open>NewIndexer\<close> panics when that fails.
\<close>

definition NewWorker ::
    "nat \<Rightarrow> (TaskExecResult \<Rightarrow> time) \<Rightarrow> TaskExecResult list result \<Rightarrow> (nat \<Rightarrow> nat \<Rightarrow> nat) \<Rightarrow> time \<Rightarrow>
     string \<Rightarrow> string \<Rightarrow> 64 word \<Rightarrow> Option list \<Rightarrow> worker_parts run" where
  "NewWorker global now loaded grow t i ip port opts =
     (let options = newOptions global opts
      in case NewIndexer now loaded of
           Panic \<Rightarrow> Panic
         | Return c \<Rightarrow> Return \<lparr>part_worker = \<lparr>wid = i, wip = ip, wport = port\<rparr>, part_opts = options,
             part_cache = c, part_queue = NewTyped grow t\<rparr>)"

text \<open>
  What the other goroutines do in a stretch of time: rounds of the reporter, each with its random
  number and the load that it measures, and steps on the queue, the cache, the repository and the
  executors.
\<close>

type_synonym others = "(int \<times> (string \<rightharpoonup> string) result) list \<times> worker_op list"

text \<open>
  What happens around a call of \<open>Run\<close>: the load and the random numbers that it meets, how the watch
  of the infomer starts, what the other goroutines do until the context ends, before every attempt to
  mark the instance, before the drain begins, while it is waited for and between its end and the return
  of \<open>Run\<close> (nothing stops the reporter, and the syncer goes on with the stored changes); whether the
  context of the shutdown ends first, with which error, and whether the drain has begun by then.
\<close>

record worker_env =
  load :: "(string \<rightharpoonup> string) result"
  rnd :: "int \<Rightarrow> float64"
  watch :: watch_result
  env_running :: others
  env_marking :: "others list"
  env_starting :: others
  env_draining :: others
  env_leaving :: others
  timed_out :: "error option"
  drain_begun :: bool

text \<open>
  \<open>runInfomer\<close>: whether the infomer has started; an error is only logged.  Without it neither its loop
  nor the one over the results runs, and only the change syncer and the shutdown take steps.
\<close>

definition runInfomer :: "'r TaskRepo \<Rightarrow> options \<Rightarrow> watch_result \<Rightarrow> Worker \<Rightarrow> 'r \<Rightarrow> bool" where
  "runInfomer repo opts wr w r =
     (case infomer_Run repo r wr (wid w) (resync_interval opts) False of
        (Inl err, running) \<Rightarrow> False
      | (Inr trigger, running) \<Rightarrow> True)"

definition of_infomer :: "worker_op \<Rightarrow> bool" where
  "of_infomer a \<longleftrightarrow> (case a of WTrigger _ _ _ _ _ _ \<Rightarrow> True | WReport _ _ _ \<Rightarrow> True | _ \<Rightarrow> False)"

definition steps_of :: "bool \<Rightarrow> worker_op list \<Rightarrow> worker_op list" where
  "steps_of infomer_runs ops = (if infomer_runs then ops else filter (\<lambda>a. \<not> of_infomer a) ops)"

definition report_all ::
    "'d Discover \<Rightarrow> options \<Rightarrow> Worker \<Rightarrow> (int \<times> (string \<rightharpoonup> string) result) list \<Rightarrow> 'd \<Rightarrow> 'd" where
  "report_all disc opts w rounds d = foldl (\<lambda>d (n, u). snd (runResourceUsageReporter disc opts n u w d)) d rounds"

definition others_step ::
    "'d Discover \<Rightarrow> 'r TaskRepo \<Rightarrow> 's registry \<Rightarrow> options \<Rightarrow> bool \<Rightarrow> Worker \<Rightarrow> others \<Rightarrow>
     'd \<times> ('r, 's) worker_system \<Rightarrow> 'd \<times> ('r, 's) worker_system" where
  "others_step disc repo executors opts infomer_runs w x p =
     (report_all disc opts w (fst x) (fst p),
      snd (worker_run repo executors (steps_of infomer_runs (snd x)) (snd p)))"

text \<open>
  The closure that \<open>gracefulShutdown\<close> retries, with what the other goroutines do before the attempt;
  the error of \<open>GenerateStain\<close> is dropped.
\<close>

definition mark_attempt ::
    "'d Discover \<Rightarrow> (others \<Rightarrow> 'd \<times> 'w \<Rightarrow> 'd \<times> 'w) \<Rightarrow> Worker \<Rightarrow> ('d \<times> 'w) \<times> others list \<Rightarrow>
     error option \<times> ('d \<times> 'w) \<times> others list" where
  "mark_attempt disc go w st =
     (let p = (case snd st of [] \<Rightarrow> fst st | x # xs \<Rightarrow> go x (fst st));
          stain = (case GenerateStain Map.empty True of Inl err \<Rightarrow> Map.empty | Inr m \<Rightarrow> m);
          (err, d) = UpdateInstance disc (announce w False stain) (fst p)
      in (err, (d, snd p), tl (snd st)))"

definition mark_disabled ::
    "'d Discover \<Rightarrow> (others \<Rightarrow> 'd \<times> 'w \<Rightarrow> 'd \<times> 'w) \<Rightarrow> worker_env \<Rightarrow> Worker \<Rightarrow> 'd \<times> 'w \<Rightarrow> 'd \<times> 'w" where
  "mark_disabled disc go env w p =
     fst (snd (snd (retry_Do (rnd env) (mark_attempt disc go w) (p, env_marking env))))"

text \<open>
  \<open>gracefulShutdown\<close>: the instance is marked, with retries; then the drain of the queue is begun by a
  goroutine of its own and waited for, at most for a positive time limit.  The state at the begin of the
  drain and at its end have names of their own.  The result is \<open>None\<close> while the shutdown waits.
\<close>

definition drain_begins ::
    "'d Discover \<Rightarrow> (others \<Rightarrow> 'd \<times> 'w \<Rightarrow> 'd \<times> 'w) \<Rightarrow> worker_env \<Rightarrow> Worker \<Rightarrow> 'd \<times> 'w \<Rightarrow> 'd \<times> 'w" where
  "drain_begins disc go env w p = go (env_starting env) (mark_disabled disc go env w p)"

definition begin_drain :: "('r, 's) worker_system \<Rightarrow> ('r, 's) worker_system" where
  "begin_drain ws = ws\<lparr>ws_queue := infomer_Shutdown (ws_queue ws)\<rparr>"

definition drain_ends ::
    "(others \<Rightarrow> 'd \<times> ('r, 's) worker_system \<Rightarrow> 'd \<times> ('r, 's) worker_system) \<Rightarrow> worker_env \<Rightarrow>
     'd \<times> ('r, 's) worker_system \<Rightarrow> 'd \<times> ('r, 's) worker_system" where
  "drain_ends go env p = go (env_draining env) (fst p, begin_drain (snd p))"

definition gracefulShutdown ::
    "'d Discover \<Rightarrow> (others \<Rightarrow> 'd \<times> ('r, 's) worker_system \<Rightarrow> 'd \<times> ('r, 's) worker_system) \<Rightarrow>
     options \<Rightarrow> worker_env \<Rightarrow> Worker \<Rightarrow> 'd \<times> ('r, 's) worker_system \<Rightarrow>
     (error option \<times> 'd \<times> ('r, 's) worker_system) option" where
  "gracefulShutdown disc go opts env w p =
     (let p1 = drain_begins disc go env w p;
          stopErr = (if shutdownTimeout opts > 0 then timed_out env else None);
          p2 = (if stopErr = None \<or> drain_begun env then drain_ends go env p1
                else go (env_draining env) p1)
      in map_option (\<lambda>err. (err, p2)) (Shutdown_result (ws_queue (snd p2)) stopErr))"

text \<open>
  The first \<open>Run\<close> of a worker.  The result is \<open>None\<close> while the shutdown waits.  A failed \<open>init\<close> is
  returned before the clean-up is deferred; otherwise the instance is unregistered when \<open>Run\<close> returns.
\<close>

definition Worker_Run ::
    "'d Discover \<Rightarrow> 'r TaskRepo \<Rightarrow> 's registry \<Rightarrow> options \<Rightarrow> worker_env \<Rightarrow> Worker \<Rightarrow> 'd \<Rightarrow>
     ('r, 's) worker_system \<Rightarrow> (error option \<times> 'd \<times> ('r, 's) worker_system) option" where
  "Worker_Run disc repo executors opts env w d ws =
     (case worker_init disc (load env) w d of
        (Some err, w1, d1) \<Rightarrow> Some (Some err, d1, ws)
      | (None, w1, d1) \<Rightarrow>
          let go = others_step disc repo executors opts (runInfomer repo opts (watch env) w1 (ws_repo ws)) w1
          in case gracefulShutdown disc go opts env w1 (go (env_running env) (d1, ws)) of
               None \<Rightarrow> None
             | Some (err, p) \<Rightarrow>
                 let p1 = go (env_leaving env) p
                 in Some (err, snd (worker_clear disc w1 (fst p1)), snd p1))"

section \<open>Facts\<close>

lemma worker_run_inv:
  "queue_inv change_key (ws_queue ws) \<Longrightarrow>
     queue_inv change_key (ws_queue (snd (worker_run repo executors ops ws)))"
proof (induction ops arbitrary: ws)
  case (Cons a ops)
  have "queue_inv change_key (ws_queue (snd (worker_step repo executors a ws)))"
    using worker_step_serial [OF Cons.prems, where es = "[]"] by simp
  from Cons.IH [OF this] show ?case by (simp add: Let_def split_beta)
qed simp

definition closing :: "Change Typed \<Rightarrow> bool" where
  "closing q \<longleftrightarrow> shuttingDown q \<and> drain q"

lemma closing_Get: "closing q \<Longrightarrow> closing (snd (Get uk q))"
  by (auto simp: closing_def Get_def split: run.splits)

lemma closing_Done: "closing (Done uk x q) = closing q"
  by (simp add: closing_def Done_def Let_def)

lemma Done_elems: "elems (queue (Done uk x q)) = elems (queue q)"
  by (simp add: Done_def Let_def)

lemma closing_add_all: "closing q \<Longrightarrow> snd (add_all (Add uk) xs q) = q"
  by (rule typed.add_all_closed) (simp add: closing_def)

lemma closing_enqueue: "closing q' \<Longrightarrow> snd (enqueueIfTaskChange repo q ks1 c1 ks2 c2 info r q') = q'"
  by (simp add: enqueueIfTaskChange_def closing_add_all split_beta Let_def split: sum.split)

lemma closing_sync:
  assumes "closing q"
  shows "closing (fst (snd (runChangeSyncer executors q s))) \<and>
    set (elems (queue (fst (snd (runChangeSyncer executors q s))))) \<subseteq> set (elems (queue q))"
proof -
  have "set (elems (queue (snd (Get change_key q)))) \<subseteq> set (elems (queue q))"
    by (auto simp: Get_def Pop_def Let_def split: run.splits list.splits if_splits)
  then show ?thesis
    using closing_Get [OF assms, of change_key]
    by (auto simp: runChangeSyncer_def WaitChange_def JumpChange_def closing_Done Done_elems split_beta
        split: get_outcome.splits call_outcome.splits option.splits prod.splits)
qed

lemma closing_step:
  assumes "closing (ws_queue ws)"
  shows "closing (ws_queue (snd (worker_step repo executors a ws))) \<and>
    set (elems (queue (ws_queue (snd (worker_step repo executors a ws))))) \<subseteq> set (elems (queue (ws_queue ws)))"
proof (cases a)
  case (WTrigger q ks1 c1 ks2 c2 info)
  with assms show ?thesis by (simp add: Let_def split_beta closing_enqueue [OF assms])
next
  case WSync
  with closing_sync [OF assms, of executors "ws_exec ws"] show ?thesis by (simp add: Let_def split_beta)
next
  case (WReport n now t)
  with assms show ?thesis by (simp add: monitor_message_eq closing_Done Done_elems)
next
  case WShutdown
  with assms show ?thesis by (simp add: closing_def infomer_Shutdown_def ShutDownWithDrain_def)
qed

lemma closing_run:
  "closing (ws_queue ws) \<Longrightarrow> closing (ws_queue (snd (worker_run repo executors ops ws))) \<and>
     set (elems (queue (ws_queue (snd (worker_run repo executors ops ws))))) \<subseteq> set (elems (queue (ws_queue ws)))"
proof (induction ops arbitrary: ws)
  case (Cons a ops)
  with closing_step [OF Cons.prems, of repo executors a] show ?case
    by (simp add: Let_def split_beta) (meson Cons.IH subset_trans)
qed simp

lemma closing_begin: "closing (ws_queue (begin_drain ws))"
  by (simp add: begin_drain_def closing_def infomer_Shutdown_def ShutDownWithDrain_def)

lemma begin_drain_frame [simp]:
  "processing (ws_queue (begin_drain ws)) = processing (ws_queue ws)"
  "elems (queue (ws_queue (begin_drain ws))) = elems (queue (ws_queue ws))"
  "ws_repo (begin_drain ws) = ws_repo ws" "ws_cache (begin_drain ws) = ws_cache ws"
  "ws_exec (begin_drain ws) = ws_exec ws"
  "queue_inv change_key (ws_queue (begin_drain ws)) = queue_inv change_key (ws_queue ws)"
  by (simp_all add: begin_drain_def infomer_Shutdown_def) (simp_all add: ShutDownWithDrain_def)

text \<open>Only a stored change is handed out while the queue drains.\<close>

lemma sync_delivers:
  "Delivered c \<in> set (sync_events out q) \<Longrightarrow> c \<in> set (elems (queue q))"
  by (auto simp: sync_events_def WaitChange_def Get_def Pop_def Let_def
      split: get_outcome.splits syncer_outcome.splits option.splits run.splits list.splits if_splits)

lemma step_delivers:
  "Delivered c \<in> set (fst (worker_step repo executors a ws)) \<Longrightarrow> c \<in> set (elems (queue (ws_queue ws)))"
  by (cases a) (auto simp: Let_def split_beta intro: sync_delivers)

lemma closing_delivers:
  "closing (ws_queue ws) \<Longrightarrow> Delivered c \<in> set (fst (worker_run repo executors ops ws)) \<Longrightarrow>
     c \<in> set (elems (queue (ws_queue ws)))"
proof (induction ops arbitrary: ws)
  case (Cons a ops)
  let ?ws = "snd (worker_step repo executors a ws)"
  note cl = closing_step [OF Cons.prems(1), of repo executors a]
  from Cons.prems(2) consider "Delivered c \<in> set (fst (worker_step repo executors a ws))"
    | "Delivered c \<in> set (fst (worker_run repo executors ops ?ws))"
    by (auto simp: Let_def split_beta)
  then show ?case
  proof cases
    case 2
    then show ?thesis using Cons.IH [of ?ws] cl by blast
  qed (rule step_delivers)
qed simp

text \<open>What the retried marking keeps.\<close>

lemma attempts_keep:
  "(\<And>s. P s \<Longrightarrow> P (snd (fn s))) \<Longrightarrow> P s \<Longrightarrow> P (snd (attempts n fn s))"
proof (induction n fn s rule: attempts.induct)
  case (2 n fn s)
  obtain e s1 where fn: "fn s = (e, s1)" by fastforce
  then have "P s1" using "2.prems" by (metis snd_conv)
  then show ?case using "2.IH" [OF fn [symmetric] refl] "2.prems"(1) fn by auto
qed simp

lemma mark_disabled_keeps:
  assumes "\<And>x p. P (snd p) \<Longrightarrow> P (snd (go x p))" and "P (snd p)"
  shows "P (snd (mark_disabled disc go env w p))"
proof -
  have "P (snd (fst (snd (mark_attempt disc go w st))))" if "P (snd (fst st))" for st
    using that assms(1) by (auto simp: mark_attempt_def Let_def split_beta split: list.split)
  from attempts_keep [where P = "\<lambda>st. P (snd (fst st))" and fn = "mark_attempt disc go w" and s = "(p, env_marking env)" and n = 4,
      OF this] assms(2)
  show ?thesis by (simp add: mark_disabled_def retry_Do_attempts)
qed

lemma mark_disabled_alone:
  assumes "env_marking env = []"
  shows "snd (mark_disabled disc go env w p) = snd p"
proof -
  have "snd (fst (snd (mark_attempt disc go w st))) = v \<and> snd (snd (mark_attempt disc go w st)) = []"
    if "snd (fst st) = v \<and> snd st = []" for st v
    using that by (simp add: mark_attempt_def Let_def split_beta)
  from attempts_keep [where P = "\<lambda>st. snd (fst st) = snd p \<and> snd st = []" and fn = "mark_attempt disc go w"
      and s = "(p, [])" and n = 4, OF this] assms
  show ?thesis by (simp add: mark_disabled_def retry_Do_attempts)
qed

lemma drain_begins_keeps:
  assumes "\<And>x p. P (snd p) \<Longrightarrow> P (snd (go x p))" and "P (snd p)"
  shows "P (snd (drain_begins disc go env w p))"
  unfolding drain_begins_def using assms(1) mark_disabled_keeps [of P go, OF assms] by blast

lemma snd_others_step [simp]:
  "snd (others_step disc repo executors opts up w x p) =
     snd (worker_run repo executors (steps_of up (snd x)) (snd p))"
  "fst (others_step disc repo executors opts up w x p) = report_all disc opts w (fst x) (fst p)"
  by (simp_all add: others_step_def)

text \<open>The registration changes the worker's id at most.\<close>

lemma worker_init_frame:
  assumes "worker_init disc usage w d = (e, w1, d1)"
  shows "wip w1 = wip w \<and> wport w1 = wport w"
proof -
  have "wip w2 = wip w \<and> wport w2 = wport w" if "setInstanceID disc w x = (e, w2, y)" for x e w2 y
    using that setInstanceID_loop_frame [of disc 10 w x]
    by (auto simp: setInstanceID_def Let_def split: prod.splits if_splits)
  with assms show ?thesis
    by (auto simp: worker_init_def split: sum.splits prod.splits if_splits option.splits)
qed

section \<open>The calls of service discovery\<close>

text \<open>What the rounds of the reporter and an attempt to mark the instance announce.\<close>

definition load_calls :: "Worker \<Rightarrow> (int \<times> (string \<rightharpoonup> string) result) list \<Rightarrow> discover_call list" where
  "load_calls w rounds = concat (map (\<lambda>(n, u). case generateInstanceMetadata (wid w) u of
       Inl err \<Rightarrow> []
     | Inr md \<Rightarrow> [CallUpdate \<lparr>sent_Ip = wip w, sent_Port = wport w, sent_Healthy = True,
         sent_Enable = True, sent_Metadata = md\<rparr>]) rounds)"

definition mark_call :: "Worker \<Rightarrow> discover_call" where
  "mark_call w = CallUpdate \<lparr>sent_Ip = wip w, sent_Port = wport w, sent_Healthy = True,
     sent_Enable = False, sent_Metadata = [stainDisable \<mapsto> ''true'']\<rparr>"

definition mark_calls :: "Worker \<Rightarrow> others list \<Rightarrow> discover_call list" where
  "mark_calls w xs = concat (map (\<lambda>x. load_calls w (fst x) @ [mark_call w]) xs)"

lemma load_calls_simps [simp]:
  "load_calls w [] = []" "load_calls w (xs @ ys) = load_calls w xs @ load_calls w ys"
  by (simp_all add: load_calls_def)

lemma mark_calls_simps [simp]:
  "mark_calls w [] = []"
  "mark_calls w (x # xs) = load_calls w (fst x) @ mark_call w # mark_calls w xs"
  by (simp_all add: mark_calls_def)

lemma report_all_recording:
  "\<exists>d'. report_all (recording disc) opts w rounds (d, l) = (d', l @ load_calls w rounds)"
proof (induction rounds arbitrary: d l)
  case Nil
  then show ?case by (simp add: report_all_def)
next
  case (Cons x rounds)
  obtain n u where x: "x = (n, u)" by (cases x)
  have rest: "report_all (recording disc) opts w (x # rounds) (d, l) =
      report_all (recording disc) opts w rounds (snd (runResourceUsageReporter (recording disc) opts n u w (d, l)))"
    by (simp add: report_all_def x)
  show ?case
  proof (cases "generateInstanceMetadata (wid w) u")
    case (Inl err)
    then have "snd (runResourceUsageReporter (recording disc) opts n u w (d, l)) = (d, l)"
      by (simp add: runResourceUsageReporter_def)
    with Cons.IH [of d l] Inl show ?thesis by (simp add: rest [unfolded x] x load_calls_def)
  next
    case (Inr md)
    then have "snd (runResourceUsageReporter (recording disc) opts n u w (d, l)) =
        (snd (UpdateInstance disc (announce w True md) d), l @ [CallUpdate (announce w True md)])"
      by (simp add: runResourceUsageReporter_def recording_defs split_beta)
    with Cons.IH [of "snd (UpdateInstance disc (announce w True md) d)" "l @ [CallUpdate (announce w True md)]"] Inr
    show ?thesis by (simp add: rest [unfolded x] x load_calls_def announce_def)
  qed
qed

lemma take_pad: "k \<le> m \<Longrightarrow> take k (xs @ replicate (Suc m) e) = take k (xs @ replicate m e)"
proof -
  assume "k \<le> m"
  then have "k - length xs \<le> m" by simp
  then show ?thesis by (simp add: min_def del: replicate_Suc)
qed

text \<open>The retried marking: at least one attempt and at most as many as allowed.\<close>

lemma last_mark_calls: "k \<noteq> 0 \<Longrightarrow> last (l @ mark_calls w (replicate k ([], []))) = mark_call w"
proof -
  have "mark_calls w (replicate k ([], [])) = replicate k (mark_call w)" by (induction k) simp_all
  then show "k \<noteq> 0 \<Longrightarrow> ?thesis" by simp
qed

lemma mark_attempt_recording:
  assumes "\<And>x p. fst (go x p) = report_all (recording disc) opts w (fst x) (fst p)"
  shows "\<exists>e d' ws'. mark_attempt (recording disc) go w (((d, l), ws), todo) =
    (e, ((d', l @ mark_calls w [case todo of [] \<Rightarrow> ([], []) | x # xs \<Rightarrow> x]), ws'), tl todo)"
proof (cases todo)
  case Nil
  then show ?thesis
    by (auto simp: mark_attempt_def recording_defs shutdown_stain announce_def mark_call_def split_beta Let_def)
next
  case (Cons x xs)
  obtain d1 where d1: "fst (go x ((d, l), ws)) = (d1, l @ load_calls w (fst x))"
    using report_all_recording [of disc opts w "fst x" d l] assms [of x "((d, l), ws)"] by auto
  then show ?thesis
    by (auto simp: Cons mark_attempt_def recording_defs shutdown_stain announce_def mark_call_def split_beta Let_def)
qed

lemma attempts_recording:
  assumes "\<And>x p. fst (go x p) = report_all (recording disc) opts w (fst x) (fst p)"
  shows "\<exists>e k d' ws' rest. 1 \<le> k \<and> k \<le> Suc n \<and>
    attempts (Suc n) (mark_attempt (recording disc) go w) (((d, l), ws), todo) =
      (e, ((d', l @ mark_calls w (take k (todo @ replicate (Suc n) ([], [])))), ws'), rest)"
proof (induction n arbitrary: d l ws todo)
  case (0 d l ws todo)
  obtain e d' ws' where step: "mark_attempt (recording disc) go w (((d, l), ws), todo) =
      (e, ((d', l @ mark_calls w [case todo of [] \<Rightarrow> ([], []) | x # xs \<Rightarrow> x]), ws'), tl todo)"
    using mark_attempt_recording [OF assms] by blast
  have "take 1 (todo @ [([], [])]) = [case todo of [] \<Rightarrow> ([], []) | x # xs \<Rightarrow> x]" by (cases todo) simp_all
  with step show ?case by (intro exI [of _ e] exI [of _ 1]) (simp del: mark_calls_simps)
next
  case (Suc n d l ws todo)
  let ?x = "case todo of [] \<Rightarrow> ([], []) | x # xs \<Rightarrow> x" and ?pad = "\<lambda>n. replicate n ([], [])"
  obtain e d1 ws1 where step: "mark_attempt (recording disc) go w (((d, l), ws), todo) =
      (e, ((d1, l @ mark_calls w [?x]), ws1), tl todo)"
    using mark_attempt_recording [OF assms] by blast
  have hd: "take (Suc k) (todo @ ?pad (Suc (Suc n))) = ?x # take k (tl todo @ ?pad (Suc n))" if "k \<le> Suc n" for k
  proof (cases todo)
    case (Cons a list)
    then show ?thesis using take_pad [OF that, of list "([], [])"] by (simp del: replicate_Suc take_append)
  qed simp
  show ?case
  proof (cases "e = None")
    case True
    have "take 1 (todo @ ?pad (Suc (Suc n))) = [?x]" using hd [of 0] by simp
    with step True show ?thesis by (intro exI [of _ e] exI [of _ 1]) (simp del: mark_calls_simps)
  next
    case False
    from Suc.IH [of d1 "l @ mark_calls w [?x]" ws1 "tl todo"] obtain e' k d' ws' rest where
      k: "1 \<le> k" "k \<le> Suc n" and run: "attempts (Suc n) (mark_attempt (recording disc) go w)
        (((d1, l @ mark_calls w [?x]), ws1), tl todo) =
      (e', ((d', (l @ mark_calls w [?x]) @ mark_calls w (take k (tl todo @ ?pad (Suc n)))), ws'), rest)" by blast
    have "attempts (Suc (Suc n)) (mark_attempt (recording disc) go w) (((d, l), ws), todo) =
        attempts (Suc n) (mark_attempt (recording disc) go w) (((d1, l @ mark_calls w [?x]), ws1), tl todo)"
      using False by (subst attempts.simps(2)) (auto simp: step simp del: attempts.simps)
    then have "attempts (Suc (Suc n)) (mark_attempt (recording disc) go w) (((d, l), ws), todo) =
        (e', ((d', l @ mark_calls w (take (Suc k) (todo @ ?pad (Suc (Suc n))))), ws'), rest)"
      unfolding run hd [OF k(2)] by simp
    with k show ?thesis by (intro exI [of _ e'] exI [of _ "Suc k"]) (simp del: attempts.simps)
  qed
qed

lemma mark_disabled_recording:
  assumes "\<And>x p. fst (go x p) = report_all (recording disc) opts w (fst x) (fst p)"
  shows "\<exists>k d' ws'. 1 \<le> k \<and> k \<le> 4 \<and> mark_disabled (recording disc) go env w ((d, l), ws) =
    ((d', l @ mark_calls w (take k (env_marking env @ replicate 4 ([], [])))), ws')"
proof -
  have "mark_disabled (recording disc) go env w ((d, l), ws) =
      fst (snd (attempts (Suc 3) (mark_attempt (recording disc) go w) (((d, l), ws), env_marking env)))"
    by (simp add: mark_disabled_def retry_Do_attempts del: attempts.simps)
  with attempts_recording [where go = go and n = 3, OF assms, of d l ws "env_marking env"] show ?thesis
    by (fastforce simp del: attempts.simps)
qed

text \<open>The shutdown up to its drain when the other goroutines do nothing.\<close>

lemma drain_begins_alone:
  assumes "env_marking env = []" and "env_starting env = ([], [])"
  obtains d' calls where "drain_begins (recording disc) (others_step (recording disc) repo executors opts up w) env w
      ((d, l), ws) = ((d', calls), ws)" and "last calls = mark_call w"
proof -
  let ?go = "others_step (recording disc) repo executors opts up w"
  have go: "fst (?go x p) = report_all (recording disc) opts w (fst x) (fst p)" for x p by simp
  obtain k d' ws' where k: "1 \<le> k" "k \<le> 4" and marked: "mark_disabled (recording disc) ?go env w ((d, l), ws) =
      ((d', l @ mark_calls w (take k (env_marking env @ replicate 4 ([], [])))), ws')"
    using mark_disabled_recording [where go = ?go and env = env, OF go, of d l ws] by blast
  have "take k (env_marking env @ replicate 4 ([], [])) = replicate k ([], [])"
    using k(2) by (simp add: assms(1) min_def)
  then have "last (l @ mark_calls w (take k (env_marking env @ replicate 4 ([], [])))) = mark_call w"
    using last_mark_calls [of k l w] k(1) by simp
  moreover have "ws' = ws"
    using mark_disabled_alone [OF assms(1), of "recording disc" ?go w "((d, l), ws)"] marked by simp
  moreover have "?go ([], []) p = p" for p by (simp add: others_step_def report_all_def steps_of_def)
  ultimately show thesis using that marked by (simp add: drain_begins_def assms(2))
qed

lemma setInstanceID_recording:
  "\<exists>m d'. m \<le> n \<and> snd (setInstanceID_loop (recording disc) n w (d, l)) = (d', l @ replicate m CallList)"
proof (induction n arbitrary: w d l)
  case 0
  then show ?case by simp
next
  case (Suc n)
  show ?case
  proof (cases "wid w = []")
    case True
    obtain r d1 where get: "GetAvailableInstances (recording disc) (d, l) = (r, (d1, l @ [CallList]))"
      by (cases "GetAvailableInstances disc d") (simp add: recording_defs)
    then have "\<exists>w'. setInstanceID_loop (recording disc) (Suc n) w (d, l) =
        setInstanceID_loop (recording disc) n w' (d1, l @ [CallList])"
      using True by (cases r) auto
    then obtain w' where "setInstanceID_loop (recording disc) (Suc n) w (d, l) =
        setInstanceID_loop (recording disc) n w' (d1, l @ [CallList])" by blast
    with Suc.IH [of w' d1 "l @ [CallList]"] show ?thesis
      by (metis (no_types, lifting) Suc_le_mono append_assoc append_Cons append_Nil replicate_Suc)
  next
    case False
    then show ?thesis by (auto intro!: exI [of _ 0])
  qed
qed

lemma worker_init_recording:
  assumes "worker_init (recording disc) usage w (d, []) = (None, w1, dl)"
  shows "\<exists>md m d'. generateInstanceMetadata (wid w) usage = Ok md \<and> m \<le> 10 \<and>
    dl = (d', CallRegister \<lparr>sent_Ip = wip w, sent_Port = wport w, sent_Healthy = True,
      sent_Enable = True, sent_Metadata = md\<rparr> # replicate m CallList)"
proof -
  obtain md where md: "generateInstanceMetadata (wid w) usage = Ok md"
    using assms by (cases "generateInstanceMetadata (wid w) usage") (auto simp: worker_init_def)
  let ?call = "CallRegister (announce w True md)"
  obtain r d1 where reg: "Register (recording disc) (announce w True md) (d, []) = (r, (d1, [?call]))"
    by (cases "Register disc (announce w True md) d") (simp add: recording_defs)
  show ?thesis
  proof (cases "wid w = []")
    case False
    with assms md reg have "dl = (d1, [?call])" by (auto simp: worker_init_def split: sum.splits if_splits)
    with md show ?thesis by (auto simp: announce_def intro!: exI [of _ 0])
  next
    case True
    with assms md reg have "dl = snd (setInstanceID_loop (recording disc) 10 w (d1, [?call]))"
      by (auto simp: worker_init_def setInstanceID_def Let_def split: sum.splits if_splits prod.splits option.splits)
    with setInstanceID_recording [of 10 disc w d1 "[?call]"] md show ?thesis by (auto simp: announce_def)
  qed
qed

section \<open>Properties\<close>

text \<open>
  C14: a worker drains before it leaves.  If \<open>Run\<close> returns without an error, the worker had been
  registered, and when the drain of the queue is seen to be over, the queue is shut down and every
  change that was handed to an executor has failed or has had its result reported.  While the instance
  is being marked, in up to four attempts, changes may still be queued; from the begin of the drain on
  none is, whatever triggers still come, and every change that is handed out was stored then.  That holds
  until \<open>Run\<close> returns: in this last stretch the syncer may still hand out changes that the drain has left
  in the queue, and nothing else.  The last call that \<open>Run\<close> makes is the one that unregisters its own
  address.  If \<open>Run\<close> returns an error, either the registration failed and nothing has been started, or
  a time limit was set and has ended the wait.
\<close>

theorem Run_ends_drained:
  assumes "queue_inv change_key (ws_queue ws)"
    and "Worker_Run disc repo executors opts env w d ws = Some (err, d', ws')"
  shows "(err = None \<longrightarrow> (\<exists>w1 d1 up go p0 p1 p2.
      worker_init disc (load env) w d = (None, w1, d1) \<and> wip w1 = wip w \<and> wport w1 = wport w \<and>
      up = runInfomer repo opts (watch env) w1 (ws_repo ws) \<and>
      go = others_step disc repo executors opts up w1 \<and>
      p0 = drain_begins disc go env w1 (go (env_running env) (d1, ws)) \<and>
      p1 = drain_ends go env p0 \<and> p2 = go (env_leaving env) p1 \<and>
      shuttingDown (ws_queue (snd p1)) \<and> processing (ws_queue (snd p1)) = {} \<and>
      set (elems (queue (ws_queue (snd p1)))) \<subseteq> set (elems (queue (ws_queue (snd p0)))) \<and>
      ws' = snd p2 \<and> shuttingDown (ws_queue ws') \<and>
      set (elems (queue (ws_queue ws'))) \<subseteq> set (elems (queue (ws_queue (snd p1)))) \<and>
      (\<forall>c. Delivered c \<in> set (fst (worker_run repo executors (steps_of up (snd (env_draining env)))
          (begin_drain (snd p0)))) \<longrightarrow> c \<in> set (elems (queue (ws_queue (snd p0))))) \<and>
      (\<forall>c. Delivered c \<in> set (fst (worker_run repo executors (steps_of up (snd (env_leaving env)))
          (snd p1))) \<longrightarrow> c \<in> set (elems (queue (ws_queue (snd p1))))) \<and>
      d' = snd (UnRegister disc \<lparr>sent_Ip = wip w, sent_Port = wport w, sent_Healthy = False,
        sent_Enable = False, sent_Metadata = Map.empty\<rparr> (fst p2)))) \<and>
    (err \<noteq> None \<longrightarrow> (ws' = ws \<and> fst (worker_init disc (load env) w d) = err) \<or>
      (0 < shutdownTimeout opts \<and> timed_out env = err))"
proof -
  obtain e1 w1 d1 where init: "worker_init disc (load env) w d = (e1, w1, d1)" by (cases "worker_init disc (load env) w d")
  show ?thesis
  proof (cases e1)
    case (Some e)
    with assms(2) init show ?thesis by (auto simp: Worker_Run_def)
  next
    case None
    let ?up = "runInfomer repo opts (watch env) w1 (ws_repo ws)"
    let ?go = "others_step disc repo executors opts ?up w1"
    let ?p0 = "drain_begins disc ?go env w1 (?go (env_running env) (d1, ws))"
    let ?p1 = "drain_ends ?go env ?p0"
    let ?stop = "if 0 < shutdownTimeout opts then timed_out env else None"
    obtain p where g: "gracefulShutdown disc ?go opts env w1 (?go (env_running env) (d1, ws)) = Some (err, p)"
      and out: "d' = snd (worker_clear disc w1 (fst (?go (env_leaving env) p)))" "ws' = snd (?go (env_leaving env) p)"
      using assms(2) init None by (auto simp: Worker_Run_def Let_def split: option.splits)
    show ?thesis
    proof (cases "err = None")
      case False
      with g have "?stop = err"
        by (auto simp: gracefulShutdown_def Let_def Shutdown_result_def split: option.splits if_splits)
      with False show ?thesis by (auto split: if_splits)
    next
      case True
      with g have p: "p = ?p1" "\<not> drain_waits (ws_queue (snd ?p1))"
        by (auto simp: gracefulShutdown_def Let_def Shutdown_result_def split: option.splits if_splits)
      have keep: "queue_inv change_key (ws_queue (snd (?go x q)))" if "queue_inv change_key (ws_queue (snd q))" for x q
        using worker_run_inv [OF that] by simp
      have inv0: "queue_inv change_key (ws_queue (snd ?p0))"
        by (rule drain_begins_keeps [where P = "\<lambda>ws. queue_inv change_key (ws_queue ws)"])
          (rule keep, assumption, rule keep, simp add: assms(1))
      have inv1: "queue_inv change_key (ws_queue (snd ?p1))"
        unfolding drain_ends_def by (rule keep) (simp add: inv0)
      note run1 = closing_run [OF closing_begin [of "snd ?p0"], of repo executors "steps_of ?up (snd (env_draining env))"]
      then have cl1: "closing (ws_queue (snd ?p1))"
        "set (elems (queue (ws_queue (snd ?p1)))) \<subseteq> set (elems (queue (ws_queue (snd ?p0))))"
        by (simp_all add: drain_ends_def)
      note run2 = closing_run [OF cl1(1), of repo executors "steps_of ?up (snd (env_leaving env))"]
      have "processing (ws_queue (snd ?p1)) = {}"
        using p(2) cl1(1) inv1 by (auto simp: drain_waits_def closing_def set_len_def queue_inv_def)
      moreover have "\<And>c. Delivered c \<in> set (fst (worker_run repo executors (steps_of ?up (snd (env_draining env)))
          (begin_drain (snd ?p0)))) \<Longrightarrow> c \<in> set (elems (queue (ws_queue (snd ?p0))))"
        using closing_delivers [OF closing_begin] by force
      moreover have "d' = snd (UnRegister disc \<lparr>sent_Ip = wip w, sent_Port = wport w, sent_Healthy = False,
          sent_Enable = False, sent_Metadata = Map.empty\<rparr> (fst (?go (env_leaving env) ?p1)))"
        using worker_init_frame [OF init] unfolding out(1) p(1)
        by (simp add: worker_clear_def split_beta split: sum.split prod.split)
      ultimately show ?thesis
        using True init None worker_init_frame [OF init] cl1 run2 closing_delivers [OF cl1(1)] out(2) p(1)
        by (intro conjI impI exI [of _ w1] exI [of _ d1] exI [of _ ?up] exI [of _ ?go] exI [of _ ?p0]
            exI [of _ ?p1] exI [of _ "?go (env_leaving env) ?p1"])
          (simp_all add: closing_def)
    qed
  qed
qed

text \<open>Without the infomer nothing reaches an empty queue.\<close>

definition idle_queue :: "Change Typed \<Rightarrow> bool" where
  "idle_queue q \<longleftrightarrow> elems (queue q) = [] \<and> processing q = {}"

lemma idle_step:
  assumes "idle_queue (ws_queue ws)" and "\<not> of_infomer a"
  shows "idle_queue (ws_queue (snd (worker_step repo executors a ws))) \<and> fst (worker_step repo executors a ws) = [] \<and>
    (\<exists>q. snd (worker_step repo executors a ws) = ws\<lparr>ws_queue := q\<rparr>)"
proof (cases a)
  case WSync
  have "Get change_key (ws_queue ws) = (if shuttingDown (ws_queue ws) then Shutdown else Blocked, ws_queue ws)"
    using assms(1) by (simp add: Get_def idle_queue_def slice_Len_def)
  then have "worker_step repo executors WSync ws = ([], ws)"
    by (simp add: runChangeSyncer_def WaitChange_def sync_events_def split: if_split)
  moreover have "ws = ws\<lparr>ws_queue := ws_queue ws\<rparr>" by simp
  ultimately show ?thesis using assms(1) WSync by (metis fst_conv snd_conv)
next
  case WShutdown
  with assms(1) show ?thesis by (auto simp: idle_queue_def infomer_Shutdown_def ShutDownWithDrain_def)
qed (use assms(2) in \<open>simp_all add: of_infomer_def\<close>)

lemma idle_run:
  "idle_queue (ws_queue ws) \<Longrightarrow> \<forall>a\<in>set ops. \<not> of_infomer a \<Longrightarrow>
     idle_queue (ws_queue (snd (worker_run repo executors ops ws))) \<and>
     (\<exists>q. snd (worker_run repo executors ops ws) = ws\<lparr>ws_queue := q\<rparr>)"
proof (induction ops arbitrary: ws)
  case Nil
  then show ?case by (auto intro!: exI [of _ "ws_queue ws"])
next
  case (Cons a ops)
  from idle_step [OF Cons.prems(1), of a repo executors] Cons.prems(2)
  obtain q where q: "snd (worker_step repo executors a ws) = ws\<lparr>ws_queue := q\<rparr>" "idle_queue q" by auto
  from Cons.IH [of "ws\<lparr>ws_queue := q\<rparr>"] Cons.prems(2) q show ?case by (auto simp: Let_def split_beta)
qed


text \<open>
  A worker that is built with an interval that is not positive keeps it among its options and hands
  it to the refresher.
\<close>

lemma NewWorker_resync:
  "NewWorker global now loaded grow t i ip port (opts @ [WithTriggerResync p]) = Return parts \<Longrightarrow>
     resync_interval (part_opts parts) = p"
  by (auto simp: NewWorker_def newOptions_def Let_def split: run.splits)

section \<open>Witnesses\<close>

definition demo_start :: "(mem_repo, TaskExecResult list) worker_system" where
  "demo_start = \<lparr>ws_repo = \<lparr>rows = [], updates = []\<rparr>, ws_cache = NewThreadSafeMap, ws_queue = demo_waiting, ws_exec = []\<rparr>"

definition demo_env :: worker_env where
  "demo_env = \<lparr>load = Ok [MemUsageKey \<mapsto> ''40.00''], rnd = (\<lambda>_. Fin 0 0), watch = WatchOk, env_running = ([], []),
     env_marking = [([], [])], env_starting = ([], []), env_draining = ([(3, Err PayloadNil)], []),
     env_leaving = ([], [WSync]), timed_out = None, drain_begun = True\<rparr>"


theorem Run_ends_drained_witness:
  "\<exists>d' ws'. Worker_Run demo_Discover mem_TaskRepo [''g'' \<mapsto> demo_exe] (newOptions 0 []) demo_env
       (demo_Worker\<lparr>wid := ''i-7''\<rparr>) [] demo_start = Some (None, d', ws') \<and> shuttingDown (ws_queue ws')"
proof -
  have inv: "queue_inv change_key (ws_queue demo_start)" by (simp add: demo_start_def demo_waiting_facts)
  obtain stain where st: "GenerateStain [MemUsageKey \<mapsto> ''40.00''] False = Ok stain" using GenerateStain_Ok by blast
  have "processing demo_waiting = {}" by (rule demo_waiting_facts)
  then have "\<exists>d' ws'. Worker_Run demo_Discover mem_TaskRepo [''g'' \<mapsto> demo_exe] (newOptions 0 []) demo_env
       (demo_Worker\<lparr>wid := ''i-7''\<rparr>) [] demo_start = Some (None, d', ws')"
    by (simp add: Worker_Run_def worker_init_def generateInstanceMetadata_def st demo_env_def demo_Discover_def
        gracefulShutdown_def drain_begins_def drain_ends_def begin_drain_def mark_disabled_def retry_Do_attempts
        mark_attempt_def eval_nat_numeral shutdown_stain infomer_Shutdown_def Shutdown_result_def drain_waits_def
        set_len_def ShutDownWithDrain_def demo_start_def steps_of_def others_step_def Let_def split_beta)
  then obtain d' ws' where run: "Worker_Run demo_Discover mem_TaskRepo [''g'' \<mapsto> demo_exe] (newOptions 0 []) demo_env
       (demo_Worker\<lparr>wid := ''i-7''\<rparr>) [] demo_start = Some (None, d', ws')" by blast
  from Run_ends_drained [OF inv run] run show ?thesis by blast
qed

end
