(* ===== verification/InfomerRun.thy ===== *)
theory InfomerRun
  imports Triggers
begin

text \<open>
  The infomer as it runs (\<^verbatim>\<open>core/worker/infomer/infomer.go\<close>): \<open>New\<close>, \<open>Run\<close> with the goroutines that it starts
  and waits for, and the loop of \<open>enqueueIfTaskChange\<close> statement by statement, so that the monitor, the
  recycling of the cache and the consumer of the queue come in between its reads of the queue, the
  repository and the cache.
\<close>

section \<open>The infomer and its start\<close>

record Infomer =
  inf_running :: bool
  inf_cache :: task_cache
  inf_queue :: "Change Typed"

definition infomer_New :: "task_cache \<Rightarrow> (nat \<Rightarrow> nat \<Rightarrow> nat) \<Rightarrow> time \<Rightarrow> Infomer" where
  "infomer_New c grow now = \<lparr>inf_running = False, inf_cache = c, inf_queue = NewTyped grow now\<rparr>"

text \<open>What the worker's syncer holds of the infomer: the two methods of \<open>ChangeConsumer\<close>, on its queue.\<close>

record ChangeConsumer =
  cc_WaitChange :: "Change Typed \<Rightarrow> Change get_outcome \<times> Change Typed"
  cc_JumpChange :: "Change \<Rightarrow> Change Typed \<Rightarrow> Change Typed"

definition infomer_ChangeConsumer :: ChangeConsumer where
  "infomer_ChangeConsumer = \<lparr>cc_WaitChange = WaitChange, cc_JumpChange = JumpChange\<rparr>"

text \<open>
  Where the loop is: in its \<open>select\<close>; asking the queue for the keys that are left; listing the actual
  keys; reading the repository; reading the cache; handling exceptions; adding changes; ended.
\<close>

datatype loop_pc =
    LSelect
  | LCheck triggerInfo "string list" "string list"
  | LReal triggerInfo "string list"
  | LLoad "string list" "string list"
  | LList "Task list" "string list"
  | LHandle "Change list" "Change list"
  | LAdd "Change list"
  | LEnded

text \<open>Where the loop of \<open>Monitor\<close> is: at its channel, or in the callback, before the update or the release.\<close>

datatype callback_pc = CIdle | CUpdate TaskExecResult | CRelease TaskExecResult

text \<open>\<open>in_wg\<close> is the counter of the wait group, \<open>in_closed\<close> whether the channel of \<open>Monitor\<close> is closed.\<close>

record 'r infomer_sys =
  in_mon :: "'r monitor_sys"
  in_trig :: trigger_sys
  in_loop :: loop_pc
  in_callback :: callback_pc
  in_wg :: nat
  in_closed :: bool

definition infomer_start ::
    "'r TaskRepo \<Rightarrow> 'r \<Rightarrow> watch_result \<Rightarrow> string \<Rightarrow> time \<Rightarrow> Infomer \<Rightarrow> 'r infomer_sys result \<times> Infomer" where
  "infomer_start repo r watch workerID resync_period i =
     (case infomer_Run repo r watch workerID resync_period (inf_running i) of
        (Inl err, b) \<Rightarrow> (Err err, i\<lparr>inf_running := b\<rparr>)
      | (Inr (period, infos), b) \<Rightarrow>
          (Ok \<lparr>in_mon = \<lparr>mon_repo = r, mon_cache = inf_cache i, mon_queue = inf_queue i,
                 mon_ch = make_chan, listing = []\<rparr>,
               in_trig = (trigger_start [])\<lparr>tasksCh := make_chan\<lparr>buffer := map (Pair Start) infos\<rparr>\<rparr>,
               in_loop = LSelect, in_callback = CIdle, in_wg = 2, in_closed = False\<rparr>,
           i\<lparr>inf_running := b\<rparr>))"

text \<open>\<open>wg.Wait\<close>, after which \<open>Run\<close> returns nil.\<close>

definition Run_result :: "'r infomer_sys \<Rightarrow> error option option" where
  "Run_result s = (if in_wg s = 0 then Some None else None)"

section \<open>Steps\<close>

text \<open>
  What a step shows: the keys that the loop has selected (with those that it found in the queue), the
  keys that the repository was asked for and its answer, a message about a task that is stored in the cache (and
  whether a change of the task was being processed), an entry that is recycled, a change that the
  consumer is given.
\<close>

datatype infomer_event =
    ESelected triggerInfo "string list" "string list" "string list"
  | EFetched "string list" "Task list"
  | EReported string bool
  | ERecycled string
  | EDelivered Change

abbreviation in_queue :: "'r infomer_sys \<Rightarrow> Change Typed" where
  "in_queue s \<equiv> mon_queue (in_mon s)"

abbreviation in_cache :: "'r infomer_sys \<Rightarrow> task_cache" where
  "in_cache s \<equiv> mon_cache (in_mon s)"

abbreviation processed_key :: "string \<Rightarrow> Change Typed \<Rightarrow> bool" where
  "processed_key k q \<equiv> GetUniKey (key_change k) \<in> processing q"

text \<open>The pairs of \<open>loadTaskPairs\<close> from what the repository and the cache have given.\<close>

definition join_pairs :: "Task list \<Rightarrow> TaskExecResult list \<Rightarrow> taskPair list" where
  "join_pairs wantTasks realTasks =
     (let realMap = key_by res_TaskKey realTasks; wantMap = key_by task_TaskKey wantTasks
      in map (\<lambda>w. \<lparr>want = Some w, real = realMap (task_TaskKey w)\<rparr>) wantTasks @
         map (\<lambda>r. \<lparr>want = None, real = Some r\<rparr>) (filter (\<lambda>r. wantMap (res_TaskKey r) = None) realTasks))"

text \<open>One statement of the loop; \<open>ks\<close> is the order in which the cache is visited when it is listed.\<close>

definition loop_step ::
    "'r TaskRepo \<Rightarrow> string list \<Rightarrow> 'r infomer_sys \<Rightarrow> (infomer_event list \<times> 'r infomer_sys) option" where
  "loop_step repo ks s =
     (case in_loop s of
        LSelect \<Rightarrow> None
      | LEnded \<Rightarrow> None
      | LCheck info [] found \<Rightarrow> Some ([], s\<lparr>in_loop := LReal info found\<rparr>)
      | LCheck info (key # rest) found \<Rightarrow>
          Some ([], s\<lparr>in_loop := LCheck info rest
            (if Exist change_key (key_change key) (in_queue s) then found @ [key] else found)\<rparr>)
      | LReal info found \<Rightarrow>
          if \<not> range_order ks (items (in_cache s)) then None
          else
            let wantKeys = filter (\<lambda>key. key \<notin> set found) (taskKeys info);
                realKeys = filter (\<lambda>key. key \<notin> set found)
                  (if resync info then ListTaskKeys ks (in_cache s) else taskKeys info)
            in Some ([ESelected info found wantKeys realKeys],
                 s\<lparr>in_loop := (if wantKeys = [] \<and> realKeys = [] then LSelect else LLoad wantKeys realKeys)\<rparr>)
      | LLoad wantKeys realKeys \<Rightarrow>
          (case BatchGetTask repo wantKeys (mon_repo (in_mon s)) of
             Inl err \<Rightarrow> Some ([], s\<lparr>in_loop := LSelect\<rparr>)
           | Inr wantTasks \<Rightarrow> Some ([EFetched wantKeys wantTasks], s\<lparr>in_loop := LList wantTasks realKeys\<rparr>))
      | LList wantTasks realKeys \<Rightarrow>
          if \<not> range_order ks (items (in_cache s)) then None
          else
            let pairs = filter not_final (join_pairs wantTasks (ListTasks ks realKeys (in_cache s)))
            in Some ([], s\<lparr>in_loop := (if pairs = [] then LSelect else LHandle (diff pairs) [])\<rparr>)
      | LHandle [] normalChanges \<Rightarrow> Some ([], s\<lparr>in_loop := LAdd normalChanges\<rparr>)
      | LHandle (c # cs) normalChanges \<Rightarrow>
          if \<not> IsException c then Some ([], s\<lparr>in_loop := LHandle cs (normalChanges @ [c])\<rparr>)
          else Some ([], s\<lparr>in_loop := LHandle cs normalChanges,
            in_mon := (in_mon s)\<lparr>mon_repo := snd (UpdateTask repo (exception_update c) (mon_repo (in_mon s)))\<rparr>\<rparr>)
      | LAdd [] \<Rightarrow> Some ([], s\<lparr>in_loop := LSelect\<rparr>)
      | LAdd (c # cs) \<Rightarrow> Some ([], s\<lparr>in_loop := LAdd cs,
            in_mon := (in_mon s)\<lparr>mon_queue := snd (Add change_key c (in_queue s))\<rparr>\<rparr>))"

text \<open>
  The steps of all goroutines: the watch, the timer and the end of the context; the loop takes a
  trigger, goes on or ends; the goroutines of \<open>Monitor\<close>, whose loop stores a message, sends the update
  (with its retries) and releases the task; the recycling of the cache; the consumer, who waits for a
  change or gives one back; the shutdown; and what users, the scheduler and other workers write to the
  repository.
\<close>

datatype 'r infomer_op =
    IWatch "string list"
  | ITick
  | ISend trigger_source
  | ITimerEnd
  | ICancel
  | ITake
  | ILoop "string list"
  | ILoopEnd
  | IMonitor monitor_op
  | IReceive time
  | IUpdate "int \<Rightarrow> float64"
  | IRelease
  | IMonitorEnd
  | IRecycle string
  | IGet
  | IJump Change
  | IShutdown
  | IOthers 'r

abbreviation with_trig :: "'r infomer_sys \<Rightarrow> ((trigger_source \<times> triggerInfo) list \<times> trigger_sys) option \<Rightarrow>
    (infomer_event list \<times> 'r infomer_sys) option" where
  "with_trig s \<equiv> map_option (\<lambda>(ms, t). ([], s\<lparr>in_trig := t\<rparr>))"

definition with_queue :: "Change Typed \<Rightarrow> 'r infomer_sys \<Rightarrow> 'r infomer_sys" where
  "with_queue q s = s\<lparr>in_mon := (in_mon s)\<lparr>mon_queue := q\<rparr>\<rparr>"

lemma consumer_simps [simp]:
  "cc_WaitChange infomer_ChangeConsumer = WaitChange" "cc_JumpChange infomer_ChangeConsumer = JumpChange"
  by (simp_all add: infomer_ChangeConsumer_def)

fun infomer_step :: "'r TaskRepo \<Rightarrow> string \<Rightarrow> 'r infomer_op \<Rightarrow> 'r infomer_sys \<Rightarrow>
    (infomer_event list \<times> 'r infomer_sys) option" where
  "infomer_step repo workerID (IWatch keys) s = with_trig s (trigger_step repo workerID (TrWatch keys) (in_trig s))"
| "infomer_step repo workerID ITick s =
     with_trig s (trigger_step repo workerID (TrTick (mon_repo (in_mon s))) (in_trig s))"
| "infomer_step repo workerID (ISend p) s = with_trig s (trigger_step repo workerID (TrSend p) (in_trig s))"
| "infomer_step repo workerID ITimerEnd s = with_trig s (trigger_step repo workerID TrTimerEnd (in_trig s))"
| "infomer_step repo workerID ICancel s = with_trig s (trigger_step repo workerID TrCancel (in_trig s))"
| "infomer_step repo workerID ITake s =
     (if in_loop s \<noteq> LSelect then None
      else case trigger_step repo workerID TrTake (in_trig s) of
        Some ([(src, info)], t) \<Rightarrow> Some ([], s\<lparr>in_trig := t, in_loop := LCheck info (taskKeys info) []\<rparr>)
      | _ \<Rightarrow> None)"
| "infomer_step repo workerID (ILoop ks) s = loop_step repo ks s"
| "infomer_step repo workerID ILoopEnd s =
     (if in_loop s \<noteq> LSelect then None
      else map_option (\<lambda>(ms, t). ([], s\<lparr>in_trig := t, in_loop := LEnded, in_wg := in_wg s - 1\<rparr>))
             (trigger_step repo workerID TrLoopEnd (in_trig s)))"
| "infomer_step repo workerID (IMonitor a) s =
     (case a of
        MProcess rnd now \<Rightarrow> None
      | _ \<Rightarrow> map_option (\<lambda>(ms, m). ([], s\<lparr>in_mon := m\<rparr>)) (monitor_step repo a (in_mon s)))"
| "infomer_step repo workerID (IReceive now) s =
     (if in_callback s \<noteq> CIdle then None
      else case receive (mon_ch (in_mon s)) of
        None \<Rightarrow> None
      | Some ((p, t), ch) \<Rightarrow>
          Some ([EReported (res_TaskKey t) (processed_key (res_TaskKey t) (in_queue s))],
            s\<lparr>in_mon := (in_mon s)\<lparr>mon_ch := ch, mon_cache := snd (processTask True now (Some t) (in_cache s))\<rparr>,
              in_callback := CUpdate t\<rparr>))"
| "infomer_step repo workerID (IUpdate rnd) s =
     (case in_callback s of
        CUpdate t \<Rightarrow>
          Some ([], s\<lparr>in_mon := (in_mon s)\<lparr>mon_repo := snd (snd (retry_Do rnd (UpdateTask repo
              (zero_Task\<lparr>task_TaskKey := res_TaskKey t, task_Status := res_Status t\<rparr>)) (mon_repo (in_mon s))))\<rparr>,
            in_callback := CRelease t\<rparr>)
      | _ \<Rightarrow> None)"
| "infomer_step repo workerID IRelease s =
     (case in_callback s of
        CRelease t \<Rightarrow>
          Some ([], (with_queue (Done change_key (key_change (res_TaskKey t)) (in_queue s)) s)\<lparr>in_callback := CIdle\<rparr>)
      | _ \<Rightarrow> None)"
| "infomer_step repo workerID IMonitorEnd s =
     (if in_closed s \<and> in_callback s = CIdle \<and> buffer (mon_ch (in_mon s)) = [] then Some ([], s\<lparr>in_wg := in_wg s - 1\<rparr>) else None)"
| "infomer_step repo workerID (IRecycle k) s =
     Some ([ERecycled k], s\<lparr>in_mon := (in_mon s)\<lparr>mon_cache := Delete k (in_cache s)\<rparr>\<rparr>)"
| "infomer_step repo workerID IGet s =
     (case cc_WaitChange infomer_ChangeConsumer (in_queue s) of
        (Item c, q) \<Rightarrow> Some ([EDelivered c], with_queue q s)
      | _ \<Rightarrow> None)"
| "infomer_step repo workerID (IJump c) s = Some ([], with_queue (cc_JumpChange infomer_ChangeConsumer c (in_queue s)) s)"
| "infomer_step repo workerID IShutdown s = Some ([], with_queue (infomer_Shutdown (in_queue s)) s)"
| "infomer_step repo workerID (IOthers r) s = Some ([], s\<lparr>in_mon := (in_mon s)\<lparr>mon_repo := r\<rparr>\<rparr>)"

fun infomer_run :: "'r TaskRepo \<Rightarrow> string \<Rightarrow> 'r infomer_op list \<Rightarrow> 'r infomer_sys \<Rightarrow>
    (infomer_event list \<times> 'r infomer_sys) option" where
  "infomer_run repo workerID [] s = Some ([], s)"
| "infomer_run repo workerID (a # ops) s =
     (case infomer_step repo workerID a s of
        None \<Rightarrow> None
      | Some (es, s1) \<Rightarrow>
          (case infomer_run repo workerID ops s1 of None \<Rightarrow> None | Some (fs, s2) \<Rightarrow> Some (es @ fs, s2)))"


lemmas infomer_step_simps = infomer_step.simps loop_step_def

section \<open>The loop alone is \<open>enqueueIfTaskChange\<close>\<close>

lemma loadTaskPairs_join:
  "loadTaskPairs repo r ks c wantKeys realKeys =
     (if wantKeys = [] \<and> realKeys = [] then Ok []
      else case BatchGetTask repo wantKeys r of
        Inl err \<Rightarrow> Err err
      | Inr wantTasks \<Rightarrow> Ok (join_pairs wantTasks (ListTasks ks realKeys c)))"
  by (auto simp: loadTaskPairs_def join_pairs_def Let_def split: sum.split)

fun loop_alone :: "'r TaskRepo \<Rightarrow> string list \<Rightarrow> nat \<Rightarrow> 'r infomer_sys \<Rightarrow> 'r infomer_sys option" where
  "loop_alone repo ks 0 s = Some s"
| "loop_alone repo ks (Suc n) s =
     (case loop_step repo ks s of None \<Rightarrow> None | Some (es, s1) \<Rightarrow> loop_alone repo ks n s1)"

lemma loop_alone_add: "loop_alone repo ks (m + n) s =
    (case loop_alone repo ks m s of None \<Rightarrow> None | Some s1 \<Rightarrow> loop_alone repo ks n s1)"
  by (induction m arbitrary: s) (auto split: option.splits)

lemma alone_Suc:
  assumes "loop_step repo ks s = Some (es, s1)"
  shows "loop_alone repo ks (Suc n) s = loop_alone repo ks n s1"
  using assms by simp

lemma alone_check:
  "in_loop s = LCheck info rest found \<Longrightarrow>
     loop_alone repo ks (Suc (length rest)) s = Some (s\<lparr>in_loop := LReal info
       (found @ filter (\<lambda>key. Exist change_key (key_change key) (in_queue s)) rest)\<rparr>)"
proof (induction rest arbitrary: s found)
  case Nil
  then show ?case by (simp add: loop_step_def)
next
  case (Cons key rest)
  let ?found = "if Exist change_key (key_change key) (in_queue s) then found @ [key] else found"
  have "loop_alone repo ks (Suc (length (key # rest))) s =
      loop_alone repo ks (Suc (length rest)) (s\<lparr>in_loop := LCheck info rest ?found\<rparr>)"
    using Cons.prems by (simp add: loop_step_def del: loop_alone.simps(2) add: alone_Suc)
  also have "\<dots> = Some (s\<lparr>in_loop := LReal info
      (?found @ filter (\<lambda>key. Exist change_key (key_change key) (in_queue s)) rest)\<rparr>)"
    using Cons.IH [of "s\<lparr>in_loop := LCheck info rest ?found\<rparr>" ?found] by simp
  finally show ?case by simp
qed

lemma alone_handle:
  "in_loop s = LHandle cs normal \<Longrightarrow>
     loop_alone repo ks (Suc (length cs)) s =
       Some (s\<lparr>in_loop := LAdd (normal @ fst (handleException repo cs (mon_repo (in_mon s)))),
         in_mon := (in_mon s)\<lparr>mon_repo := snd (handleException repo cs (mon_repo (in_mon s)))\<rparr>\<rparr>)"
proof (induction cs arbitrary: s normal)
  case Nil
  then show ?case by (simp add: loop_step_def)
next
  case (Cons c cs)
  show ?case
  proof (cases "IsException c")
    case True
    let ?s = "s\<lparr>in_loop := LHandle cs normal,
      in_mon := (in_mon s)\<lparr>mon_repo := snd (UpdateTask repo (exception_update c) (mon_repo (in_mon s)))\<rparr>\<rparr>"
    have "loop_step repo ks s = Some ([], ?s)" using Cons.prems True by (simp add: loop_step_def)
    from alone_Suc [OF this] Cons.IH [of ?s normal] True show ?thesis
      by (simp del: loop_alone.simps(2))
  next
    case False
    let ?s = "s\<lparr>in_loop := LHandle cs (normal @ [c])\<rparr>"
    have "loop_step repo ks s = Some ([], ?s)" using Cons.prems False by (simp add: loop_step_def)
    from alone_Suc [OF this] Cons.IH [of ?s "normal @ [c]"] False show ?thesis
      by (simp add: Let_def split_beta del: loop_alone.simps(2))
  qed
qed

lemma alone_add:
  "in_loop s = LAdd cs \<Longrightarrow>
     loop_alone repo ks (Suc (length cs)) s =
       Some (s\<lparr>in_loop := LSelect, in_mon := (in_mon s)\<lparr>mon_queue := snd (add_all (Add change_key) cs (in_queue s))\<rparr>\<rparr>)"
proof (induction cs arbitrary: s)
  case Nil
  then show ?case by (simp add: loop_step_def)
next
  case (Cons c cs)
  let ?s = "s\<lparr>in_loop := LAdd cs, in_mon := (in_mon s)\<lparr>mon_queue := snd (Add change_key c (in_queue s))\<rparr>\<rparr>"
  have "loop_step repo ks s = Some ([], ?s)" using Cons.prems by (simp add: loop_step_def)
  from alone_Suc [OF this] Cons.IH [of ?s] show ?case
    by (simp add: Let_def split_beta del: loop_alone.simps(2))
qed

lemma selectTaskKeys_found:
  "selectTaskKeys q ks c info =
     (let found = filter (\<lambda>key. Exist change_key (key_change key) q) (taskKeys info)
      in (filter (\<lambda>key. key \<notin> set found) (taskKeys info),
          filter (\<lambda>key. key \<notin> set found) (if resync info then ListTaskKeys ks c else taskKeys info)))"
proof (cases "filter (\<lambda>key. Exist change_key (key_change key) q) (taskKeys info) = []")
  case True
  then show ?thesis unfolding selectTaskKeys_def Let_def True by simp
qed (simp add: selectTaskKeys_def Let_def)

text \<open>
  C12: the loop, statement by statement, computes \<open>enqueueIfTaskChange\<close>.  When no other goroutine comes
  in between, the statements for one trigger, from the first question to the queue to the next
  \<open>select\<close>, end, and they leave the repository and the queue as the function does on the state at
  their begin.
\<close>

theorem loop_alone_is_enqueueIfTaskChange:
  assumes "in_loop s = LCheck info (taskKeys info) []" and "range_order ks (items (in_cache s))"
  shows "\<exists>n. loop_alone repo ks n s = Some
    (let (r, q) = enqueueIfTaskChange repo (in_queue s) ks (in_cache s) ks (in_cache s) info
           (mon_repo (in_mon s)) (in_queue s)
     in s\<lparr>in_loop := LSelect, in_mon := (in_mon s)\<lparr>mon_repo := r, mon_queue := q\<rparr>\<rparr>)"
proof -
  let ?found = "filter (\<lambda>key. Exist change_key (key_change key) (in_queue s)) (taskKeys info)"
  let ?r = "mon_repo (in_mon s)" and ?c = "in_cache s"
  let ?result = "let (r, q) = enqueueIfTaskChange repo (in_queue s) ks ?c ks ?c info ?r (in_queue s)
     in s\<lparr>in_loop := LSelect, in_mon := (in_mon s)\<lparr>mon_repo := r, mon_queue := q\<rparr>\<rparr>"
  have idle: "s\<lparr>in_loop := LSelect\<rparr> = s\<lparr>in_loop := LSelect, in_mon := (in_mon s)\<lparr>mon_repo := ?r, mon_queue := in_queue s\<rparr>\<rparr>"
    by simp
  obtain wk rk where sel: "selectTaskKeys (in_queue s) ks ?c info = (wk, rk)" by fastforce
  then have keys: "wk = filter (\<lambda>key. key \<notin> set ?found) (taskKeys info)"
    "rk = filter (\<lambda>key. key \<notin> set ?found) (if resync info then ListTaskKeys ks ?c else taskKeys info)"
    by (auto simp: selectTaskKeys_found Let_def)
  let ?s1 = "s\<lparr>in_loop := LReal info ?found\<rparr>"
  let ?s2 = "s\<lparr>in_loop := (if wk = [] \<and> rk = [] then LSelect else LLoad wk rk)\<rparr>"
  note check = alone_check [OF assms(1), of repo ks]
  have "loop_step repo ks ?s1 = Some ([ESelected info ?found wk rk], ?s2)"
    using assms(2) by (simp add: loop_step_def keys Let_def)
  note select = alone_Suc [OF this]
  have reach: "loop_alone repo ks (Suc (length (taskKeys info)) + Suc n) s = loop_alone repo ks n ?s2" for n
    unfolding loop_alone_add check option.case append_Nil by (rule select)
  note defs = enqueueIfTaskChange_def loadTaskPairsThreadSafe_def sel loadTaskPairs_join
  show ?thesis
  proof (cases "wk = [] \<and> rk = []")
    case True
    then have "?result = ?s2" by (simp add: defs)
    with reach [of 0] show ?thesis by (metis loop_alone.simps(1))
  next
    case some: False
    show ?thesis
    proof (cases "BatchGetTask repo wk ?r")
      case (Inl e)
      then have "?result = s\<lparr>in_loop := LSelect\<rparr>" using some by (simp add: defs)
      moreover have "loop_step repo ks ?s2 = Some ([], s\<lparr>in_loop := LSelect\<rparr>)"
        using some Inl by (simp add: loop_step_def)
      then have "loop_alone repo ks (Suc 0) ?s2 = Some (s\<lparr>in_loop := LSelect\<rparr>)" by simp
      ultimately show ?thesis using reach [of "Suc 0"] by metis
    next
      case (Inr ws)
      let ?pairs = "filter not_final (join_pairs ws (ListTasks ks rk ?c))"
      let ?s3 = "s\<lparr>in_loop := LList ws rk\<rparr>"
      let ?s4 = "s\<lparr>in_loop := (if ?pairs = [] then LSelect else LHandle (diff ?pairs) [])\<rparr>"
      have "loop_step repo ks ?s2 = Some ([EFetched wk ws], ?s3)" using some Inr by (simp add: loop_step_def)
      note to3 = alone_Suc [OF this]
      have "loop_step repo ks ?s3 = Some ([], ?s4)" using assms(2) by (simp add: loop_step_def Let_def)
      note to4 = alone_Suc [OF this]
      have r4: "loop_alone repo ks (Suc (length (taskKeys info)) + Suc (Suc (Suc n))) s = loop_alone repo ks n ?s4" for n
        unfolding reach to3 to4 ..
      have load: "loadTaskPairsThreadSafe repo ?r (in_queue s) ks ?c ks ?c info = Ok ?pairs"
        using some Inr by (auto simp: loadTaskPairsThreadSafe_def sel loadTaskPairs_join)
      show ?thesis
      proof (cases "?pairs = []")
        case True
        then have "?result = ?s4" unfolding enqueueIfTaskChange_def load by simp
        with r4 [of 0] show ?thesis by (metis loop_alone.simps(1))
      next
        case False
        let ?h = "handleException repo (diff ?pairs) ?r"
        have "?result = s\<lparr>in_loop := LSelect, in_mon := (in_mon s)\<lparr>mon_repo := snd ?h,
            mon_queue := snd (add_all (Add change_key) (fst ?h) (in_queue s))\<rparr>\<rparr>"
          using False unfolding enqueueIfTaskChange_def load by (simp add: Let_def split_beta)
        moreover have "loop_alone repo ks (Suc (length (diff ?pairs)) + Suc (length (fst ?h))) ?s4 =
            Some (s\<lparr>in_loop := LSelect, in_mon := (in_mon s)\<lparr>mon_repo := snd ?h,
            mon_queue := snd (add_all (Add change_key) (fst ?h) (in_queue s))\<rparr>\<rparr>)"
          using False alone_handle [of ?s4 "diff ?pairs" "[]" repo ks]
            alone_add [of "s\<lparr>in_loop := LAdd (fst ?h), in_mon := (in_mon s)\<lparr>mon_repo := snd ?h\<rparr>\<rparr>" "fst ?h" repo ks]
          unfolding loop_alone_add by (simp del: loop_alone.simps(2) handleException.simps)
        ultimately show ?thesis using r4 by metis
      qed
    qed
  qed
qed

theorem loop_alone_is_enqueueIfTaskChange_witness:
  "\<exists>n s'. loop_alone mem_TaskRepo [''a''] n \<lparr>in_mon = demo_monitor, in_trig = trigger_start [],
       in_loop = LCheck \<lparr>resync = False, taskKeys = [''a'', ''b'']\<rparr> [''a'', ''b''] [], in_callback = CIdle, in_wg = 2,
       in_closed = False\<rparr> = Some s' \<and> in_loop s' = LSelect"
proof -
  let ?s = "\<lparr>in_mon = demo_monitor, in_trig = trigger_start [],
       in_loop = LCheck \<lparr>resync = False, taskKeys = [''a'', ''b'']\<rparr> [''a'', ''b''] [], in_callback = CIdle, in_wg = 2,
       in_closed = False\<rparr>"
  have "range_order [''a''] (items (in_cache ?s))" by (simp add: demo_monitor_def demo_running_ok)
  from loop_alone_is_enqueueIfTaskChange [where repo = mem_TaskRepo and info = "\<lparr>resync = False, taskKeys = [''a'', ''b'']\<rparr>", OF _ this]
  obtain n where "loop_alone mem_TaskRepo [''a''] n ?s = Some
    (let (r, q) = enqueueIfTaskChange mem_TaskRepo (in_queue ?s) [''a''] (in_cache ?s) [''a''] (in_cache ?s)
       \<lparr>resync = False, taskKeys = [''a'', ''b'']\<rparr> (mon_repo (in_mon ?s)) (in_queue ?s)
     in ?s\<lparr>in_loop := LSelect, in_mon := (in_mon ?s)\<lparr>mon_repo := r, mon_queue := q\<rparr>\<rparr>)" by auto
  then show ?thesis by (intro exI conjI) (assumption, simp add: split_beta Let_def)
qed

end
