(* ===== verification/InfomerDecisions.thy ===== *)
theory InfomerDecisions
  imports InfomerRun
begin

text \<open>
  What the loop of the infomer decides and what the consumer of the queue is given, when all
  goroutines of \<open>InfomerRun\<close> interleave: between the moment in which the loop asks the queue for a task
  and the moment in which its change is handed out, the state that the change was computed from stays
  the state of the task.
\<close>

section \<open>What a decision rests on\<close>

definition status_in :: "task_cache \<Rightarrow> string \<Rightarrow> TaskStatus" where
  "status_in c k = (case items c k of None \<Rightarrow> TaskStatusNotExist | Some r \<Rightarrow> res_Status r)"

definition free :: "string \<Rightarrow> Change Typed \<Rightarrow> bool" where
  "free k q \<longleftrightarrow> \<not> Exist change_key (key_change k) q"

text \<open>
  The change leads from the state \<open>st\<close> to a state that a task among \<open>F\<close> is wanted in, or away from a
  task that nobody wants; a create carries such a task.
\<close>

definition fits :: "Task set \<Rightarrow> TaskStatus \<Rightarrow> Change \<Rightarrow> bool" where
  "fits F st c \<longleftrightarrow>
     (\<exists>w. GetChangeType st w = Ok (chg_ChangeType c) \<and>
        (w = TaskStatusNotExist \<or> (\<exists>t\<in>F. task_TaskKey t = chg_TaskKey c \<and> task_WantRunStatus t = w))) \<and>
     (chg_ChangeType c = ChangeCreate \<longrightarrow> (\<exists>t\<in>F. chg_Task c = Some t \<and> task_TaskKey t = chg_TaskKey c))"

fun fetched :: "infomer_event list \<Rightarrow> Task set" where
  "fetched [] = {}"
| "fetched (EFetched keys ws # es) = set ws \<union> fetched es"
| "fetched (e # es) = fetched es"

text \<open>
  What may not happen to the task \<open>k\<close>: a resync that does not list it, so that the queue is not asked for
  it, or one that finds it in the queue and is left with no actual key, so that the whole cache is
  read; a message about it when no change of it is being processed; a recycling of its entry.  The
  repository answers with tasks it was asked for, each once.
\<close>

fun careful :: "string \<Rightarrow> infomer_event \<Rightarrow> bool" where
  "careful k (ESelected info found wantKeys realKeys) \<longleftrightarrow> distinct (taskKeys info) \<and>
     (resync info \<longrightarrow> k \<in> set (taskKeys info)) \<and> (realKeys = [] \<and> wantKeys \<noteq> [] \<longrightarrow> k \<notin> set found)"
| "careful k (EFetched keys ws) \<longleftrightarrow> distinct (map task_TaskKey ws) \<and> task_TaskKey ` set ws \<subseteq> set keys"
| "careful k (EReported j solicited) \<longleftrightarrow> (j = k \<longrightarrow> solicited)"
| "careful k (ERecycled j) \<longleftrightarrow> j \<noteq> k"
| "careful k e \<longleftrightarrow> True"

section \<open>Invariant\<close>

definition decided :: "string \<Rightarrow> Task set \<Rightarrow> Change Typed \<Rightarrow> task_cache \<Rightarrow> Change list \<Rightarrow> bool" where
  "decided k F q c xs \<longleftrightarrow> distinct (map chg_TaskKey xs) \<and>
     (\<forall>x\<in>set xs. chg_TaskKey x = k \<longrightarrow> free k q \<and> fits F (status_in c k) x)"

definition selected :: "string \<Rightarrow> Change Typed \<Rightarrow> task_cache \<Rightarrow> string set \<Rightarrow> string list \<Rightarrow> bool" where
  "selected k q c wantKeys realKeys \<longleftrightarrow> distinct realKeys \<and>
     (k \<in> wantKeys \<union> set realKeys \<or> realKeys = [] \<longrightarrow> free k q) \<and>
     (k \<in> wantKeys \<and> k \<notin> set realKeys \<and> realKeys \<noteq> [] \<longrightarrow> items c k = None)"

fun loop_inv :: "string \<Rightarrow> Task set \<Rightarrow> loop_pc \<Rightarrow> Change Typed \<Rightarrow> task_cache \<Rightarrow> bool" where
  "loop_inv k F (LCheck info rest found) q c \<longleftrightarrow>
     (\<exists>asked. taskKeys info = asked @ rest \<and> (k \<in> set asked \<and> k \<notin> set found \<longrightarrow> free k q))"
| "loop_inv k F (LReal info found) q c \<longleftrightarrow> (k \<in> set (taskKeys info) \<and> k \<notin> set found \<longrightarrow> free k q)"
| "loop_inv k F (LLoad wantKeys realKeys) q c \<longleftrightarrow> selected k q c (set wantKeys) realKeys"
| "loop_inv k F (LList wantTasks realKeys) q c \<longleftrightarrow> selected k q c (task_TaskKey ` set wantTasks) realKeys \<and>
     distinct (map task_TaskKey wantTasks) \<and> set wantTasks \<subseteq> F"
| "loop_inv k F (LHandle cs normalChanges) q c \<longleftrightarrow> decided k F q c (normalChanges @ cs)"
| "loop_inv k F (LAdd cs) q c \<longleftrightarrow> decided k F q c cs"
| "loop_inv k F pc q c \<longleftrightarrow> True"

definition decision_inv :: "string \<Rightarrow> Task set \<Rightarrow> 'r infomer_sys \<Rightarrow> bool" where
  "decision_inv k F s \<longleftrightarrow> queue_inv change_key (in_queue s) \<and> cache_ok (in_cache s) \<and>
     (\<forall>x\<in>set (elems (queue (in_queue s))). chg_TaskKey x = k \<longrightarrow> fits F (status_in (in_cache s) k) x) \<and>
     loop_inv k F (in_loop s) (in_queue s) (in_cache s)"

lemma key_of: "getKey change_key x = key_change (chg_TaskKey x)"
  by (simp add: getKey_def GetUniKey_def)

lemma key_change_eq: "key_change k = key_change j \<longleftrightarrow> k = j"
  by (simp add: zero_Change_def)

lemma free_iff:
  "queue_inv change_key q \<Longrightarrow>
     free k q \<longleftrightarrow> (\<forall>x\<in>set (elems (queue q)). chg_TaskKey x \<noteq> k) \<and> \<not> processed_key k q"
  using Exist_iff [of change_key q "key_change k"]
  by (auto simp: free_def key_of key_change_eq GetUniKey_def image_iff)

lemma waiting_not_processed:
  "queue_inv change_key q \<Longrightarrow> x \<in> set (elems (queue q)) \<Longrightarrow> \<not> processed_key (chg_TaskKey x) q"
  by (auto simp: queue_inv_def key_of GetUniKey_def)

lemma fits_mono: "fits F st x \<Longrightarrow> F \<subseteq> G \<Longrightarrow> fits G st x"
  by (auto simp: fits_def)

section \<open>The goroutines beside the loop\<close>

definition unmoved :: "string \<Rightarrow> Change Typed \<Rightarrow> task_cache \<Rightarrow> Change Typed \<Rightarrow> task_cache \<Rightarrow> bool" where
  "unmoved k q c q' c' \<longleftrightarrow> (free k q \<longrightarrow> free k q') \<and> (\<not> processed_key k q \<longrightarrow> items c' k = items c k)"

lemma free_status:
  assumes "queue_inv change_key q" and "unmoved k q c q' c'" and "free k q"
  shows "free k q' \<and> items c' k = items c k \<and> status_in c' k = status_in c k"
  using assms free_iff [OF assms(1), of k] by (auto simp: unmoved_def status_in_def)

lemma loop_inv_frame:
  assumes "queue_inv change_key q" and "unmoved k q c q' c'" and "F \<subseteq> G" and "loop_inv k F pc q c"
  shows "loop_inv k G pc q' c'"
proof -
  note fr = free_status [OF assms(1,2)]
  have dec: "decided k G q' c' xs" if "decided k F q c xs" for xs
    using that fr fits_mono [OF _ assms(3)] by (auto simp: decided_def)
  have sel: "selected k q' c' W R" if "selected k q c W R" for W R
    using that fr by (auto simp: selected_def)
  show ?thesis
    using assms(4) dec sel fr assms(3) by (cases pc) auto
qed

lemma decision_inv_frame:
  assumes "decision_inv k F s" and "in_loop s' = in_loop s" and "F \<subseteq> G"
    and "queue_inv change_key (in_queue s')" and "cache_ok (in_cache s')"
    and "set (elems (queue (in_queue s'))) \<subseteq> set (elems (queue (in_queue s)))"
    and "unmoved k (in_queue s) (in_cache s) (in_queue s') (in_cache s')"
  shows "decision_inv k G s'"
proof -
  have inv: "queue_inv change_key (in_queue s)" "loop_inv k F (in_loop s) (in_queue s) (in_cache s)"
    using assms(1) by (simp_all add: decision_inv_def)
  have "fits G (status_in (in_cache s') k) x"
    if x: "x \<in> set (elems (queue (in_queue s')))" and k: "chg_TaskKey x = k" for x
  proof -
    have x': "x \<in> set (elems (queue (in_queue s)))" using assms(6) x by blast
    then have "\<not> processed_key k (in_queue s)" using waiting_not_processed [OF inv(1) x'] k by simp
    then have "status_in (in_cache s') k = status_in (in_cache s) k"
      using assms(7) by (simp add: unmoved_def status_in_def)
    moreover have "fits F (status_in (in_cache s) k) x" using assms(1) x' k by (simp add: decision_inv_def)
    ultimately show ?thesis using fits_mono assms(3) by simp
  qed
  then show ?thesis
    using assms(2,4,5) loop_inv_frame [OF inv(1) assms(7,3) inv(2)] by (simp add: decision_inv_def)
qed

text \<open>Every step of another goroutine leaves the loop where it is and a task that is not in the queue alone.\<close>

definition of_loop :: "'r infomer_op \<Rightarrow> bool" where
  "of_loop a \<longleftrightarrow> (case a of ITake \<Rightarrow> True | ILoop ks \<Rightarrow> True | ILoopEnd \<Rightarrow> True | _ \<Rightarrow> False)"

lemma unmoved_refl: "unmoved k q c q c"
  by (simp add: unmoved_def)

lemma free_Done: "free k q \<Longrightarrow> free k (Done uk x q)"
  by (auto simp: free_def queue_defs Let_def)

lemma free_Shutdown: "free k (infomer_Shutdown q) = free k q"
  by (simp add: free_def infomer_Shutdown_def queue_defs)

lemma get_facts:
  assumes "queue_inv change_key q" and "WaitChange q = (Item x, q')"
  shows "queue_inv change_key q' \<and> elems (queue q) = x # elems (queue q') \<and>
    processing q' = insert (getKey change_key x) (processing q)"
  using assms(1)
proof (cases rule: Get_cases)
  case (Item y ys rest)
  with assms(2) Get_inv [OF assms(1)] show ?thesis by (auto simp: WaitChange_def)
qed (use assms(2) in \<open>auto simp: WaitChange_def\<close>)

lemma get_unmoved:
  assumes "queue_inv change_key q" and "WaitChange q = (Item x, q')"
  shows "unmoved k q c q' c"
proof -
  note g = get_facts [OF assms]
  then have "\<not> processed_key k q'" if "free k q"
    using that free_iff [OF assms(1), of k] by (auto simp: key_of key_change_eq GetUniKey_def)
  then have "free k q'" if "free k q"
    using that g free_iff [OF assms(1), of k] free_iff [of q' k] by auto
  then show ?thesis by (simp add: unmoved_def)
qed

lemma cache_ok_Delete: "cache_ok c \<Longrightarrow> cache_ok (Delete k c)"
  by (auto simp: cache_ok_def times_ok_def Delete_def intro: finite_subset [of _ "dom (items c)"])

lemma beside_step:
  assumes inv: "decision_inv k F s" and step: "infomer_step repo workerID a s = Some (es, s')"
    and other: "\<not> of_loop a" and careful: "\<forall>e\<in>set es. careful k e"
  shows "decision_inv k (F \<union> fetched es) s'"
proof -
  have ok: "queue_inv change_key (in_queue s)" "cache_ok (in_cache s)" using inv by (simp_all add: decision_inv_def)
  have frame: "decision_inv k (F \<union> fetched es) s'"
    if "in_loop s' = in_loop s" "queue_inv change_key (in_queue s')" "cache_ok (in_cache s')"
      "set (elems (queue (in_queue s'))) \<subseteq> set (elems (queue (in_queue s)))"
      "unmoved k (in_queue s) (in_cache s) (in_queue s') (in_cache s')"
    using decision_inv_frame [OF inv that(1) _ that(2-5)] by blast
  have still: "decision_inv k (F \<union> fetched es) s'"
    if "in_loop s' = in_loop s" "in_queue s' = in_queue s" "in_cache s' = in_cache s"
    using that ok by (intro frame) (simp_all add: unmoved_refl)
  note fin = Done_inv [OF ok(1)] free_Done [of k "in_queue s"]
  show ?thesis
  proof (cases a)
    case (IMonitor b)
    with step obtain ms m where m: "monitor_step repo b (in_mon s) = Some (ms, m)" "s' = s\<lparr>in_mon := m\<rparr>"
      "\<And>rnd now. b \<noteq> MProcess rnd now"
      by (auto split: monitor_op.splits)
    from monitor_other [OF m(1,3)] m(2) ok show ?thesis by (intro frame) (simp_all add: unmoved_refl)
  next
    case (IReceive now)
    with step obtain p t ch where t: "receive (mon_ch (in_mon s)) = Some ((p, t), ch)"
      "es = [EReported (res_TaskKey t) (processed_key (res_TaskKey t) (in_queue s))]"
      "in_loop s' = in_loop s" "in_queue s' = in_queue s"
      "in_cache s' = snd (processTask True now (Some t) (in_cache s))"
      by (auto split: if_splits option.splits)
    have "unmoved k (in_queue s) (in_cache s) (in_queue s') (in_cache s')"
      using careful t by (auto simp: unmoved_def processTask_def Set_def)
    with t ok cache_ok_processTask [OF ok(2), of True now "Some t"] show ?thesis by (intro frame) simp_all
  next
    case (IUpdate rnd)
    with step have "in_loop s' = in_loop s" "in_queue s' = in_queue s" "in_cache s' = in_cache s"
      by (auto split: callback_pc.splits)
    with ok show ?thesis by (intro frame) (simp_all add: unmoved_refl)
  next
    case IRelease
    with step obtain t where t: "in_callback s = CRelease t" by (auto split: callback_pc.splits)
    with step IRelease have
      "s' = (with_queue (Done change_key (key_change (res_TaskKey t)) (in_queue s)) s)\<lparr>in_callback := CIdle\<rparr>"
      by simp
    with ok fin typed.finish_pending [OF ok(1)] show ?thesis by (intro frame) (simp_all add: unmoved_def with_queue_def)
  next
    case (IRecycle j)
    with step careful have "in_loop s' = in_loop s" "in_queue s' = in_queue s" "in_cache s' = Delete j (in_cache s)" "j \<noteq> k"
      by auto
    with ok cache_ok_Delete [OF ok(2)] show ?thesis by (intro frame) (auto simp: unmoved_def Delete_def)
  next
    case IGet
    with step obtain x q where q: "WaitChange (in_queue s) = (Item x, q)" "s' = with_queue q s"
      by (auto split: prod.splits get_outcome.splits)
    with get_facts [OF ok(1) q(1)] get_unmoved [OF ok(1) q(1)] ok show ?thesis
      by (intro frame) (auto simp: with_queue_def)
  next
    case (IJump x)
    with step have "s' = with_queue (Done change_key x (in_queue s)) s" by (simp add: JumpChange_def)
    with ok fin typed.finish_pending [OF ok(1)] show ?thesis by (intro frame) (simp_all add: unmoved_def with_queue_def)
  next
    case IShutdown
    with step have "s' = with_queue (infomer_Shutdown (in_queue s)) s" by simp
    moreover have "elems (queue (infomer_Shutdown q)) = elems (queue q)" "queue_inv change_key (infomer_Shutdown q) = queue_inv change_key q"
      for q by (simp add: infomer_Shutdown_def ShutDownWithDrain_def) (simp add: infomer_Shutdown_def)
    ultimately show ?thesis
      using ok free_Shutdown [of k "in_queue s"] by (intro frame) (simp_all add: unmoved_def with_queue_def)
  qed ((rule still; use step other in \<open>auto simp: of_loop_def split: if_splits\<close>)+)
qed

section \<open>The loop\<close>

lemma listed_entry:
  assumes "cache_ok c" and "range_order ks (items c)" and "distinct realKeys"
  shows "key_by res_TaskKey (ListTasks ks realKeys c) k =
    (if k \<in> set realKeys \<or> realKeys = [] then items c k else None)"
proof -
  let ?l = "ListTasks ks realKeys c"
  have l: "r \<in> set ?l \<longleftrightarrow> items c (res_TaskKey r) = Some r \<and> (realKeys = [] \<or> res_TaskKey r \<in> set realKeys)" for r
    using ListTasks_set [OF assms(1,2), of realKeys] List_ok(2) [OF assms(1,2)]
    by (cases "realKeys = []") (auto simp: ListTasks_all)
  show ?thesis
  proof (cases "key_by res_TaskKey ?l k")
    case None
    then have "\<not> (res_TaskKey r = k \<and> r \<in> set ?l)" for r by (auto simp: key_by_None_iff)
    moreover have "res_TaskKey r = k" if "items c k = Some r" for r using assms(1) that by (simp add: cache_ok_def)
    ultimately show ?thesis using None l by (cases "items c k") auto
  next
    case (Some r)
    with l key_by_SomeD [OF Some] show ?thesis by auto
  qed
qed

lemma join_pairs_cases:
  assumes "pair \<in> set (join_pairs ws rs)"
  obtains w where "w \<in> set ws" "pair = \<lparr>want = Some w, real = key_by res_TaskKey rs (task_TaskKey w)\<rparr>"
  | r where "r \<in> set rs" "pair = \<lparr>want = None, real = Some r\<rparr>"
  using assms by (auto simp: join_pairs_def Let_def)

lemma join_pairs_distinct:
  assumes "distinct (map task_TaskKey ws)" and "distinct (map res_TaskKey rs)"
  shows "distinct (map chg_TaskKey (diff (filter not_final (join_pairs ws rs))))"
  using pairs_keys [OF assms] unfolding join_pairs_def Let_def
  by (intro distinct_diff distinct_map_filter_sub)

lemma ListTasks_keys_distinct:
  assumes "cache_ok c" and "range_order ks (items c)" and "distinct realKeys"
  shows "distinct (map res_TaskKey (ListTasks ks realKeys c))"
  using List_ok(1) [OF assms(1,2)] ListTasks_distinct [OF assms(1,2) _ assms(3)]
  by (cases "realKeys = []") (auto simp: ListTasks_all)

lemma decided_diff:
  assumes ok: "cache_ok c" "range_order ks (items c)"
    and sel: "selected k q c (task_TaskKey ` set ws) realKeys"
    and ws: "distinct (map task_TaskKey ws)" "set ws \<subseteq> F"
  shows "decided k F q c (diff (filter not_final (join_pairs ws (ListTasks ks realKeys c))))"
proof -
  let ?l = "ListTasks ks realKeys c"
  have d: "distinct realKeys" using sel by (simp add: selected_def)
  note entry = listed_entry [OF ok d]
  have "free k q \<and> fits F (status_in c k) x"
    if "pair \<in> set (join_pairs ws ?l)" and x: "diff_pair pair = Some x" and k: "chg_TaskKey x = k" for pair x
    using that(1)
  proof (cases rule: join_pairs_cases)
    case (1 w)
    then have w: "task_TaskKey w = k" using x k by (simp add: diff_pair_iff pair_key_def)
    then have "k \<in> task_TaskKey ` set ws" using 1(1) by blast
    then have f: "free k q" and "real pair = items c k" using sel 1(2) w entry [of k] by (auto simp: selected_def)
    then have "pair_real_status pair = status_in c k" by (simp add: pair_real_status_def status_in_def)
    moreover have "pair_want_status pair = task_WantRunStatus w" "want pair = Some w"
      using 1(2) by (simp_all add: pair_want_status_def)
    ultimately show ?thesis using x k w 1(1) ws(2) f by (auto simp: fits_def diff_pair_iff)
  next
    case (2 r)
    then have r: "res_TaskKey r = k" using x k by (simp add: diff_pair_iff pair_key_def)
    have "key_by res_TaskKey ?l k \<noteq> None" using 2(1) r by (auto simp: key_by_None_iff)
    then have mem: "k \<in> set realKeys \<or> realKeys = []" using entry [of k] by (simp split: if_splits)
    have "r \<in> set ?l \<Longrightarrow> items c (res_TaskKey r) = Some r"
      using ListTasks_set [OF ok, of realKeys] List_ok(2) [OF ok] by (cases "realKeys = []") (auto simp: ListTasks_all)
    then have "pair_real_status pair = status_in c k" using 2 r by (simp add: pair_real_status_def status_in_def)
    moreover have "pair_want_status pair = TaskStatusNotExist" using 2(2) by (simp add: pair_want_status_def)
    moreover have "chg_ChangeType x \<noteq> ChangeCreate" using create_carries_task [OF x] 2(2) by auto
    moreover have "free k q" using sel mem by (auto simp: selected_def)
    ultimately show ?thesis using x by (auto simp: fits_def diff_pair_iff)
  qed
  then show ?thesis
    using join_pairs_distinct [OF ws(1) ListTasks_keys_distinct [OF ok d]] by (auto simp: decided_def set_diff)
qed

lemma selected_keys:
  assumes ok: "cache_ok c" "range_order ks (items c)"
    and found: "k \<in> set (taskKeys info) \<and> k \<notin> set found \<longrightarrow> free k q"
    and wk: "wk = filter (\<lambda>key. key \<notin> set found) (taskKeys info)"
    and rk: "rk = filter (\<lambda>key. key \<notin> set found) (if resync info then ListTaskKeys ks c else taskKeys info)"
    and careful: "careful k (ESelected info found wk rk)" and some: "\<not> (wk = [] \<and> rk = [])"
  shows "selected k q c (set wk) rk"
proof -
  have "free k q" if "k \<in> set wk \<union> set rk \<or> rk = []"
    using that found careful some by (auto simp: wk rk split: if_splits)
  moreover have "items c k = None" if "k \<in> set wk" "k \<notin> set rk"
    using that ListTaskKeys_set [OF ok] by (auto simp: wk rk split: if_splits)
  moreover have "distinct rk" using careful ListTaskKeys_distinct [OF ok] by (auto simp: rk)
  ultimately show ?thesis by (auto simp: selected_def)
qed

lemma loop_step_inv:
  assumes inv: "decision_inv k F s" and step: "loop_step repo ks s = Some (es, s')"
    and careful: "\<forall>e\<in>set es. careful k e"
  shows "decision_inv k (F \<union> fetched es) s'"
proof -
  let ?q = "in_queue s" and ?c = "in_cache s"
  have ok: "queue_inv change_key ?q" "cache_ok ?c" and li: "loop_inv k F (in_loop s) ?q ?c"
    using inv by (simp_all add: decision_inv_def)
  have moved: "decision_inv k (F \<union> fetched es) s'"
    if "in_queue s' = ?q" "in_cache s' = ?c" "loop_inv k (F \<union> fetched es) (in_loop s') ?q ?c"
    using inv that fits_mono [of F _ _ "F \<union> fetched es"] by (simp add: decision_inv_def)
  show ?thesis
  proof (cases "in_loop s")
    case (LCheck info rest found)
    show ?thesis
    proof (cases rest)
      case Nil
      with LCheck step li show ?thesis by (intro moved) (auto simp: loop_step_def)
    next
      case (Cons key rest')
      from li LCheck obtain asked where asked: "taskKeys info = asked @ rest" "k \<in> set asked \<and> k \<notin> set found \<longrightarrow> free k ?q"
        by auto
      let ?found = "if Exist change_key (key_change key) ?q then found @ [key] else found"
      have s': "s' = s\<lparr>in_loop := LCheck info rest' ?found\<rparr>" "es = []"
        using step LCheck Cons by (simp_all add: loop_step_def)
      have "loop_inv k F (LCheck info rest' ?found) ?q ?c"
        using asked Cons by (auto simp: free_def intro!: exI [of _ "asked @ [key]"])
      with s' show ?thesis by (intro moved) simp_all
    qed
  next
    case (LReal info found)
    let ?wk = "filter (\<lambda>key. key \<notin> set found) (taskKeys info)"
    let ?rk = "filter (\<lambda>key. key \<notin> set found) (if resync info then ListTaskKeys ks ?c else taskKeys info)"
    have ro: "range_order ks (items ?c)" using step LReal by (auto simp: loop_step_def split: if_splits)
    then have s': "s' = s\<lparr>in_loop := (if ?wk = [] \<and> ?rk = [] then LSelect else LLoad ?wk ?rk)\<rparr>"
      "es = [ESelected info found ?wk ?rk]"
      using step LReal by (simp_all add: loop_step_def Let_def)
    have "selected k ?q ?c (set ?wk) ?rk" if "\<not> (?wk = [] \<and> ?rk = [])"
      using li LReal careful s'(2) by (intro selected_keys [OF ok(2) ro _ refl refl _ that]) auto
    then show ?thesis using s' by (intro moved) auto
  next
    case (LLoad wk rk)
    show ?thesis
    proof (cases "BatchGetTask repo wk (mon_repo (in_mon s))")
      case (Inl e)
      with step LLoad show ?thesis by (intro moved) (auto simp: loop_step_def)
    next
      case (Inr ws)
      then have s': "s' = s\<lparr>in_loop := LList ws rk\<rparr>" "es = [EFetched wk ws]"
        using step LLoad by (simp_all add: loop_step_def)
      moreover have "distinct (map task_TaskKey ws)" "task_TaskKey ` set ws \<subseteq> set wk"
        using careful s'(2) by simp_all
      moreover have "selected k ?q ?c (set wk) rk" using li LLoad by simp
      ultimately show ?thesis by (intro moved) (auto simp: selected_def)
    qed
  next
    case (LList ws rk)
    let ?pairs = "filter not_final (join_pairs ws (ListTasks ks rk ?c))"
    have ro: "range_order ks (items ?c)" using step LList by (auto simp: loop_step_def split: if_splits)
    then have s': "s' = s\<lparr>in_loop := (if ?pairs = [] then LSelect else LHandle (diff ?pairs) [])\<rparr>" "es = []"
      using step LList by (simp_all add: loop_step_def Let_def)
    have "decided k F ?q ?c (diff ?pairs)" using li LList by (intro decided_diff [OF ok(2) ro]) auto
    with s' show ?thesis by (intro moved) auto
  next
    case (LHandle cs normal)
    show ?thesis
    proof (cases cs)
      case Nil
      with LHandle step li show ?thesis by (intro moved) (auto simp: loop_step_def)
    next
      case (Cons x xs)
      have "decided k F ?q ?c (normal @ x # xs)" using li LHandle Cons by simp
      then have "decided k F ?q ?c ((normal @ [x]) @ xs)" "decided k F ?q ?c (normal @ xs)"
        by (auto simp: decided_def)
      with LHandle Cons step show ?thesis by (intro moved) (auto simp: loop_step_def split: if_splits)
    qed
  next
    case (LAdd cs)
    show ?thesis
    proof (cases cs)
      case Nil
      with LAdd step li show ?thesis by (intro moved) (auto simp: loop_step_def)
    next
      case (Cons x xs)
      then have s': "s' = s\<lparr>in_loop := LAdd xs, in_mon := (in_mon s)\<lparr>mon_queue := snd (Add change_key x ?q)\<rparr>\<rparr>" "es = []"
        using step LAdd by (simp_all add: loop_step_def)
      have dec: "decided k F ?q ?c (x # xs)" using li LAdd Cons by simp
      let ?q' = "snd (Add change_key x ?q)"
      have el: "set (elems (queue ?q')) \<subseteq> insert x (set (elems (queue ?q)))" "processing ?q' = processing ?q"
        by (auto simp: Add_def Touch_def Let_def)
      have fr: "free k ?q'" if "free k ?q" "chg_TaskKey x \<noteq> k"
        using that el free_iff [OF ok(1), of k] free_iff [OF Add_inv [OF ok(1), of x], of k] by auto
      have "free k ?q' \<and> fits F (status_in ?c k) y" if "y \<in> set xs" "chg_TaskKey y = k" for y
      proof -
        have "chg_TaskKey x \<noteq> k" using dec that by (auto simp: decided_def image_iff)
        with fr dec that show ?thesis by (simp add: decided_def)
      qed
      then have "decided k F ?q' ?c xs" using dec by (simp add: decided_def)
      moreover have "\<forall>y\<in>set (elems (queue ?q')). chg_TaskKey y = k \<longrightarrow> fits F (status_in ?c k) y"
        using inv dec el(1) by (auto simp: decision_inv_def decided_def)
      ultimately show ?thesis using s' ok Add_inv [OF ok(1), of x] by (simp add: decision_inv_def)
    qed
  qed (use step in \<open>simp_all add: loop_step_def\<close>)
qed

lemma fetched_append: "fetched (es @ fs) = fetched es \<union> fetched fs"
  by (induction es rule: fetched.induct) auto

lemma infomer_step_inv:
  assumes "decision_inv k F s" and "infomer_step repo workerID a s = Some (es, s')"
    and "\<forall>e\<in>set es. careful k e"
  shows "decision_inv k (F \<union> fetched es) s'"
proof (cases "of_loop a")
  case True
  then consider "a = ITake" | ks where "a = ILoop ks" | "a = ILoopEnd"
    by (auto simp: of_loop_def split: infomer_op.splits)
  then show ?thesis
  proof cases
    case 1
    with assms(1,2) show ?thesis by (auto simp: decision_inv_def split: if_splits option.splits list.splits prod.splits)
  next
    case (2 ks)
    with assms show ?thesis by (intro loop_step_inv) auto
  next
    case 3
    with assms(1,2) show ?thesis by (auto simp: decision_inv_def split: if_splits)
  qed
next
  case False
  from beside_step [OF assms(1,2) False assms(3)] show ?thesis .
qed

lemma infomer_run_inv:
  "infomer_run repo workerID ops s = Some (es, s') \<Longrightarrow> decision_inv k F s \<Longrightarrow> \<forall>e\<in>set es. careful k e \<Longrightarrow>
     decision_inv k (F \<union> fetched es) s'"
proof (induction ops arbitrary: s es F)
  case (Cons a ops)
  from Cons.prems(1) obtain es1 s1 es2 where s: "infomer_step repo workerID a s = Some (es1, s1)"
    "infomer_run repo workerID ops s1 = Some (es2, s')" "es = es1 @ es2"
    by (auto split: option.splits)
  have "decision_inv k (F \<union> fetched es1) s1"
    by (rule infomer_step_inv [OF Cons.prems(2) s(1)]) (use Cons.prems s(3) in auto)
  from Cons.IH [OF s(2) this] Cons.prems(3) show ?case by (simp add: s(3) fetched_append Un_assoc)
qed simp

section \<open>Properties\<close>

lemma infomer_start_Ok:
  assumes "infomer_start repo r wr workerID period i = (Ok s, i')"
  obtains keys where "ListRunnableTasks repo workerID r = Ok keys" "in_loop s = LSelect" "in_queue s = inf_queue i"
    "in_cache s = inf_cache i" "in_wg s = 2" "\<not> in_closed s"
    "buffer (tasksCh (in_trig s)) = [(Start, \<lparr>resync = True, taskKeys = keys\<rparr>)]"
  using assms
  by (auto simp: infomer_start_def infomer_Run_def makeTigger_def Let_def trigger_start_def
      split: if_splits sum.splits watch_result.splits prod.splits)

lemma decisions_kept:
  assumes start: "infomer_start repo r wr workerID period (infomer_New c0 grow now) = (Ok s0, i)"
    and ok: "cache_ok c0" "\<And>c n. n \<le> grow c n"
    and run: "infomer_run repo workerID ops s0 = Some (es, s)" and careful: "\<forall>e\<in>set es. careful k e"
  shows "decision_inv k (fetched es) s"
proof -
  obtain keys where s0: "in_loop s0 = LSelect" "in_queue s0 = inf_queue (infomer_New c0 grow now)"
    "in_cache s0 = inf_cache (infomer_New c0 grow now)"
    by (rule infomer_start_Ok [OF start])
  have "queue_inv change_key (NewTyped grow now)" unfolding NewTyped_eq by (rule newQueue_inv [OF ok(2)])
  then have "decision_inv k {} s0" using s0 ok(1) by (simp add: decision_inv_def infomer_New_def newQueue_simps)
  from infomer_run_inv [OF run this careful] show ?thesis by simp
qed

text \<open>
  C3: a change that is handed out fits the state of its task.  Let the triggers, the statements of the
  loop, the monitor, the recycling, the consumer, the shutdown and the writers of the repository
  interleave in any way from the start of the infomer.  When the consumer is given a change, the cached
  state of the task at that moment has a row in the table of changes with the type of the change, to a
  state that a task with this key was wanted in when the repository was asked, or to none; a create
  carries such a task; and no other change of the task is being processed.  This rests
  on \<open>careful\<close>: every resync lists the task, so that the queue is asked for it, and does not read it when it
  was found there; the executors report it only when a change of it is being processed, and its entry is
  not recycled; and the repository answers with tasks that it was asked for, each once.
\<close>

theorem delivered_change_fits:
  assumes start: "infomer_start repo r wr workerID period (infomer_New c0 grow now) = (Ok s0, i)"
    and ok: "cache_ok c0" "\<And>c n. n \<le> grow c n"
    and run: "infomer_run repo workerID ops s0 = Some (es, s)"
      "infomer_step repo workerID IGet s = Some ([EDelivered x], s')"
    and careful: "\<forall>e\<in>set es. careful (chg_TaskKey x) e"
  shows "fits (fetched es) (status_in (in_cache s') (chg_TaskKey x)) x \<and> \<not> processed_key (chg_TaskKey x) (in_queue s)"
proof -
  have inv: "decision_inv (chg_TaskKey x) (fetched es) s" by (rule decisions_kept [OF start ok run(1) careful])
  from run(2) obtain q where q: "WaitChange (in_queue s) = (Item x, q)" "s' = with_queue q s"
    by (auto split: prod.splits get_outcome.splits)
  have "x \<in> set (elems (queue (in_queue s)))" using get_facts [of "in_queue s" x q] inv q(1) by (simp add: decision_inv_def)
  then show ?thesis
    using inv waiting_not_processed [of "in_queue s" x] q(2) by (simp add: decision_inv_def with_queue_def)
qed

text \<open>
  No decision is lost.  In such a run, when the loop comes to add a change of a task, no change of that
  task waits or is processed, so it is appended to the queue, unless the queue is being shut down.
\<close>

theorem decided_change_is_queued:
  assumes start: "infomer_start repo r wr workerID period (infomer_New c0 grow now) = (Ok s0, i)"
    and ok: "cache_ok c0" "\<And>c n. n \<le> grow c n"
    and run: "infomer_run repo workerID ops s0 = Some (es, s)" "in_loop s = LAdd (x # xs)" "\<not> shuttingDown (in_queue s)"
    and careful: "\<forall>e\<in>set es. careful (chg_TaskKey x) e"
  shows "\<exists>s'. infomer_step repo workerID (ILoop ks) s = Some ([], s') \<and> in_loop s' = LAdd xs \<and>
    elems (queue (in_queue s')) = elems (queue (in_queue s)) @ [x]"
proof -
  have inv: "decision_inv (chg_TaskKey x) (fetched es) s" by (rule decisions_kept [OF start ok run(1) careful])
  then have "free (chg_TaskKey x) (in_queue s)" and q: "queue_inv change_key (in_queue s)"
    using run(2) by (simp_all add: decision_inv_def decided_def)
  then have "\<not> Exist change_key x (in_queue s)" using Exist_key [of x] by (simp add: free_def)
  from typed.add_new [OF q run(3) this] show ?thesis using run(2) by (simp add: loop_step_def)
qed

text \<open>
  How far the loop is from its \<open>select\<close>: the part of the round, and how much of the list is left in it.
\<close>

fun loop_rank :: "loop_pc \<Rightarrow> nat \<times> nat" where
  "loop_rank (LCheck info rest found) = (6, length rest)"
| "loop_rank (LReal info found) = (5, 0)"
| "loop_rank (LLoad wantKeys realKeys) = (4, 0)"
| "loop_rank (LList wantTasks realKeys) = (3, 0)"
| "loop_rank (LHandle cs normalChanges) = (2, length cs)"
| "loop_rank (LAdd cs) = (1, length cs)"
| "loop_rank pc = (0, 0)"

lemma loop_step_rank:
  assumes "loop_step repo ks s = Some (es, s')"
  shows "(loop_rank (in_loop s'), loop_rank (in_loop s)) \<in> less_than <*lex*> less_than"
  using assms
  by (cases "in_loop s") (auto simp: loop_step_def Let_def split: list.splits if_splits sum.splits)

lemma loop_step_enabled:
  assumes "in_loop s \<noteq> LSelect" and "in_loop s \<noteq> LEnded" and "range_order ks (items (in_cache s))"
  shows "\<exists>es s'. loop_step repo ks s = Some (es, s')"
  using assms
  by (cases "in_loop s") (auto simp: loop_step_def Let_def split: list.splits sum.splits)

lemma beside_keeps_loop:
  assumes "infomer_step repo workerID a s = Some (es, s')" and "\<not> of_loop a"
  shows "in_loop s' = in_loop s"
  using assms
  by (cases a) (auto simp: of_loop_def with_queue_def split: if_splits option.splits monitor_op.splits
      callback_pc.splits prod.splits get_outcome.splits)

lemma busy_loop:
  assumes "infomer_step repo workerID a s = Some (es, s')" and "of_loop a" and "in_loop s \<noteq> LSelect"
  obtains ks where "a = ILoop ks"
  using assms by (cases a) (auto simp: of_loop_def split: if_splits)

text \<open>
  C29: a trigger is handled to its end.  While the loop is busy with a trigger, it can take a step,
  whatever the other goroutines do; each of its steps brings it closer to its \<open>select\<close> in a
  well-founded order, and no step of the others sets it back.
\<close>

theorem trigger_is_handled:
  assumes "cache_ok (in_cache s)" and "in_loop s \<noteq> LSelect" and "in_loop s \<noteq> LEnded"
  shows "(\<exists>ks es s'. infomer_step repo workerID (ILoop ks) s = Some (es, s')) \<and>
    (\<forall>a es s'. infomer_step repo workerID a s = Some (es, s') \<longrightarrow>
       (if \<exists>ks. a = ILoop ks
        then (loop_rank (in_loop s'), loop_rank (in_loop s)) \<in> less_than <*lex*> less_than
        else in_loop s' = in_loop s)) \<and>
    wf (less_than <*lex*> less_than)"
proof (intro conjI allI impI)
  have "finite (dom (items (in_cache s)))" using assms(1) by (simp add: cache_ok_def times_ok_def)
  then obtain ks where "range_order ks (items (in_cache s))"
    using finite_distinct_list by (metis range_order_def)
  from loop_step_enabled [OF assms(2,3) this]
  show "\<exists>ks es s'. infomer_step repo workerID (ILoop ks) s = Some (es, s')" by (intro exI [of _ ks]) simp
  fix a es s' assume step: "infomer_step repo workerID a s = Some (es, s')"
  show "if \<exists>ks. a = ILoop ks then (loop_rank (in_loop s'), loop_rank (in_loop s)) \<in> less_than <*lex*> less_than
      else in_loop s' = in_loop s"
  proof (cases "of_loop a")
    case True
    then obtain ks where "a = ILoop ks" using busy_loop [OF step] assms(2) by blast
    with step loop_step_rank show ?thesis by auto
  next
    case False
    then have "\<nexists>ks. a = ILoop ks" by (auto simp: of_loop_def)
    with beside_keeps_loop [OF step False] show ?thesis by simp
  qed
qed (simp add: wf_lex_prod)

text \<open>The counter of the wait group is 2 while the loop runs and 1 when it has ended.\<close>

definition monitor_waits :: "'r infomer_sys \<Rightarrow> bool" where
  "monitor_waits s \<longleftrightarrow> \<not> in_closed s \<and> in_wg s = (if in_loop s = LEnded then 1 else 2)"

lemma monitor_waits_loop:
  assumes "monitor_waits s" and "loop_step repo ks s = Some (es, s')"
  shows "monitor_waits s'"
  using assms
  by (cases "in_loop s") (auto simp: monitor_waits_def loop_step_def Let_def split: list.splits if_splits sum.splits)

lemma monitor_waits_step:
  assumes "monitor_waits s" and "infomer_step repo workerID a s = Some (es, s')"
  shows "monitor_waits s'"
proof (cases a)
  case (IMonitor b)
  with assms show ?thesis by (auto simp: monitor_waits_def split: monitor_op.splits)
next
  case (ILoop ks)
  with assms monitor_waits_loop show ?thesis by auto
qed (use assms in \<open>auto simp: monitor_waits_def with_queue_def split: if_splits option.splits list.splits prod.splits
    callback_pc.splits get_outcome.splits\<close>)

text \<open>
  \<open>Run\<close> of an infomer that has started never returns: nothing closes the channel of \<open>Monitor\<close>, so
  its loop does not end, not even after the context has ended and the loop over the triggers with it.
\<close>

theorem Run_never_returns:
  assumes "infomer_start repo r wr workerID period i = (Ok s0, i')" and "infomer_run repo workerID ops s0 = Some (es, s)"
  shows "Run_result s = None"
proof -
  have "monitor_waits s1 \<Longrightarrow> infomer_run repo workerID ops s1 = Some (es, s) \<Longrightarrow> monitor_waits s" for s1 es
  proof (induction ops arbitrary: s1 es)
    case (Cons a ops)
    from Cons.prems(2) obtain es1 s2 es2 where "infomer_step repo workerID a s1 = Some (es1, s2)"
      "infomer_run repo workerID ops s2 = Some (es2, s)"
      by (auto split: option.splits)
    with Cons.IH monitor_waits_step [OF Cons.prems(1)] show ?case by blast
  qed simp
  moreover have "monitor_waits s0" by (rule infomer_start_Ok [OF assms(1)]) (simp add: monitor_waits_def)
  ultimately show ?thesis using assms(2) by (auto simp: monitor_waits_def Run_result_def split: if_splits)
qed

text \<open>
  An infomer that could not start cannot be started again: the flag stays set, and every later call
  gives the error of an infomer that runs.
\<close>

theorem failed_start_blocks_restart:
  assumes "infomer_start repo r wr workerID period i = (Err e, i')"
  shows "infomer_start repo r2 wr2 workerID2 period2 i' = (Err AlreadyRunning, i')"
  using assms
  by (auto simp: infomer_start_def infomer_Run_def split: if_splits sum.splits prod.splits)

section \<open>Witnesses\<close>

definition demo_infomer_repo :: mem_repo where
  "demo_infomer_repo = \<lparr>rows = [demo_task ''a'' TaskStatusRunning TaskStatusRunning,
     demo_task ''b'' TaskStatusWaitRunning TaskStatusRunning], updates = []\<rparr>"

definition demo_infomer_ops :: "mem_repo infomer_op list" where
  "demo_infomer_ops = [ITake, ILoop [], ILoop [], IMonitor (MResult (demo_result ''a'' TaskStatusPaused)), ILoop [],
     ILoop [''a''], IMonitor (MSend Forwarder), ILoop [], IReceive 5, ILoop [''a''], IUpdate (\<lambda>_. Fin 0 0), ILoop [], IRelease,
     ILoop [], ILoop [], ILoop [], IGet, ILoop []]"

lemma range_order_single: "range_order [k] m \<longleftrightarrow> dom m = {k}"
  by (auto simp: range_order_def)

lemmas demo_infomer_defs = infomer_start_def infomer_Run_def makeTigger_def demo_infomer_repo_def mem_TaskRepo_def
  infomer_New_def trigger_start_def chan_defs loop_step_def range_order_single demo_running_items
  newQueue_simps queue_defs getKey_def GetUniKey_def monitorChBuffer_def processTask_def with_queue_def
  ListTaskKeys_def cache_List_def ListTasks_def join_pairs_def key_by_def not_final_def diff_pair_def pair_want_status_def
  pair_real_status_def GetChangeType_def IsException_iff WaitChange_def set_len_def grow2_def Push_def Pop_def Set_def zero_Change_def

lemma demo_infomer_run:
  "\<exists>s0 i es s s' x. infomer_start mem_TaskRepo demo_infomer_repo WatchOk [] 0 (infomer_New (demo_running ''a'') grow2 0) = (Ok s0, i) \<and>
     infomer_run mem_TaskRepo [] demo_infomer_ops s0 = Some (es, s) \<and>
     infomer_step mem_TaskRepo [] IGet s = Some ([EDelivered x], s') \<and> chg_TaskKey x = ''b'' \<and>
     chg_ChangeType x = ChangeCreate \<and> (\<forall>e\<in>set es. careful ''b'' e)"
  by (simp add: demo_infomer_defs demo_infomer_ops_def Let_def)

theorem delivered_change_fits_witness:
  "\<exists>s0 i es s s' x. infomer_start mem_TaskRepo demo_infomer_repo WatchOk [] 0 (infomer_New (demo_running ''a'') grow2 0) = (Ok s0, i) \<and>
     infomer_run mem_TaskRepo [] demo_infomer_ops s0 = Some (es, s) \<and>
     infomer_step mem_TaskRepo [] IGet s = Some ([EDelivered x], s') \<and> chg_ChangeType x = ChangeCreate \<and>
     fits (fetched es) (status_in (in_cache s') ''b'') x"
proof -
  obtain s0 i es s s' x where run: "infomer_start mem_TaskRepo demo_infomer_repo WatchOk [] 0 (infomer_New (demo_running ''a'') grow2 0) = (Ok s0, i)"
    "infomer_run mem_TaskRepo [] demo_infomer_ops s0 = Some (es, s)"
    "infomer_step mem_TaskRepo [] IGet s = Some ([EDelivered x], s')"
    and x: "chg_TaskKey x = ''b''" "chg_ChangeType x = ChangeCreate" "\<forall>e\<in>set es. careful ''b'' e"
    using demo_infomer_run by blast
  have "fits (fetched es) (status_in (in_cache s') (chg_TaskKey x)) x \<and> \<not> processed_key (chg_TaskKey x) (in_queue s)"
    by (rule delivered_change_fits [OF run(1) demo_running_ok(1) grow2_ge run(2,3)]) (use x in simp)
  with run x show ?thesis by auto
qed

theorem decided_change_is_queued_witness:
  "\<exists>s0 i es s s' x. infomer_start mem_TaskRepo demo_infomer_repo WatchOk [] 0 (infomer_New (demo_running ''a'') grow2 0) = (Ok s0, i) \<and>
     infomer_run mem_TaskRepo [] (take 16 demo_infomer_ops) s0 = Some (es, s) \<and>
     infomer_step mem_TaskRepo [] (ILoop []) s = Some ([], s') \<and>
     elems (queue (in_queue s')) = elems (queue (in_queue s)) @ [x] \<and> chg_TaskKey x = ''b''"
proof -
  have "\<exists>s0 i es s x. infomer_start mem_TaskRepo demo_infomer_repo WatchOk [] 0 (infomer_New (demo_running ''a'') grow2 0) = (Ok s0, i) \<and>
     infomer_run mem_TaskRepo [] (take 16 demo_infomer_ops) s0 = Some (es, s) \<and> in_loop s = LAdd [x] \<and>
     \<not> shuttingDown (in_queue s) \<and> chg_TaskKey x = ''b'' \<and> (\<forall>e\<in>set es. careful ''b'' e)"
    by (simp add: demo_infomer_defs demo_infomer_ops_def Let_def)
  then obtain s0 i es s x where run: "infomer_start mem_TaskRepo demo_infomer_repo WatchOk [] 0 (infomer_New (demo_running ''a'') grow2 0) = (Ok s0, i)"
    "infomer_run mem_TaskRepo [] (take 16 demo_infomer_ops) s0 = Some (es, s)" "in_loop s = LAdd [x]" "\<not> shuttingDown (in_queue s)"
    and x: "chg_TaskKey x = ''b''" "\<forall>e\<in>set es. careful ''b'' e" by blast
  from decided_change_is_queued [OF run(1) demo_running_ok(1) grow2_ge run(2-4)] x
  have "\<exists>s'. infomer_step mem_TaskRepo [] (ILoop []) s = Some ([], s') \<and> elems (queue (in_queue s')) = elems (queue (in_queue s)) @ [x]"
    by auto
  with run(1,2) x(1) show ?thesis by blast
qed

theorem trigger_is_handled_witness:
  "\<exists>ks es s'. infomer_step mem_TaskRepo [] (ILoop ks) \<lparr>in_mon = demo_monitor, in_trig = trigger_start [],
       in_loop = LReal \<lparr>resync = True, taskKeys = [''a'']\<rparr> [], in_callback = CIdle, in_wg = 2, in_closed = False\<rparr> = Some (es, s')"
  by (rule trigger_is_handled [THEN conjunct1]) (simp_all add: demo_monitor_def demo_running_ok)

theorem Run_never_returns_witness:
  "\<exists>s0 i es s. infomer_start mem_TaskRepo demo_infomer_repo WatchOk [] 0 (infomer_New (demo_running ''a'') grow2 0) = (Ok s0, i) \<and>
     infomer_run mem_TaskRepo [] [ICancel, ILoopEnd, ITimerEnd] s0 = Some (es, s) \<and> in_loop s = LEnded \<and> Run_result s = None"
proof -
  have "\<exists>s0 i es s. infomer_start mem_TaskRepo demo_infomer_repo WatchOk [] 0 (infomer_New (demo_running ''a'') grow2 0) = (Ok s0, i) \<and>
     infomer_run mem_TaskRepo [] [ICancel, ILoopEnd, ITimerEnd] s0 = Some (es, s) \<and> in_loop s = LEnded"
    by (simp add: demo_infomer_defs)
  then obtain s0 i es s where run: "infomer_start mem_TaskRepo demo_infomer_repo WatchOk [] 0 (infomer_New (demo_running ''a'') grow2 0) = (Ok s0, i)"
    "infomer_run mem_TaskRepo [] [ICancel, ILoopEnd, ITimerEnd] s0 = Some (es, s)" "in_loop s = LEnded" by blast
  from Run_never_returns [OF run(1,2)] run show ?thesis by blast
qed

theorem failed_start_blocks_restart_witness:
  "\<exists>e i. infomer_start mem_TaskRepo demo_infomer_repo (WatchErr AlreadyRunning) [] 0 (infomer_New (demo_running ''a'') grow2 0) = (Err e, i) \<and>
     infomer_start mem_TaskRepo demo_infomer_repo WatchOk [] 0 i = (Err AlreadyRunning, i)"
proof -
  obtain e i where "infomer_start mem_TaskRepo demo_infomer_repo (WatchErr AlreadyRunning) [] 0 (infomer_New (demo_running ''a'') grow2 0) = (Err e, i)"
    by (simp add: demo_infomer_defs)
  with failed_start_blocks_restart [OF this] show ?thesis by blast
qed

text \<open>
  A resync asks the queue only for the keys that the repository lists.  A task that it does not list is
  deleted; when the timer ticks again while the delete is being processed, the loop computes the same
  delete from the state before, and if the first is finished before it is added, it is handed out a
  second time, for a task that has ended.
\<close>

definition orphan_ops :: "mem_repo infomer_op list" where
  "orphan_ops = [ITake, ILoop [], ILoop [''a''], ILoop [], ILoop [''a''], ILoop [], ILoop [], ILoop [], ILoop [], IGet,
     ITick, ISend Timer, ITake, ILoop [], ILoop [''a''], ILoop [], ILoop [''a''],
     IMonitor (MResult (demo_result ''a'' TaskStatusStop)), IMonitor (MSend Forwarder), IReceive 5, IUpdate (\<lambda>_. Fin 0 0), IRelease,
     ILoop [], ILoop [], ILoop [], ILoop [], IGet]"

fun handed_out :: "infomer_event list \<Rightarrow> Change list" where
  "handed_out [] = []"
| "handed_out (EDelivered x # es) = x # handed_out es"
| "handed_out (e # es) = handed_out es"

theorem orphan_deleted_twice:
  "\<exists>s0 i es s x. infomer_start mem_TaskRepo \<lparr>rows = [], updates = []\<rparr> WatchOk [] 0 (infomer_New (demo_running ''a'') grow2 0) = (Ok s0, i) \<and>
     infomer_run mem_TaskRepo [] orphan_ops s0 = Some (es, s) \<and> handed_out es = [x, x] \<and>
     chg_TaskKey x = ''a'' \<and> chg_ChangeType x = ChangeDelete \<and> status_in (in_cache s) ''a'' = TaskStatusStop"
  by (simp add: demo_infomer_defs orphan_ops_def tick_trigger_def tasksChBuffer_def status_in_def Let_def)

end
