(* ===== verification/ResultPath.thy ===== *)
theory ResultPath
  imports Monitor Executor
begin

text \<open>
  The way of a result from an executor to the cache: the executor sends it on its channel, a goroutine
  of \<open>ChangeResult\<close> (\<^verbatim>\<open>core/worker/executor/manager.go\<close>) moves it into the merged channel, the forwarder
  of \<open>Monitor\<close> (\<^verbatim>\<open>core/worker/infomer/indexer.go\<close>) takes it from there and sends it to the loop of
  \<open>Monitor\<close>, which stores it.  The steps are those of the two components; they meet where the forwarder
  receives.
\<close>

section \<open>The two components together\<close>

record 'r path_sys =
  fan :: fan_in
  mon :: "'r monitor_sys"

text \<open>
  \<open>Emit t e\<close>: the executor of type \<open>t\<close> sends \<open>e\<close>.  \<open>Pass\<close>: the forwarder receives from the merged channel
  and begins its send.  \<open>Watch\<close> is a step of the monitor other than the begin of that send.
\<close>

datatype path_op = Emit string TaskExecResult | Fan string | FanSend string | Pass | Watch monitor_op

fun path_step :: "'s registry \<Rightarrow> 'r TaskRepo \<Rightarrow> path_op \<Rightarrow> 'r path_sys \<Rightarrow>
    ((sender \<times> TaskExecResult) list \<times> 'r path_sys) option" where
  "path_step executors repo (Emit t e) s =
     Some ([], s\<lparr>fan := (fan s)\<lparr>sources := (sources (fan s))(t := sources (fan s) t @ [e])\<rparr>\<rparr>)"
| "path_step executors repo (Fan t) s =
     map_option (\<lambda>f. ([], s\<lparr>fan := f\<rparr>)) (ChangeResult_step executors (Take t) (fan s))"
| "path_step executors repo (FanSend t) s =
     map_option (\<lambda>f. ([], s\<lparr>fan := f\<rparr>)) (ChangeResult_step executors (Forward t) (fan s))"
| "path_step executors repo Pass s =
     (case ChangeResult_step executors Receive (fan s) of
        None \<Rightarrow> None
      | Some f \<Rightarrow> map_option (\<lambda>(ms, m). (ms, \<lparr>fan = f, mon = m\<rparr>))
          (monitor_step repo (MResult (hd (resultCh (fan s)))) (mon s)))"
| "path_step executors repo (Watch a) s =
     (case a of
        MResult r \<Rightarrow> None
      | _ \<Rightarrow> map_option (\<lambda>(ms, m). (ms, s\<lparr>mon := m\<rparr>)) (monitor_step repo a (mon s)))"

fun path_run :: "'s registry \<Rightarrow> 'r TaskRepo \<Rightarrow> path_op list \<Rightarrow> 'r path_sys \<Rightarrow>
    ((sender \<times> TaskExecResult) list \<times> 'r path_sys) option" where
  "path_run executors repo [] s = Some ([], s)"
| "path_run executors repo (a # ops) s =
     (case path_step executors repo a s of
        None \<Rightarrow> None
      | Some (ms, s1) \<Rightarrow>
          (case path_run executors repo ops s1 of None \<Rightarrow> None | Some (ns, s2) \<Rightarrow> Some (ms @ ns, s2)))"

definition path_start :: "'r monitor_sys \<Rightarrow> 'r path_sys" where
  "path_start m = \<lparr>fan = \<lparr>sources = (\<lambda>_. []), held = (\<lambda>_. None), resultCh = []\<rparr>,
     mon = m\<lparr>mon_ch := make_chan, listing := []\<rparr>\<rparr>"

text \<open>What the executor of type \<open>t\<close> has emitted in a run, and what the refresher has listed.\<close>

fun emitted :: "string \<Rightarrow> path_op list \<Rightarrow> TaskExecResult list" where
  "emitted t [] = []"
| "emitted t (Emit u e # ops) = (if u = t then [e\<lparr>res_TaskType := t\<rparr>] else []) @ emitted t ops"
| "emitted t (a # ops) = emitted t ops"

fun path_listed :: "path_op list \<Rightarrow> TaskExecResult list" where
  "path_listed [] = []"
| "path_listed (Watch a # ops) = listed [a] @ path_listed ops"
| "path_listed (a # ops) = path_listed ops"

section \<open>A run of both is a run of each\<close>

abbreviation of_type :: "string \<Rightarrow> TaskExecResult list \<Rightarrow> TaskExecResult list" where
  "of_type t \<equiv> filter (\<lambda>e. res_TaskType e = t)"

lemma emitted_append: "emitted t (a # ops) = emitted t [a] @ emitted t ops"
  by (cases a) simp_all

lemma path_listed_append: "path_listed (a # ops) = path_listed [a] @ path_listed ops"
  by (cases a) simp_all

lemma reported_app: "reported (xs @ ys) = reported xs @ reported ys"
proof (induction xs)
  case (Cons a xs)
  then show ?case using reported_append [of a "xs @ ys"] reported_append [of a xs] by simp
qed simp

lemma listed_app: "listed (xs @ ys) = listed xs @ listed ys"
proof (induction xs)
  case (Cons a xs)
  then show ?case using listed_append [of a "xs @ ys"] listed_append [of a xs] by simp
qed simp

lemma path_step_parts:
  assumes "path_step executors repo a s = Some (ms, s')" and "fan_ok (fan s)"
  shows "\<exists>mops. monitor_run repo mops (mon s) = Some (ms, mon s') \<and> listed mops = path_listed [a] \<and>
    (\<forall>t. of_type t (reported mops) @ pipeline t (fan s') = pipeline t (fan s) @ emitted t [a]) \<and> fan_ok (fan s')"
proof (cases a)
  case (Emit t e)
  with assms show ?thesis by (intro exI [of _ "[]"]) (auto simp: pipeline_def fan_ok_def)
next
  case (Fan t)
  with assms obtain f where f: "ChangeResult_step executors (Take t) (fan s) = Some f" "s' = s\<lparr>fan := f\<rparr>" "ms = []"
    by auto
  with Fan fan_step_ok [OF assms(2) f(1)] fan_step_pipeline [OF assms(2) f(1)] show ?thesis
    by (intro exI [of _ "[]"]) simp
next
  case (FanSend t)
  with assms obtain f where f: "ChangeResult_step executors (Forward t) (fan s) = Some f" "s' = s\<lparr>fan := f\<rparr>" "ms = []"
    by auto
  with FanSend fan_step_ok [OF assms(2) f(1)] fan_step_pipeline [OF assms(2) f(1)] show ?thesis
    by (intro exI [of _ "[]"]) simp
next
  case Pass
  with assms obtain f m where f: "ChangeResult_step executors Receive (fan s) = Some f"
    "monitor_step repo (MResult (hd (resultCh (fan s)))) (mon s) = Some (ms, m)" "s' = \<lparr>fan = f, mon = m\<rparr>"
    by (auto split: option.splits)
  then have "monitor_run repo [MResult (hd (resultCh (fan s)))] (mon s) = Some (ms, m)"
    by (simp del: monitor_step.simps)
  with Pass f(3) fan_step_ok [OF assms(2) f(1)] fan_step_pipeline [OF assms(2) f(1)] show ?thesis
    by (intro exI [of _ "[MResult (hd (resultCh (fan s)))]"]) (simp del: monitor_run.simps)
next
  case (Watch b)
  with assms obtain m where m: "monitor_step repo b (mon s) = Some (ms, m)" "s' = s\<lparr>mon := m\<rparr>" "\<And>r. b \<noteq> MResult r"
    by (auto split: monitor_op.splits)
  then have "reported [b] = []" by (cases b) auto
  with Watch m assms(2) show ?thesis by (intro exI [of _ "[b]"]) simp
qed

lemma path_run_parts:
  "path_run executors repo ops s = Some (ms, s') \<Longrightarrow> fan_ok (fan s) \<Longrightarrow>
     \<exists>mops. monitor_run repo mops (mon s) = Some (ms, mon s') \<and> listed mops = path_listed ops \<and>
       (\<forall>t. of_type t (reported mops) @ pipeline t (fan s') = pipeline t (fan s) @ emitted t ops)"
proof (induction ops arbitrary: s ms)
  case Nil
  then show ?case by (intro exI [of _ "[]"]) simp
next
  case (Cons a ops)
  from Cons.prems(1) obtain ms1 s1 ms2 where s: "path_step executors repo a s = Some (ms1, s1)"
    "path_run executors repo ops s1 = Some (ms2, s')" "ms = ms1 @ ms2"
    by (auto split: option.splits)
  from path_step_parts [OF s(1) Cons.prems(2)] obtain as where as: "monitor_run repo as (mon s) = Some (ms1, mon s1)"
    "listed as = path_listed [a]" "fan_ok (fan s1)"
    "\<And>t. of_type t (reported as) @ pipeline t (fan s1) = pipeline t (fan s) @ emitted t [a]"
    by blast
  from Cons.IH [OF s(2) as(3)] obtain bs where bs: "monitor_run repo bs (mon s1) = Some (ms2, mon s')"
    "listed bs = path_listed ops"
    "\<And>t. of_type t (reported bs) @ pipeline t (fan s') = pipeline t (fan s1) @ emitted t ops"
    by blast
  have "of_type t (reported (as @ bs)) @ pipeline t (fan s') = pipeline t (fan s) @ emitted t (a # ops)" for t
    using as(4) [of t] bs(3) [of t] by (simp add: reported_app emitted_append [of t a ops])
  with as bs show ?case
    by (intro exI [of _ "as @ bs"])
      (simp add: monitor_run_append s(3) listed_app path_listed_append [of a ops])
qed

section \<open>The last report of a task\<close>

definition last_about :: "string \<Rightarrow> TaskExecResult list \<Rightarrow> TaskExecResult option" where
  "last_about k es = (case rev (filter (\<lambda>e. res_TaskKey e = k) es) of [] \<Rightarrow> None | e # _ \<Rightarrow> Some e)"

lemma last_of_about: "last_of k ms = last_about k (map snd ms)"
  by (induction ms rule: rev_induct) (auto simp: last_about_def split: list.split)

lemma last_about_cong:
  "filter (\<lambda>e. res_TaskKey e = k) es = filter (\<lambda>e. res_TaskKey e = k) fs \<Longrightarrow> last_about k es = last_about k fs"
  by (simp add: last_about_def)

lemma only_forwarder:
  "k \<notin> res_TaskKey ` set (sent_by Refresher ms) \<Longrightarrow>
     filter (\<lambda>e. res_TaskKey e = k) (map snd ms) = filter (\<lambda>e. res_TaskKey e = k) (sent_by Forwarder ms)"
proof (induction ms)
  case (Cons m ms)
  then show ?case by (cases "fst m") auto
qed simp

lemma only_type:
  assumes "\<And>u. u \<noteq> t \<Longrightarrow> k \<notin> res_TaskKey ` set (of_type u es)"
  shows "filter (\<lambda>e. res_TaskKey e = k) es = filter (\<lambda>e. res_TaskKey e = k) (of_type t es)"
  using assms by (auto simp: filter_filter image_iff intro!: filter_cong)

section \<open>Properties\<close>

text \<open>
  C10: the results of an executor reach the cache in order.  In every run of the goroutines of
  \<open>ChangeResult\<close> and \<open>Monitor\<close>, what the loop of \<open>Monitor\<close> has processed of an executor, followed by what
  is on its way in the two channels and in the hands of the goroutines, is what the executor has
  reported, in order.  Once nothing of the executor is on its way, the cached state of a task that
  only this executor reports, and that no refresh has listed, is the one reported last, or the one of
  the start.
\<close>

theorem results_reach_cache_in_order:
  assumes "path_run executors repo ops (path_start m) = Some (ms, s')"
  shows "of_type t (sent_by Forwarder ms @ under_way Forwarder (mon_ch (mon s'))) @ pipeline t (fan s') =
      emitted t ops \<and>
    (of_type t (under_way Forwarder (mon_ch (mon s'))) @ pipeline t (fan s') = [] \<and>
       k \<notin> res_TaskKey ` set (path_listed ops) \<and>
       (\<forall>u. u \<noteq> t \<longrightarrow> k \<notin> res_TaskKey ` set (emitted u ops)) \<longrightarrow>
     items (mon_cache (mon s')) k =
       (case last_about k (emitted t ops) of None \<Rightarrow> items (mon_cache m) k | Some e \<Rightarrow> Some e))"
proof -
  have "fan_ok (fan (path_start m))" by (simp add: path_start_def fan_ok_def)
  from path_run_parts [OF assms this] obtain mops where mops:
    "monitor_run repo mops (mon (path_start m)) = Some (ms, mon s')" "listed mops = path_listed ops"
    "\<And>t. of_type t (reported mops) @ pipeline t (fan s') = emitted t ops"
    by (auto simp: path_start_def pipeline_def)
  note f = monitor_run_facts [OF mops(1), of k]
  have sent: "sent_by Forwarder ms @ under_way Forwarder (mon_ch (mon s')) = reported mops"
    using f by (simp add: path_start_def)
  have order: "of_type u (sent_by Forwarder ms @ under_way Forwarder (mon_ch (mon s'))) @ pipeline u (fan s') =
      emitted u ops" for u
    using mops(3) [of u] by (simp add: sent)
  have "items (mon_cache (mon s')) k =
      (case last_about k (emitted t ops) of None \<Rightarrow> items (mon_cache m) k | Some e \<Rightarrow> Some e)"
    if arrived: "of_type t (under_way Forwarder (mon_ch (mon s'))) @ pipeline t (fan s') = []"
      and unlisted: "k \<notin> res_TaskKey ` set (path_listed ops)"
      and own: "\<forall>u. u \<noteq> t \<longrightarrow> k \<notin> res_TaskKey ` set (emitted u ops)"
  proof -
    have "set (sent_by Refresher ms) \<subseteq> set (listed mops)" using f by (auto simp: path_start_def)
    then have "k \<notin> res_TaskKey ` set (sent_by Refresher ms)" using unlisted mops(2) by auto
    then have "last_of k ms = last_about k (sent_by Forwarder ms)"
      unfolding last_of_about by (intro last_about_cong only_forwarder)
    moreover have "k \<notin> res_TaskKey ` set (of_type u (sent_by Forwarder ms))" if "u \<noteq> t" for u
      using own [rule_format, OF that] order [of u] by (metis filter_append image_Un set_append UnCI)
    then have "last_about k (sent_by Forwarder ms) = last_about k (of_type t (sent_by Forwarder ms))"
      by (intro last_about_cong only_type)
    moreover have "of_type t (sent_by Forwarder ms) = emitted t ops" using order [of t] arrived by simp
    moreover have "mon_cache (mon (path_start m)) = mon_cache m" by (simp add: path_start_def)
    ultimately show ?thesis using f by (simp split: option.split)
  qed
  with order [of t] show ?thesis by blast
qed

section \<open>Witnesses\<close>

definition demo_path_ops :: "path_op list" where
  "demo_path_ops = [Emit ''g'' (demo_event TaskStatusRunning), Fan ''g'', Emit ''g'' (demo_event TaskStatusPaused),
     FanSend ''g'', Fan ''g'', Pass, FanSend ''g'', Watch (MSend Forwarder), Pass, Watch (MSend Forwarder),
     Watch (MProcess (\<lambda>_. Fin 0 0) 3), Watch (MProcess (\<lambda>_. Fin 0 0) 4)]"

theorem results_reach_cache_in_order_witness:
  "\<exists>ms s'. path_run [''g'' \<mapsto> demo_exe] mem_TaskRepo demo_path_ops (path_start demo_monitor) = Some (ms, s') \<and>
     items (mon_cache (mon s')) ''a'' = Some (demo_event TaskStatusPaused\<lparr>res_TaskType := ''g''\<rparr>)"
proof -
  have "\<exists>ms s'. path_run [''g'' \<mapsto> demo_exe] mem_TaskRepo demo_path_ops (path_start demo_monitor) = Some (ms, s') \<and>
      under_way Forwarder (mon_ch (mon s')) = [] \<and> pipeline ''g'' (fan s') = []"
    by (simp add: demo_path_ops_def path_start_def resultChBuffer_def monitorChBuffer_def chan_defs monitor_message_eq
        under_way_def pipeline_def split_beta)
  then obtain ms s' where run: "path_run [''g'' \<mapsto> demo_exe] mem_TaskRepo demo_path_ops (path_start demo_monitor) = Some (ms, s')"
    "under_way Forwarder (mon_ch (mon s')) = []" "pipeline ''g'' (fan s') = []" by blast
  have "emitted ''g'' demo_path_ops = map (\<lambda>e. e\<lparr>res_TaskType := ''g''\<rparr>) [demo_event TaskStatusRunning, demo_event TaskStatusPaused]"
    "\<forall>u. u \<noteq> ''g'' \<longrightarrow> emitted u demo_path_ops = []" "path_listed demo_path_ops = []"
    by (simp_all add: demo_path_ops_def)
  with results_reach_cache_in_order [OF run(1), of "''g''" "''a''"] run show ?thesis
    by (auto simp: last_about_def demo_event_def)
qed

end
