(* ===== verification/Delivery.thy ===== *)
theory Delivery
  imports ResultPath
begin

text \<open>
  No result is stuck on its way: whatever the executors, the forwarding goroutines, the refresher and
  the loop of \<open>Monitor\<close> have done (\<open>ResultPath\<close>), the goroutines that only pass results on always have a
  step to take while a result of a registered executor is under way, and every such step brings the
  results closer to the cache.
\<close>

section \<open>Steps that pass results on\<close>

definition passes_on :: "path_op \<Rightarrow> bool" where
  "passes_on a \<longleftrightarrow> (case a of Fan t \<Rightarrow> True | FanSend t \<Rightarrow> True | Pass \<Rightarrow> True
     | Watch (MSend p) \<Rightarrow> True | Watch (MProcess rnd now) \<Rightarrow> True | _ \<Rightarrow> False)"

text \<open>
  How many steps the results still need at most: five from the channel of the executor, four from the
  hands of its goroutine, three from the merged channel, two from the hands of a sender, one from the
  channel of \<open>Monitor\<close>.
\<close>

definition source_load :: "fan_in \<Rightarrow> string \<Rightarrow> nat" where
  "source_load f t = 5 * length (sources f t) + (case held f t of None \<Rightarrow> 0 | Some e \<Rightarrow> 4)"

definition chan_load :: "(sender, TaskExecResult) chan \<Rightarrow> nat" where
  "chan_load ch = (case pending ch Forwarder of None \<Rightarrow> 0 | Some r \<Rightarrow> 2) +
     (case pending ch Refresher of None \<Rightarrow> 0 | Some r \<Rightarrow> 2) + length (buffer ch)"

definition path_load :: "'s registry \<Rightarrow> 'r path_sys \<Rightarrow> nat" where
  "path_load executors s = (\<Sum>t\<in>dom executors. source_load (fan s) t) + 3 * length (resultCh (fan s)) +
     chan_load (mon_ch (mon s))"

definition held_registered :: "'s registry \<Rightarrow> 'r path_sys \<Rightarrow> bool" where
  "held_registered executors s \<longleftrightarrow> (\<forall>t. executors t = None \<longrightarrow> held (fan s) t = None)"

lemma held_registered_step:
  assumes "path_step executors repo a s = Some (ms, s')" and "held_registered executors s"
  shows "held_registered executors s'"
  using assms
  by (cases a) (auto simp: held_registered_def split: option.splits list.splits if_splits monitor_op.splits)

lemma held_registered_run:
  "path_run executors repo ops s = Some (ms, s') \<Longrightarrow> held_registered executors s \<Longrightarrow> held_registered executors s'"
proof (induction ops arbitrary: s ms)
  case (Cons a ops)
  from Cons.prems(1) obtain ms1 s1 ms2 where "path_step executors repo a s = Some (ms1, s1)"
    "path_run executors repo ops s1 = Some (ms2, s')"
    by (auto split: option.splits)
  with Cons.IH held_registered_step Cons.prems(2) show ?case by blast
qed simp

lemma sum_one:
  assumes "finite A" and "t \<in> A" and "\<And>u. u \<noteq> t \<Longrightarrow> g u = (f u :: nat)" and "f t = g t + n"
  shows "sum f A = sum g A + n"
proof -
  have "sum g (A - {t}) = sum f (A - {t})" using assms(3) by (intro sum.cong) auto
  then show ?thesis using sum.remove [OF assms(1,2), of f] sum.remove [OF assms(1,2), of g] assms(4) by simp
qed

lemma send_load: "send cap p ch = Some ch' \<Longrightarrow> chan_load ch = Suc (chan_load ch')"
  by (cases p) (auto simp: send_def chan_load_def split: option.splits if_splits)

lemma receive_load: "receive ch = Some (m, ch') \<Longrightarrow> chan_load ch = Suc (chan_load ch')"
  by (auto simp: receive_def chan_load_def split: list.splits)

lemma offer_load: "offer Forwarder r ch = Some ch' \<Longrightarrow> chan_load ch' = chan_load ch + 2"
  by (auto simp: offer_def chan_load_def split: if_splits)

lemma passes_on_load:
  assumes "path_step executors repo a s = Some (ms, s')" and "passes_on a"
    and "finite (dom executors)" and "held_registered executors s"
  shows "path_load executors s = Suc (path_load executors s')"
proof (cases a)
  case (Emit t e)
  with assms(2) show ?thesis by (simp add: passes_on_def)
next
  case (Fan t)
  with assms(1) obtain e es where e: "executors t \<noteq> None" "held (fan s) t = None" "sources (fan s) t = e # es"
    and s': "s' = s\<lparr>fan := (fan s)\<lparr>sources := (sources (fan s))(t := es),
      held := (held (fan s))(t \<mapsto> e\<lparr>res_TaskType := t\<rparr>)\<rparr>\<rparr>"
    by (auto split: option.splits list.splits)
  have "(\<Sum>u\<in>dom executors. source_load (fan s) u) = (\<Sum>u\<in>dom executors. source_load (fan s') u) + 1"
    by (rule sum_one [OF assms(3), of t]) (use e s' in \<open>auto simp: source_load_def\<close>)
  then show ?thesis by (simp add: path_load_def s')
next
  case (FanSend t)
  with assms(1) obtain e where e: "held (fan s) t = Some e"
    and s': "s' = s\<lparr>fan := (fan s)\<lparr>held := (held (fan s))(t := None), resultCh := resultCh (fan s) @ [e]\<rparr>\<rparr>"
    by (auto split: option.splits if_splits)
  then have "t \<in> dom executors" using assms(4) by (auto simp: held_registered_def)
  then have "(\<Sum>u\<in>dom executors. source_load (fan s) u) = (\<Sum>u\<in>dom executors. source_load (fan s') u) + 4"
    by (intro sum_one [OF assms(3), of t]) (use e s' in \<open>auto simp: source_load_def\<close>)
  then show ?thesis by (simp add: path_load_def s')
next
  case Pass
  with assms(1) obtain e es ch where "resultCh (fan s) = e # es" "offer Forwarder e (mon_ch (mon s)) = Some ch"
    and s': "s' = \<lparr>fan = (fan s)\<lparr>resultCh := es\<rparr>, mon = (mon s)\<lparr>mon_ch := ch\<rparr>\<rparr>"
    by (auto split: list.splits)
  then show ?thesis by (simp add: path_load_def s' offer_load source_load_def)
next
  case (Watch b)
  with assms(2) consider p where "b = MSend p" | rnd now where "b = MProcess rnd now"
    by (auto simp: passes_on_def split: monitor_op.splits)
  then show ?thesis
  proof cases
    case (1 p)
    with Watch assms(1) obtain ch where "send monitorChBuffer p (mon_ch (mon s)) = Some ch"
      "s' = s\<lparr>mon := (mon s)\<lparr>mon_ch := ch\<rparr>\<rparr>" by auto
    then show ?thesis by (simp add: path_load_def send_load)
  next
    case (2 rnd now)
    with Watch assms(1) obtain m where m: "monitor_step repo (MProcess rnd now) (mon s) = Some (ms, m)" "s' = s\<lparr>mon := m\<rparr>"
      by (auto simp del: monitor_step.simps)
    then have "chan_load (mon_ch (mon s)) = Suc (chan_load (mon_ch m))"
      by (elim monitor_process) (auto dest: receive_load)
    then show ?thesis by (simp add: path_load_def m(2))
  qed
qed

lemma passing_run_load:
  "path_run executors repo ops s = Some (ms, s') \<Longrightarrow> \<forall>a\<in>set ops. passes_on a \<Longrightarrow> finite (dom executors) \<Longrightarrow>
     held_registered executors s \<Longrightarrow> path_load executors s = length ops + path_load executors s'"
proof (induction ops arbitrary: s ms)
  case (Cons a ops)
  from Cons.prems(1) obtain ms1 s1 ms2 where s: "path_step executors repo a s = Some (ms1, s1)"
    "path_run executors repo ops s1 = Some (ms2, s')"
    by (auto split: option.splits)
  have "path_load executors s1 = length ops + path_load executors s'"
    using Cons.IH [OF s(2)] Cons.prems held_registered_step [OF s(1)] by simp
  with passes_on_load [OF s(1)] Cons.prems show ?case by simp
qed simp

section \<open>There is always a step\<close>

lemma never_stuck:
  assumes "path_load executors s \<noteq> 0" and "finite (dom executors)"
  shows "\<exists>a ms s'. passes_on a \<and> path_step executors repo a s = Some (ms, s')"
proof -
  let ?ch = "mon_ch (mon s)"
  consider (buffer) "buffer ?ch \<noteq> []" | (sender) p r where "buffer ?ch = []" "pending ?ch p = Some r"
    | (merged) "buffer ?ch = []" "\<forall>p. pending ?ch p = None" "resultCh (fan s) \<noteq> []"
    | (held) t e where "resultCh (fan s) = []" "held (fan s) t = Some e"
    | (source) t where "t \<in> dom executors" "held (fan s) t = None" "sources (fan s) t \<noteq> []"
    | (none) "buffer ?ch = []" "\<forall>p. pending ?ch p = None" "resultCh (fan s) = []"
        "\<forall>t\<in>dom executors. held (fan s) t = None \<and> sources (fan s) t = []"
    by (metis not_None_eq)
  then show ?thesis
  proof cases
    case buffer
    then obtain m where "monitor_step repo (MProcess (\<lambda>_. Fin 0 0) 0) (mon s) = Some m"
      by (cases "buffer ?ch") (auto simp: receive_def monitor_message_eq split_beta)
    then show ?thesis
      by (intro exI [of _ "Watch (MProcess (\<lambda>_. Fin 0 0) 0)"]) (cases m; simp add: passes_on_def del: monitor_step.simps)
  next
    case (sender p r)
    then have "send monitorChBuffer p ?ch \<noteq> None" by (simp add: send_def monitorChBuffer_def)
    then show ?thesis by (intro exI [of _ "Watch (MSend p)"]) (auto simp: passes_on_def)
  next
    case merged
    then show ?thesis
      by (intro exI [of _ Pass]) (cases "resultCh (fan s)"; simp add: passes_on_def offer_def)
  next
    case (held t e)
    then show ?thesis by (intro exI [of _ "FanSend t"]) (simp add: passes_on_def resultChBuffer_def)
  next
    case (source t)
    then show ?thesis
      by (intro exI [of _ "Fan t"]) (cases "sources (fan s) t"; auto simp: passes_on_def)
  next
    case none
    then have "(\<Sum>t\<in>dom executors. source_load (fan s) t) = 0" by (auto simp: source_load_def)
    with none assms(1) show ?thesis by (simp add: path_load_def chan_load_def)
  qed
qed

lemma load_0:
  assumes "path_load executors s = 0" and "finite (dom executors)" and "t \<in> dom executors"
  shows "under_way Forwarder (mon_ch (mon s)) = [] \<and> pipeline t (fan s) = []"
proof -
  have "source_load (fan s) t = 0" using assms by (simp add: path_load_def)
  then show ?thesis
    using assms(1)
    by (auto simp: path_load_def chan_load_def source_load_def pipeline_def under_way_def split: option.splits)
qed

lemma drained_run:
  assumes "finite (dom executors)"
  shows "held_registered executors s \<Longrightarrow> \<exists>ops ms s'. path_run executors repo ops s = Some (ms, s') \<and>
    (\<forall>a\<in>set ops. passes_on a) \<and> path_load executors s' = 0"
proof (induction "path_load executors s" arbitrary: s)
  case 0
  then show ?case by (intro exI [of _ "[]"]) simp
next
  case (Suc n)
  then obtain a ms s1 where a: "passes_on a" "path_step executors repo a s = Some (ms, s1)"
    using never_stuck [OF _ assms, of s repo] by (metis nat.distinct(1))
  have "n = path_load executors s1" "held_registered executors s1"
    using passes_on_load [OF a(2,1) assms] held_registered_step [OF a(2)] Suc by simp_all
  from Suc.hyps(1) [OF this] obtain ops ms2 s' where "path_run executors repo ops s1 = Some (ms2, s')"
    "\<forall>a\<in>set ops. passes_on a" "path_load executors s' = 0" by blast
  with a show ?case by (intro exI [of _ "a # ops"]) (auto simp del: path_step.simps)
qed

section \<open>What has arrived\<close>

lemma path_run_append:
  "path_run executors repo (as @ bs) s =
     (case path_run executors repo as s of
        None \<Rightarrow> None
      | Some (ms, s1) \<Rightarrow>
          (case path_run executors repo bs s1 of None \<Rightarrow> None | Some (ns, s2) \<Rightarrow> Some (ms @ ns, s2)))"
  by (induction as arbitrary: s) (auto split: option.splits prod.splits)

lemma emitted_passing: "\<forall>a\<in>set bs. passes_on a \<Longrightarrow> emitted t (as @ bs) = emitted t as"
proof (induction as)
  case Nil
  then show ?case
  proof (induction bs)
    case (Cons b bs)
    then show ?case by (cases b) (auto simp: passes_on_def)
  qed simp
next
  case (Cons a as)
  then show ?case by (cases a) auto
qed

lemma results_conserved:
  assumes "path_run executors repo ops (path_start m) = Some (ms, s)"
  shows "of_type t (sent_by Forwarder ms @ under_way Forwarder (mon_ch (mon s))) @ pipeline t (fan s) = emitted t ops"
proof -
  have "fan_ok (fan (path_start m))" by (simp add: path_start_def fan_ok_def)
  from path_run_parts [OF assms this] obtain mops where mops:
    "monitor_run repo mops (mon (path_start m)) = Some (ms, mon s)"
    "of_type t (reported mops) @ pipeline t (fan s) = emitted t ops"
    by (auto simp: path_start_def pipeline_def)
  then show ?thesis using monitor_run_facts [OF mops(1)] by (simp add: path_start_def)
qed

lemma held_registered_reachable:
  "path_run executors repo ops (path_start m) = Some (ms, s) \<Longrightarrow> held_registered executors s"
  by (erule held_registered_run) (simp add: held_registered_def path_start_def)

definition at_rest :: "'s registry \<Rightarrow> 'r TaskRepo \<Rightarrow> 'r path_sys \<Rightarrow> bool" where
  "at_rest executors repo s \<longleftrightarrow> (\<forall>a. passes_on a \<longrightarrow> path_step executors repo a s = None)"

lemma at_rest_iff:
  assumes "finite (dom executors)" and "held_registered executors s"
  shows "at_rest executors repo s \<longleftrightarrow> path_load executors s = 0"
proof
  show "path_load executors s = 0" if "at_rest executors repo s"
    using never_stuck [OF _ assms(1), of s repo] that unfolding at_rest_def by (metis option.distinct(1))
next
  assume "path_load executors s = 0"
  then have "path_step executors repo a s \<noteq> Some (ms, s')" if "passes_on a" for a ms s'
    using passes_on_load [OF _ that assms] by force
  then show "at_rest executors repo s" unfolding at_rest_def by (metis not_Some_eq prod.collapse)
qed

section \<open>Properties\<close>

text \<open>
  C11: every result arrives.  From every state that the goroutines can reach, passing on what is under
  way comes to rest: no sequence of such steps is longer than \<open>path_load\<close>, some sequence of them leads
  to a state in which none is possible, and in every such state all results that a registered executor
  has emitted have been processed by the loop of \<open>Monitor\<close>, in their order.
\<close>

theorem every_result_arrives:
  assumes "path_run executors repo ops (path_start m) = Some (ms, s)" and "finite (dom executors)"
  shows "(\<exists>ops' ms' s'. path_run executors repo ops' s = Some (ms', s') \<and> (\<forall>a\<in>set ops'. passes_on a) \<and>
      at_rest executors repo s') \<and>
    (\<forall>ops' ms' s'. path_run executors repo ops' s = Some (ms', s') \<and> (\<forall>a\<in>set ops'. passes_on a) \<longrightarrow>
      length ops' \<le> path_load executors s \<and>
      (at_rest executors repo s' \<longrightarrow>
        (\<forall>t\<in>dom executors. of_type t (sent_by Forwarder (ms @ ms')) = emitted t ops)))"
proof -
  note h = held_registered_reachable [OF assms(1)]
  have "of_type t (sent_by Forwarder (ms @ ms')) = emitted t ops"
    if run: "path_run executors repo ops' s = Some (ms', s')" and only: "\<forall>a\<in>set ops'. passes_on a"
      and rest: "at_rest executors repo s'" and t: "t \<in> dom executors" for ops' ms' s' t
  proof -
    have all: "path_run executors repo (ops @ ops') (path_start m) = Some (ms @ ms', s')"
      using assms(1) run by (simp add: path_run_append)
    have "path_load executors s' = 0"
      using at_rest_iff [OF assms(2) held_registered_reachable [OF all]] rest by blast
    from load_0 [OF this assms(2) t] results_conserved [OF all, of t] show ?thesis
      by (simp add: emitted_passing [OF only])
  qed
  moreover obtain ops' ms' s' where run: "path_run executors repo ops' s = Some (ms', s')"
    "\<forall>a\<in>set ops'. passes_on a" "path_load executors s' = 0"
    using drained_run [OF assms(2) h] by blast
  moreover have "at_rest executors repo s'"
    using at_rest_iff [OF assms(2) held_registered_run [OF run(1) h]] run(3) by blast
  moreover have "length ops' \<le> path_load executors s"
    if "path_run executors repo ops' s = Some (ms', s')" "\<forall>a\<in>set ops'. passes_on a" for ops' ms' s'
    using passing_run_load [OF that assms(2) h] by simp
  ultimately show ?thesis by blast
qed

section \<open>Witnesses\<close>

theorem every_result_arrives_witness:
  "\<exists>ms s ops' ms' s'. path_run [''g'' \<mapsto> demo_exe] mem_TaskRepo (take 6 demo_path_ops) (path_start demo_monitor) = Some (ms, s) \<and>
     path_run [''g'' \<mapsto> demo_exe] mem_TaskRepo ops' s = Some (ms', s') \<and> length ops' \<le> 6 \<and>
     of_type ''g'' (sent_by Forwarder (ms @ ms')) =
       map (\<lambda>e. e\<lparr>res_TaskType := ''g''\<rparr>) [demo_event TaskStatusRunning, demo_event TaskStatusPaused]"
proof -
  have "\<exists>ms s. path_run [''g'' \<mapsto> demo_exe] mem_TaskRepo (take 6 demo_path_ops) (path_start demo_monitor) = Some (ms, s) \<and>
      path_load [''g'' \<mapsto> demo_exe] s = 6"
    by (simp add: demo_path_ops_def path_start_def resultChBuffer_def chan_defs path_load_def source_load_def chan_load_def)
  then obtain ms s where run: "path_run [''g'' \<mapsto> demo_exe] mem_TaskRepo (take 6 demo_path_ops) (path_start demo_monitor) = Some (ms, s)"
    and load: "path_load [''g'' \<mapsto> demo_exe] s = 6" by blast
  have "finite (dom [''g'' \<mapsto> demo_exe])" by simp
  note arrives = every_result_arrives [OF run this]
  then obtain ops' ms' s' where r': "path_run [''g'' \<mapsto> demo_exe] mem_TaskRepo ops' s = Some (ms', s')"
    "\<forall>a\<in>set ops'. passes_on a" "at_rest [''g'' \<mapsto> demo_exe] mem_TaskRepo s'" by blast
  have "emitted ''g'' (take 6 demo_path_ops) =
      map (\<lambda>e. e\<lparr>res_TaskType := ''g''\<rparr>) [demo_event TaskStatusRunning, demo_event TaskStatusPaused]"
    by (simp add: demo_path_ops_def)
  with arrives r' load run show ?thesis by (intro exI [of _ ms] exI [of _ s] exI [of _ ops'] exI [of _ ms'] exI [of _ s']) auto
qed

end
