(* ===== verification/Scheduler.thy ===== *)
theory Scheduler
  imports Resource Components
begin

text \<open>
  \<^verbatim>\<open>core/scheduler/scheduler.go\<close>: the operations on tasks that the server offers, the assignment of
  tasks to workers and the watch on the workers.  The task repository is the record \<open>repo\<close> of its
  methods on a state \<open>'r\<close>; the answers of service discovery and of the election are arguments.
\<close>

section \<open>State\<close>

text \<open>
  \<open>Run\<close> stores the list of workers before anything reads it.  Copying the list copies the instances
  and shares their metadata, which are in \<open>meta\<close>.  \<open>assignEvent\<close> is a channel with a buffer of one.
\<close>

record 'r Scheduler =
  availableWorkers :: "Instance list"
  assignEvent :: nat
  meta :: meta_store
  repo_state :: 'r

definition setAvailableWorkers :: "Instance list \<Rightarrow> 'r Scheduler \<Rightarrow> 'r Scheduler" where
  "setAvailableWorkers instances s = s\<lparr>availableWorkers := instances\<rparr>"

definition getAvailableWorkers :: "'r Scheduler \<Rightarrow> Instance list" where
  "getAvailableWorkers s = availableWorkers s"

abbreviation worker_id :: "'r Scheduler \<Rightarrow> Instance \<Rightarrow> string" where
  "worker_id s \<equiv> ID (meta s)"

section \<open>Operations on tasks\<close>

definition createTask :: "'r TaskRepo \<Rightarrow> string \<Rightarrow> Task \<Rightarrow> 'r \<Rightarrow> error option \<times> 'r" where
  "createTask repo uuid task r =
     CreateTask repo (task\<lparr>task_TaskKey := uuid, task_Status := TaskStatusWaitScheduling\<rparr>) r"

definition Scheduler_CreateTask :: "'r TaskRepo \<Rightarrow> string \<Rightarrow> Task \<Rightarrow> 'r \<Rightarrow> error option \<times> 'r" where
  "Scheduler_CreateTask repo uuid task r = createTask repo uuid task r"

definition Scheduler_ListTask :: "'r TaskRepo \<Rightarrow> TaskFilter \<Rightarrow> 'r \<Rightarrow> Task list result" where
  "Scheduler_ListTask repo flt r =
     (case ListTask repo flt r of Inl err \<Rightarrow> Err err | Inr tasks \<Rightarrow> Ok tasks)"

text \<open>The task that \<open>OperateTask\<close> works on: by key, or the first one with the business id.\<close>

definition operate_target :: "'r TaskRepo \<Rightarrow> string \<Rightarrow> string \<Rightarrow> 'r \<Rightarrow> Task result" where
  "operate_target repo bizID taskKey r =
     (if taskKey \<noteq> [] then GetTask repo taskKey r
      else if bizID \<noteq> [] then
        (case ListTask repo \<lparr>filter_BizIDs = [bizID], filter_BizType = [], filter_Type = [],
                             filter_Offset = 0, filter_Limit = 1\<rparr> r of
           Inl err \<Rightarrow> Err err
         | Inr [] \<Rightarrow> Err TaskNotFound
         | Inr (t # _) \<Rightarrow> Ok t)
      else Err InvalidParams)"

definition OperateTask ::
    "'r TaskRepo \<Rightarrow> string \<Rightarrow> string \<Rightarrow> TaskStatus \<Rightarrow> 'r \<Rightarrow> error option \<times> 'r" where
  "OperateTask repo bizID taskKey nextStatus r =
     (case operate_target repo bizID taskKey r of
        Inl err \<Rightarrow> (Some err, r)
      | Inr task \<Rightarrow>
          (case CanTransition (task_Status task) nextStatus of
             Some err \<Rightarrow> (Some err, r)
           | None \<Rightarrow>
               let waitStatus = PreWaitStatus nextStatus
               in if waitStatus = []
                  then (Some (OperationNotAllowed (task_TaskKey task) (task_Status task) nextStatus), r)
                  else UpdateTask repo (zero_Task\<lparr>task_TaskKey := task_TaskKey task,
                         task_Status := waitStatus, task_WantRunStatus := nextStatus\<rparr>) r))"

section \<open>Choosing a worker\<close>

text \<open>The loop over the stains of a node stops at the first one that the task does not have.\<close>

definition stains_match :: "(string \<rightharpoonup> string) \<Rightarrow> (string \<rightharpoonup> string) \<Rightarrow> bool" where
  "stains_match taskStains nodeStains \<longleftrightarrow>
     (\<forall>k\<in>dom nodeStains. go_get taskStains k = go_get nodeStains k)"

fun filterWorker :: "meta_store \<Rightarrow> Task \<Rightarrow> Instance list \<Rightarrow> Instance list" where
  "filterWorker h task [] = []"
| "filterWorker h task (worker # ws) =
     (let nodeStains = Parsestain (metadata h worker)
      in if card (dom nodeStains) = 0 then worker # filterWorker h task ws
         else if card (dom nodeStains) > card (dom (task_Stains task)) then filterWorker h task ws
         else if stains_match (task_Stains task) nodeStains then worker # filterWorker h task ws
         else filterWorker h task ws)"

text \<open>
  The score of a worker, in the order of the operations of the code and without fused
  multiplications; a missing value is 0.
\<close>

definition worker_score :: "(string \<rightharpoonup> string) \<Rightarrow> float64" where
  "worker_score md =
     (let resourceUsage = ParseResourceUsage md;
          cpuScore = usage_of resourceUsage CpuUsageKey;
          memoryScore = usage_of resourceUsage MemUsageKey;
          goroutineNum = usage_of resourceUsage GoGoroutineKey;
          gcPause = usage_of resourceUsage GoGcPauseKey;
          gcCount = usage_of resourceUsage GoGcCountKey;
          half = float_const 1 2;
          score = float_add (float_mult cpuScore half) (float_mult memoryScore half)
      in if float_is_zero gcCount then float_add score goroutineNum
         else
           let goroutineScore = float_mult (float_div goroutineNum (float_of_int 5000)) (float_of_int 100);
               gcScore = float_mult (float_div (float_div gcPause gcCount) (float_of_int 500)) (float_of_int 100)
           in float_add score (float_add (float_mult goroutineScore half) (float_mult gcScore half)))"

record workerScore =
  index :: nat
  score :: float64

text \<open>
  \<open>sort.SliceStable\<close> as an insertion sort: a new element moves left while it is less than its
  neighbour.  The prefix is kept reversed.  For at most twenty elements this is the loop of the
  library; beyond, the library merges blocks sorted this way, with the same result if no score is NaN.
\<close>

fun insert_back :: "workerScore \<Rightarrow> workerScore list \<Rightarrow> workerScore list" where
  "insert_back x [] = [x]"
| "insert_back x (y # ys) =
     (if float_less (score x) (score y) then y # insert_back x ys else x # y # ys)"

definition SliceStable :: "workerScore list \<Rightarrow> workerScore list" where
  "SliceStable xs = rev (foldl (\<lambda>ys x. insert_back x ys) [] xs)"

definition worker_scores :: "meta_store \<Rightarrow> Instance list \<Rightarrow> workerScore list" where
  "worker_scores h workers =
     map (\<lambda>i. \<lparr>index = i, score = worker_score (metadata h (workers ! i))\<rparr>) [0..<length workers]"

text \<open>\<open>scores[0]\<close> panics on the empty list.\<close>

definition priorityWorker :: "meta_store \<Rightarrow> Instance list \<Rightarrow> Instance run" where
  "priorityWorker h workers =
     (case SliceStable (worker_scores h workers) of
        [] \<Rightarrow> Panic
      | s # ss \<Rightarrow> Return (workers ! index s))"

fun replace_first :: "(Instance \<Rightarrow> bool) \<Rightarrow> Instance \<Rightarrow> Instance list \<Rightarrow> Instance list" where
  "replace_first P y [] = []"
| "replace_first P y (x # xs) = (if P x then y # xs else x # replace_first P y xs)"

definition replace_worker :: "meta_store \<Rightarrow> Instance \<Rightarrow> Instance list \<Rightarrow> Instance list" where
  "replace_worker h updatedWorker workers =
     replace_first (\<lambda>worker. ID h worker = ID h updatedWorker) updatedWorker workers"

definition updateWorkerInCache :: "Instance \<Rightarrow> 'r Scheduler \<Rightarrow> 'r Scheduler" where
  "updateWorkerInCache updatedWorker s =
     setAvailableWorkers (replace_worker (meta s) updatedWorker (getAvailableWorkers s)) s"

text \<open>The three writes go to the map that all copies of the instance share.\<close>

definition write_estimates :: "Instance \<Rightarrow> meta_store \<Rightarrow> meta_store run" where
  "write_estimates worker h =
     (let resourceUsage = ParseResourceUsage (metadata h worker);
          cpuUsage = usage_of resourceUsage CpuUsageKey;
          memUsage = usage_of resourceUsage MemUsageKey;
          goroutineNum = usage_of resourceUsage GoGoroutineKey
      in case meta_write worker CpuUsageKey (FormatFloat2 (float_add cpuUsage (float_const 5 100))) h of
           Panic \<Rightarrow> Panic
         | Return h1 \<Rightarrow>
       (case meta_write worker MemUsageKey (FormatFloat2 (float_add memUsage (float_const 5 100))) h1 of
           Panic \<Rightarrow> Panic
         | Return h2 \<Rightarrow>
           meta_write worker GoGoroutineKey (FormatFloat2 (float_add goroutineNum (float_of_int 1))) h2))"

definition updateLocalResourceEstimate :: "Instance \<Rightarrow> 'r Scheduler \<Rightarrow> 'r Scheduler run" where
  "updateLocalResourceEstimate worker s =
     (case write_estimates worker (meta s) of
        Panic \<Rightarrow> Panic
      | Return h \<Rightarrow> Return (updateWorkerInCache worker (s\<lparr>meta := h\<rparr>)))"

definition selectWorkerID :: "Task \<Rightarrow> 'r Scheduler \<Rightarrow> (string result \<times> 'r Scheduler) run" where
  "selectWorkerID task s =
     (let workers = getAvailableWorkers s
      in if length workers = 0 then Return (Err NoAvailableWorkers, s)
         else
           let candidateWorkers = filterWorker (meta s) task workers
           in if length candidateWorkers = 0 then Return (Err NoCandidateWorkers, s)
              else if length candidateWorkers = 1
                then Return (Ok (worker_id s (candidateWorkers ! 0)), s)
              else (case priorityWorker (meta s) candidateWorkers of
                Panic \<Rightarrow> Panic
              | Return selectedWorker \<Rightarrow>
                  (case updateLocalResourceEstimate selectedWorker s of
                     Panic \<Rightarrow> Panic
                   | Return s1 \<Rightarrow> Return (Ok (worker_id s1 selectedWorker), s1))))"

section \<open>Assigning tasks\<close>

definition assignTask ::
    "'r TaskRepo \<Rightarrow> time \<Rightarrow> Task \<Rightarrow> 'r Scheduler \<Rightarrow> (error option \<times> 'r Scheduler) run" where
  "assignTask repo now task s =
     (case selectWorkerID task s of
        Panic \<Rightarrow> Panic
      | Return (Inl err, s1) \<Rightarrow> Return (Some err, s1)
      | Return (Inr workerID, s1) \<Rightarrow>
          let nextStatus = TaskStatusRunning;
              (err, r) = UpdateTask repo (zero_Task\<lparr>task_TaskKey := task_TaskKey task,
                task_Status := PreWaitStatus nextStatus, task_NextRunAt := Some now,
                task_WorkerID := workerID, task_WantRunStatus := nextStatus\<rparr>) (repo_state s1)
          in Return (err, s1\<lparr>repo_state := r\<rparr>))"

definition loadNeedAssignTasks :: "'r TaskRepo \<Rightarrow> 'r Scheduler \<Rightarrow> Task list result" where
  "loadNeedAssignTasks repo s =
     (let newAvailableWorkers = getAvailableWorkers s
      in case ListRunnableTasks repo [] (repo_state s) of
           Inl err \<Rightarrow> Err err
         | Inr allRunnableTaskKeys \<Rightarrow>
             (case BatchGetTask repo allRunnableTaskKeys (repo_state s) of
                Inl err \<Rightarrow> Err err
              | Inr tasks \<Rightarrow> Ok (filter (\<lambda>task.
                  \<not> list_ex (\<lambda>newWorker. worker_id s newWorker = task_WorkerID task)
                      newAvailableWorkers) tasks)))"

definition amILeader :: "Elector \<Rightarrow> bool result" where
  "amILeader elector =
     (case Leader elector of
        Inl err \<Rightarrow> Err (Wrapped ''leader'' err)
      | Inr leader \<Rightarrow> Ok (AmILeader elector leader))"

text \<open>
  The loop over the tasks; an error of one task is logged and the loop goes on.  One time stands for
  all the calls of \<open>time.Now()\<close> of a round; the steps of \<open>SchedulerThreads\<close> have one each.
\<close>

fun assign_all :: "'r TaskRepo \<Rightarrow> time \<Rightarrow> Task list \<Rightarrow> 'r Scheduler \<Rightarrow> 'r Scheduler run" where
  "assign_all repo now [] s = Return s"
| "assign_all repo now (task # tasks) s =
     (case assignTask repo now task s of
        Panic \<Rightarrow> Panic
      | Return (err, s1) \<Rightarrow> assign_all repo now tasks s1)"

text \<open>
  One iteration of \<open>monitorAssignEvent\<close>: it takes the event, asks for the leader and for the tasks,
  and assigns them.
\<close>

definition monitorAssignEvent ::
    "'r TaskRepo \<Rightarrow> Elector \<Rightarrow> time \<Rightarrow> 'r Scheduler \<Rightarrow> 'r Scheduler run" where
  "monitorAssignEvent repo elector now s0 =
     (let s = s0\<lparr>assignEvent := assignEvent s0 - 1\<rparr>
      in case amILeader elector of
           Inl err \<Rightarrow> Return s
         | Inr leader \<Rightarrow>
             if \<not> leader then Return s
             else (case loadNeedAssignTasks repo s of
                     Inl err \<Rightarrow> Return s
                   | Inr tasks \<Rightarrow> assign_all repo now tasks s))"

section \<open>Watching the workers\<close>

definition hasAvailableWorkersChanged :: "Instance list \<Rightarrow> 'r Scheduler \<Rightarrow> bool" where
  "hasAvailableWorkersChanged newAvailableWorkers s =
     (if length (getAvailableWorkers s) \<noteq> length newAvailableWorkers then True
      else list_ex (\<lambda>newWorker. \<not> list_ex (\<lambda>oldWorker. worker_id s newWorker = worker_id s oldWorker)
             (getAvailableWorkers s)) newAvailableWorkers)"

text \<open>The send on \<open>assignEvent\<close>: \<open>None\<close> while an event is waiting.\<close>

definition triggerReAssignEvent :: "'r Scheduler \<Rightarrow> 'r Scheduler option" where
  "triggerReAssignEvent s =
     (if assignEvent s < 1 then Some (s\<lparr>assignEvent := assignEvent s + 1\<rparr>) else None)"

text \<open>
  The callback of the subscription, up to the send on the channel, and whether the send follows.  It
  does not look at the error that it is called with.
\<close>

definition watchWorkers ::
    "Instance list \<Rightarrow> error option \<Rightarrow> 'r Scheduler \<Rightarrow> bool \<times> 'r Scheduler" where
  "watchWorkers services err s =
     (let newAvailableWorkers = filter Healthy services
      in if hasAvailableWorkersChanged newAvailableWorkers s
         then (True, setAvailableWorkers newAvailableWorkers s)
         else (False, setAvailableWorkers newAvailableWorkers s))"

text \<open>\<open>Run\<close> up to the start of its goroutines.\<close>

definition Scheduler_Run :: "Instance list result \<Rightarrow> 'r Scheduler \<Rightarrow> 'r Scheduler result" where
  "Scheduler_Run instances s =
     (case instances of
        Inl err \<Rightarrow> Err (Wrapped ''worker list'' err)
      | Inr workers \<Rightarrow> Ok ((setAvailableWorkers workers s)\<lparr>assignEvent := 0\<rparr>))"

section \<open>Facts about the sort\<close>

text \<open>\<open>before x y\<close>: \<open>y\<close> comes before \<open>x\<close> in a sorted list.\<close>

definition before :: "workerScore \<Rightarrow> workerScore \<Rightarrow> bool" where
  "before x y \<longleftrightarrow> float_less (score y) (score x) \<or>
     (\<not> float_less (score x) (score y) \<and> index y < index x)"

lemma before_trans:
  assumes "before x y" and "before y z" and "score x \<noteq> NaN" "score y \<noteq> NaN" "score z \<noteq> NaN"
  shows "before x z"
proof -
  note tr = float_less_trans [of "score z" "score y" "score x"]
    float_not_less_trans [OF assms(5), of "score y" "score x"]
    float_not_less_trans [OF assms(3), of "score z" "score y"]
    float_not_less_trans [OF assms(4), of "score x" "score z"]
  from assms(1,2) show ?thesis unfolding before_def using tr by (metis less_trans)
qed

lemma set_insert_back [simp]: "set (insert_back x ys) = insert x (set ys)"
  by (induction ys) auto

lemma insert_back_sorted:
  assumes "sorted_wrt before ys" and "\<And>y. y \<in> set ys \<Longrightarrow> index y < index x"
    and "score x \<noteq> NaN" and "\<And>y. y \<in> set ys \<Longrightarrow> score y \<noteq> NaN"
  shows "sorted_wrt before (insert_back x ys)"
  using assms(1,2,4)
proof (induction ys)
  case (Cons y ys)
  show ?case
  proof (cases "float_less (score x) (score y)")
    case True
    then have "before y x" by (simp add: before_def)
    with Cons True show ?thesis by auto
  next
    case False
    then have "before x y" using Cons.prems(2) by (simp add: before_def)
    moreover have "before x z" if "z \<in> set ys" for z
      using before_trans [OF \<open>before x y\<close>, of z] Cons.prems(1,3) assms(3) that by auto
    ultimately show ?thesis using Cons.prems(1) False by auto
  qed
qed simp

lemma insert_all_sorted:
  assumes "sorted_wrt (\<lambda>a b. index a < index b) xs" and "\<forall>x\<in>set xs. score x \<noteq> NaN"
    and "sorted_wrt before ys" and "\<forall>y\<in>set ys. \<forall>x\<in>set xs. index y < index x"
    and "\<forall>y\<in>set ys. score y \<noteq> NaN"
  shows "sorted_wrt before (foldl (\<lambda>ys x. insert_back x ys) ys xs)"
  using assms
proof (induction xs arbitrary: ys)
  case (Cons x xs)
  have "sorted_wrt before (insert_back x ys)"
    using Cons.prems by (intro insert_back_sorted) auto
  with Cons.IH [of "insert_back x ys"] Cons.prems show ?case by simp
qed simp

lemma SliceStable_sorted:
  "sorted_wrt (\<lambda>a b. index a < index b) xs \<Longrightarrow> \<forall>x\<in>set xs. score x \<noteq> NaN \<Longrightarrow>
     sorted_wrt (\<lambda>a b. before b a) (SliceStable xs)"
  using insert_all_sorted [of xs "[]"] by (simp add: SliceStable_def sorted_wrt_rev)

lemma insert_back_Nil [simp]: "insert_back x ys \<noteq> []"
  by (cases ys) auto

lemma foldl_insert_back_Nil: "foldl (\<lambda>ys x. insert_back x ys) ys xs = [] \<longleftrightarrow> ys = [] \<and> xs = []"
  by (induction xs arbitrary: ys) auto

lemma SliceStable_Nil [simp]: "SliceStable xs = [] \<longleftrightarrow> xs = []"
  by (simp add: SliceStable_def foldl_insert_back_Nil)

lemma worker_scores_sorted: "sorted_wrt (\<lambda>a b. index a < index b) (worker_scores h ws)"
  by (simp add: worker_scores_def sorted_wrt_map)

lemma set_insert_all: "set (foldl (\<lambda>ys x. insert_back x ys) ys xs) = set ys \<union> set xs"
  by (induction xs arbitrary: ys) auto

lemma set_SliceStable: "set (SliceStable xs) = set xs"
  by (simp add: SliceStable_def set_insert_all)

lemma priorityWorker_Return: "ws \<noteq> [] \<Longrightarrow> \<exists>w\<in>set ws. priorityWorker h ws = Return w"
proof -
  assume "ws \<noteq> []"
  then have "SliceStable (worker_scores h ws) \<noteq> []" by (simp add: worker_scores_def)
  then obtain x xs where x: "SliceStable (worker_scores h ws) = x # xs"
    by (cases "SliceStable (worker_scores h ws)") auto
  then have "x \<in> set (worker_scores h ws)" using set_SliceStable [of "worker_scores h ws"] by auto
  then have "index x < length ws" by (auto simp: worker_scores_def)
  with x show ?thesis by (auto simp: priorityWorker_def)
qed

section \<open>Facts about the choice of a worker\<close>

lemma set_filterWorker: "set (filterWorker h task ws) \<subseteq> set ws"
  by (induction ws) (auto simp: Let_def)

lemma ID_write:
  "meta_write w k v h = Return h' \<Longrightarrow> k \<noteq> ''worker_id'' \<Longrightarrow> ID h' x = ID h x"
  by (auto simp: meta_write_def ID_alt metadata_def go_get_def split: option.splits if_splits)

lemma key_not_worker_id [simp]:
  "CpuUsageKey \<noteq> ''worker_id''" "MemUsageKey \<noteq> ''worker_id''" "GoGoroutineKey \<noteq> ''worker_id''"
  by simp_all

lemma estimate_cases:
  assumes "Metadata w \<noteq> None"
  obtains h where "updateLocalResourceEstimate w s = Return (updateWorkerInCache w (s\<lparr>meta := h\<rparr>))"
    "\<And>x. ID h x = ID (meta s) x"
proof -
  obtain a where a: "Metadata w = Some a" using assms by blast
  then have wr: "\<exists>h'. meta_write w k v h = Return h'" for k v h by (simp add: meta_write_def)
  let ?u = "ParseResourceUsage (metadata (meta s) w)"
  obtain h1 where h1: "meta_write w CpuUsageKey
      (FormatFloat2 (float_add (usage_of ?u CpuUsageKey) (float_const 5 100))) (meta s) = Return h1"
    using wr by blast
  obtain h2 where h2: "meta_write w MemUsageKey
      (FormatFloat2 (float_add (usage_of ?u MemUsageKey) (float_const 5 100))) h1 = Return h2"
    using wr by blast
  obtain h3 where h3: "meta_write w GoGoroutineKey
      (FormatFloat2 (float_add (usage_of ?u GoGoroutineKey) (float_of_int 1))) h2 = Return h3"
    using wr by blast
  have "updateLocalResourceEstimate w s = Return (updateWorkerInCache w (s\<lparr>meta := h3\<rparr>))"
    by (simp add: updateLocalResourceEstimate_def write_estimates_def Let_def h1 h2 h3)
  moreover have "ID h3 x = ID (meta s) x" for x
    using ID_write [OF h1] ID_write [OF h2] ID_write [OF h3] by simp
  ultimately show thesis by (rule that)
qed

lemma updateWorkerInCache_frame [simp]:
  "meta (updateWorkerInCache w s) = meta s" "repo_state (updateWorkerInCache w s) = repo_state s"
  "assignEvent (updateWorkerInCache w s) = assignEvent s"
  by (simp_all add: updateWorkerInCache_def setAvailableWorkers_def)

lemma replace_first_ids:
  "(\<And>x. P x \<Longrightarrow> f x = f y) \<Longrightarrow> map f (replace_first P y xs) = map f xs"
  by (induction xs) auto

lemma selectWorkerID_cases:
  assumes "\<And>w. w \<in> set (availableWorkers s) \<Longrightarrow> Metadata w \<noteq> None"
  obtains (None) "availableWorkers s = []" "selectWorkerID task s = Return (Err NoAvailableWorkers, s)"
  | (NoCandidate) "availableWorkers s \<noteq> []" "filterWorker (meta s) task (availableWorkers s) = []"
      "selectWorkerID task s = Return (Err NoCandidateWorkers, s)"
  | (Some) w s' where "w \<in> set (filterWorker (meta s) task (availableWorkers s))"
      "selectWorkerID task s = Return (Ok (worker_id s w), s')" "repo_state s' = repo_state s"
      "map (worker_id s') (availableWorkers s') = map (worker_id s) (availableWorkers s)"
proof -
  let ?c = "filterWorker (meta s) task (availableWorkers s)"
  consider "availableWorkers s = []" | "availableWorkers s \<noteq> []" "?c = []"
    | "availableWorkers s \<noteq> []" "length ?c = 1" | "availableWorkers s \<noteq> []" "?c \<noteq> []" "length ?c \<noteq> 1"
    by blast
  then show thesis
  proof cases
    case 1
    then show thesis using that(1) by (simp add: selectWorkerID_def getAvailableWorkers_def)
  next
    case 2
    then show thesis using that(2) by (simp add: selectWorkerID_def getAvailableWorkers_def)
  next
    case 3
    then obtain w where w: "?c = [w]" by (auto simp: length_Suc_conv)
    with 3 show thesis using that(3) [of w s] by (simp add: selectWorkerID_def getAvailableWorkers_def)
  next
    case 4
    from priorityWorker_Return [OF 4(2)] obtain w where w: "w \<in> set ?c"
      "priorityWorker (meta s) ?c = Return w" by blast
    then have "Metadata w \<noteq> None" using assms set_filterWorker by blast
    from estimate_cases [OF this, of s] obtain h where
      h: "updateLocalResourceEstimate w s = Return (updateWorkerInCache w (s\<lparr>meta := h\<rparr>))"
      "\<And>x. ID h x = ID (meta s) x" by blast
    let ?s = "updateWorkerInCache w (s\<lparr>meta := h\<rparr>)"
    have sel: "selectWorkerID task s = Return (Ok (worker_id s w), ?s)"
      using 4 w h by (simp add: selectWorkerID_def getAvailableWorkers_def Let_def)
    have "map (ID h) (availableWorkers ?s) = map (ID h) (availableWorkers s)"
      unfolding updateWorkerInCache_def replace_worker_def setAvailableWorkers_def getAvailableWorkers_def
      by (simp add: replace_first_ids)
    then have "map (worker_id ?s) (availableWorkers ?s) = map (worker_id s) (availableWorkers s)"
      by (simp add: h(2) cong: map_cong)
    with w sel show thesis using that(3) [of w ?s] by simp
  qed
qed

text \<open>A worker with the disable stain takes no task that does not tolerate it.\<close>

lemma filterWorker_disabled:
  "Parsestain (metadata h i) = [stainDisable \<mapsto> ''true''] \<Longrightarrow> task_Stains t stainDisable = None \<Longrightarrow>
     i \<notin> set (filterWorker h t ws)"
  by (induction ws) (auto simp: stains_match_def go_get_def Let_def)

section \<open>Properties\<close>

text \<open>
  C27: which operations a user can order and what they write.  An operation goes through for exactly
  seven pairs of current and next state; then the one update sets the waiting state of the next
  state and makes it the wanted one.  In every other case the repository is not written and the
  caller gets an error.
\<close>

theorem OperateTask_spec:
  "OperateTask repo bizID taskKey nextStatus r =
     (case operate_target repo bizID taskKey r of
        Inl err \<Rightarrow> (Some err, r)
      | Inr t \<Rightarrow>
          if (task_Status t, nextStatus) \<in>
            {(TaskStatusNotExist, TaskStatusRunning), (TaskStatusNotExist, TaskStatusPaused),
             (TaskStatusNotExist, TaskStatusStop), (TaskStatusRunning, TaskStatusPaused),
             (TaskStatusRunning, TaskStatusStop), (TaskStatusPaused, TaskStatusRunning),
             (TaskStatusPaused, TaskStatusStop)}
          then UpdateTask repo (zero_Task\<lparr>task_TaskKey := task_TaskKey t,
                 task_Status := (if nextStatus = TaskStatusRunning then TaskStatusWaitRunning
                   else if nextStatus = TaskStatusPaused then TaskStatusWaitPaused else TaskStatusWaitStop),
                 task_WantRunStatus := nextStatus\<rparr>) r
          else (Some (if nextStatus = TaskStatusNotExist \<and> task_Status t \<in> {TaskStatusRunning, TaskStatusPaused}
                  then OperationNotAllowed (task_TaskKey t) (task_Status t) nextStatus
                  else if task_Status t \<in> {TaskStatusNotExist, TaskStatusRunning, TaskStatusPaused}
                  then UnsupportedTransition (task_Status t) nextStatus
                  else UnsupportedState (task_Status t)), r))"
proof (cases "operate_target repo bizID taskKey r")
  case (Inl err)
  then show ?thesis by (simp add: OperateTask_def)
next
  case (Inr t)
  show ?thesis
  proof (cases "task_Status t \<in> {TaskStatusNotExist, TaskStatusRunning, TaskStatusPaused}")
    case True
    then consider "task_Status t = TaskStatusNotExist" | "task_Status t = TaskStatusRunning"
      | "task_Status t = TaskStatusPaused" by blast
    then show ?thesis
      by cases (auto simp: OperateTask_def Inr CanTransition_def GetChangeType_def)
  next
    case False
    then have "CanTransition (task_Status t) nextStatus = Some (UnsupportedState (task_Status t))"
      by (simp add: CanTransition_def GetChangeType_def changeTypesRule_None [THEN iffD2])
    with False show ?thesis by (simp add: OperateTask_def Inr)
  qed
qed

text \<open>
  C26: the candidates for a task are the available workers whose stains the task tolerates: those
  whose stains are all among the task's, in the order of the list.  (Stains with an empty value are
  excluded: the code reads a missing stain of the task as the empty string.)
\<close>

theorem filterWorker_spec:
  assumes "finite (dom (task_Stains task))"
    and "\<And>w. w \<in> set ws \<Longrightarrow> finite (dom (metadata h w)) \<and> [] \<notin> ran (Parsestain (metadata h w))"
  shows "filterWorker h task ws = filter (\<lambda>w. Parsestain (metadata h w) \<subseteq>\<^sub>m task_Stains task) ws"
  using assms(2)
proof (induction ws)
  case (Cons w ws)
  let ?n = "Parsestain (metadata h w)" and ?t = "task_Stains task"
  have "dom ?n \<subseteq> dom (metadata h w)" by (auto simp: Parsestain_def split: if_splits)
  then have fin: "finite (dom ?n)" using Cons.prems [of w] by (auto intro: finite_subset)
  have "stains_match ?t ?n \<longleftrightarrow> ?n \<subseteq>\<^sub>m ?t"
  proof
    assume m: "stains_match ?t ?n"
    show "?n \<subseteq>\<^sub>m ?t"
      unfolding map_le_def
    proof
      fix k assume k: "k \<in> dom ?n"
      then obtain v where v: "?n k = Some v" by blast
      then have "v \<noteq> []" using Cons.prems [of w] by (auto simp: ran_def)
      moreover have "go_get ?t k = go_get ?n k" using m k by (simp add: stains_match_def)
      ultimately show "?n k = ?t k" using v by (cases "?t k") (simp_all add: go_get_def)
    qed
  qed (auto simp: stains_match_def map_le_def go_get_def)
  moreover have "card (dom ?n) \<le> card (dom ?t)" if "?n \<subseteq>\<^sub>m ?t"
    using that assms(1) by (auto intro: card_mono dest: map_le_implies_dom_le)
  moreover have "?n \<subseteq>\<^sub>m ?t" if "card (dom ?n) = 0" using that fin by (auto simp: map_le_def)
  ultimately show ?case using Cons by (auto simp: Let_def)
qed simp

text \<open>
  C25: \<open>priorityWorker\<close> returns the least loaded worker.  If no score is NaN, no worker has a smaller
  score than the one it returns, and of several with the same score it returns the first.
\<close>

theorem priorityWorker_spec:
  assumes "ws \<noteq> []" and "\<And>w. w \<in> set ws \<Longrightarrow> worker_score (metadata h w) \<noteq> NaN"
  shows "\<exists>i<length ws. priorityWorker h ws = Return (ws ! i) \<and>
    (\<forall>j<length ws. \<not> float_less (worker_score (metadata h (ws ! j))) (worker_score (metadata h (ws ! i)))) \<and>
    (\<forall>j<i. float_less (worker_score (metadata h (ws ! i))) (worker_score (metadata h (ws ! j))))"
proof -
  let ?xs = "worker_scores h ws" and ?f = "\<lambda>i. worker_score (metadata h (ws ! i))"
  have nan: "\<forall>x\<in>set ?xs. score x \<noteq> NaN" using assms(2) by (auto simp: worker_scores_def)
  from assms(1) have "SliceStable ?xs \<noteq> []" by (simp add: worker_scores_def)
  then obtain x xs where x: "SliceStable ?xs = x # xs" by (cases "SliceStable ?xs") auto
  have min: "before y x" if "y \<in> set ?xs" "y \<noteq> x" for y
    using SliceStable_sorted [OF worker_scores_sorted nan] set_SliceStable [of ?xs] that x by auto
  have "x \<in> set ?xs" using set_SliceStable [of ?xs] x by auto
  then have i: "index x < length ws" "score x = ?f (index x)" by (auto simp: worker_scores_def)
  have y: "\<lparr>index = j, score = ?f j\<rparr> \<in> set ?xs" if "j < length ws" for j
    using that by (auto simp: worker_scores_def)
  have "\<not> float_less (?f j) (?f (index x)) \<and> (j < index x \<longrightarrow> float_less (?f (index x)) (?f j))"
    if "j < length ws" for j
  proof (cases "\<lparr>index = j, score = ?f j\<rparr> = x")
    case True
    then have "j = index x" by (metis workerScore.select_convs(1))
    then show ?thesis by simp
  next
    case False
    from min [OF y [OF that] False] show ?thesis
      using float_less_trans [of "?f j" "?f (index x)" "?f j"] i by (auto simp: before_def)
  qed
  moreover have "priorityWorker h ws = Return (ws ! index x)" by (simp add: priorityWorker_def x)
  ultimately show ?thesis using i(1) by (intro exI [of _ "index x"]) auto
qed

text \<open>
  C28: assigning a task.  When every available worker has metadata, \<open>assignTask\<close> does not panic; it
  fails without a write if there is no worker or none that tolerates the task, and otherwise makes
  one update that gives the task to a candidate and wants it running.  The estimate that it adds to
  the load of the chosen worker does not change which workers are available.
\<close>

theorem assignTask_spec:
  assumes "\<And>w. w \<in> set (availableWorkers s) \<Longrightarrow> Metadata w \<noteq> None"
  shows "(availableWorkers s = [] \<and> assignTask repo now task s = Return (Some NoAvailableWorkers, s)) \<or>
    (availableWorkers s \<noteq> [] \<and> filterWorker (meta s) task (availableWorkers s) = [] \<and>
      assignTask repo now task s = Return (Some NoCandidateWorkers, s)) \<or>
    (\<exists>w s'. w \<in> set (filterWorker (meta s) task (availableWorkers s)) \<and>
      assignTask repo now task s = Return (fst (UpdateTask repo (zero_Task\<lparr>task_TaskKey := task_TaskKey task,
        task_Status := TaskStatusWaitRunning, task_NextRunAt := Some now,
        task_WorkerID := worker_id s w, task_WantRunStatus := TaskStatusRunning\<rparr>) (repo_state s)), s') \<and>
      repo_state s' = snd (UpdateTask repo (zero_Task\<lparr>task_TaskKey := task_TaskKey task,
        task_Status := TaskStatusWaitRunning, task_NextRunAt := Some now,
        task_WorkerID := worker_id s w, task_WantRunStatus := TaskStatusRunning\<rparr>) (repo_state s)) \<and>
      map (worker_id s') (availableWorkers s') = map (worker_id s) (availableWorkers s))"
proof (rule selectWorkerID_cases [where s = s and task = task], goal_cases)
  case (1 w)
  then show ?case by (rule assms)
next
  case (4 w s1)
  let ?u = "UpdateTask repo (zero_Task\<lparr>task_TaskKey := task_TaskKey task,
        task_Status := TaskStatusWaitRunning, task_NextRunAt := Some now,
        task_WorkerID := worker_id s w, task_WantRunStatus := TaskStatusRunning\<rparr>) (repo_state s)"
  have "assignTask repo now task s = Return (fst ?u, s1\<lparr>repo_state := snd ?u\<rparr>)"
    using 4 by (simp add: assignTask_def Let_def split_beta)
  with 4 show ?case by (intro disjI2 exI [of _ w] exI [of _ "s1\<lparr>repo_state := snd ?u\<rparr>"]) simp
qed (auto simp: assignTask_def)

text \<open>
  With two or more candidates, \<open>selectWorkerID\<close> panics if the chosen worker has no metadata: the
  load estimate is written into a nil map.
\<close>

theorem nil_metadata_panics:
  assumes "length (filterWorker (meta s) task (availableWorkers s)) \<ge> 2"
    and "priorityWorker (meta s) (filterWorker (meta s) task (availableWorkers s)) = Return w"
    and "Metadata w = None"
  shows "selectWorkerID task s = Panic \<and> assignTask repo now task s = Panic"
proof -
  have "availableWorkers s \<noteq> []" using assms(1) by auto
  moreover have "updateLocalResourceEstimate w s = Panic"
    using assms(3) by (simp add: updateLocalResourceEstimate_def write_estimates_def meta_write_def Let_def)
  moreover have "filterWorker (meta s) task (availableWorkers s) \<noteq> []"
    "length (filterWorker (meta s) task (availableWorkers s)) \<noteq> 1"
    using assms(1) by auto
  ultimately have "selectWorkerID task s = Panic"
    using assms(2) by (simp add: selectWorkerID_def getAvailableWorkers_def Let_def)
  then show ?thesis by (simp add: assignTask_def)
qed

text \<open>
  A reassignment overrides what the user wants.  When the worker of a task has gone and one
  other worker is available, the leader writes running as the wanted state, whatever the wanted
  state of the task was, so a task that the user has paused or stopped is started again.
\<close>

theorem reassignment_overrides_wanted_state:
  assumes "Leader elector = Ok l" and "AmILeader elector l"
    and "ListRunnableTasks repo [] (repo_state s) = Ok keys"
    and "BatchGetTask repo keys (repo_state s) = Ok [task]"
    and "availableWorkers s = [w]" and "worker_id s w \<noteq> task_WorkerID task"
    and "dom (Parsestain (metadata (meta s) w)) = {}"
  shows "monitorAssignEvent repo elector now s = Return (s\<lparr>assignEvent := assignEvent s - 1,
    repo_state := snd (UpdateTask repo (zero_Task\<lparr>task_TaskKey := task_TaskKey task,
      task_Status := TaskStatusWaitRunning, task_NextRunAt := Some now, task_WorkerID := worker_id s w,
      task_WantRunStatus := TaskStatusRunning\<rparr>) (repo_state s))\<rparr>)"
  using assms
  by (simp add: monitorAssignEvent_def amILeader_def loadNeedAssignTasks_def getAvailableWorkers_def
      assignTask_def selectWorkerID_def Let_def split_beta)

text \<open>
  The test for a change of the workers is exact when neither list has two workers with the
  same id: it is negative exactly if both have the same ids.
\<close>

theorem hasAvailableWorkersChanged_iff:
  assumes "distinct (map (worker_id s) (availableWorkers s))" and "distinct (map (worker_id s) new)"
  shows "hasAvailableWorkersChanged new s \<longleftrightarrow>
    worker_id s ` set new \<noteq> worker_id s ` set (availableWorkers s)"
proof -
  let ?old = "worker_id s ` set (availableWorkers s)" and ?new = "worker_id s ` set new"
  have c: "card ?old = length (availableWorkers s)" "card ?new = length new"
    using assms by (metis distinct_card length_map list.set_map)+
  have "hasAvailableWorkersChanged new s \<longleftrightarrow> card ?old \<noteq> card ?new \<or> \<not> ?new \<subseteq> ?old"
    by (auto simp: hasAvailableWorkersChanged_def getAvailableWorkers_def list_ex_iff c)
  also have "\<dots> \<longleftrightarrow> ?new \<noteq> ?old"
    by (metis card_subset_eq finite_imageI List.finite_set order_refl)
  finally show ?thesis .
qed

text \<open>
  An error of the subscription clears the list of workers.  The callback ignores its error: when
  it is called with an error and no workers, no worker is available any more, every runnable task
  counts as unassigned, and no task can be assigned.
\<close>

theorem watch_error_clears_workers:
  assumes "availableWorkers s \<noteq> []"
  shows "\<exists>s'. watchWorkers [] (Some err) s = (True, s') \<and> availableWorkers s' = [] \<and>
    selectWorkerID task s' = Return (Err NoAvailableWorkers, s') \<and>
    loadNeedAssignTasks repo s' = (case ListRunnableTasks repo [] (repo_state s) of
      Inl e \<Rightarrow> Err e | Inr keys \<Rightarrow> BatchGetTask repo keys (repo_state s))"
  using assms
  by (simp add: watchWorkers_def hasAvailableWorkersChanged_def getAvailableWorkers_def
      setAvailableWorkers_def selectWorkerID_def loadNeedAssignTasks_def split: sum.splits)

section \<open>Witnesses\<close>

text \<open>The instances \<open>1\<close> and \<open>2\<close>, whose metadata are the maps of a list.\<close>

definition test_store :: "(string \<rightharpoonup> string) list \<Rightarrow> meta_store" where
  "test_store ms a = (if a < length ms then ms ! a else Map.empty)"

definition test_instance :: "nat \<Rightarrow> Instance" where
  "test_instance a = \<lparr>InstanceId = (if a = 0 then ''1'' else ''2''), Ip = [], Port = 0, Healthy = True, Enable = True,
     Metadata = Some a\<rparr>"

definition test_workers :: "Instance list" where
  "test_workers = [test_instance 0, test_instance 1]"

lemma test_metadata: "metadata (test_store ms) (test_instance a) = test_store ms a"
  by (simp add: metadata_def test_instance_def)

lemma InstanceId_test: "InstanceId (test_instance a) = (if a = 0 then ''1'' else ''2'')"
  by (simp add: test_instance_def)

text \<open>The metadata of the fourth case of the test of the scheduler.\<close>

definition test_md :: "string \<Rightarrow> string \<Rightarrow> (string \<rightharpoonup> string)" where
  "test_md mem pause = [CpuUsageKey \<mapsto> ''32'', MemUsageKey \<mapsto> mem, GoGoroutineKey \<mapsto> ''5'',
     GoGcPauseKey \<mapsto> pause, GoGcCountKey \<mapsto> ''10'']"

definition test_meta :: meta_store where
  "test_meta = test_store [test_md ''32.67'' ''100'', test_md ''32.10'' ''1000'']"

lemma test_scores:
  "float_less (worker_score (test_md ''32.67'' ''100'')) (worker_score (test_md ''32.10'' ''1000''))"
  "worker_score (test_md ''32.67'' ''100'') \<noteq> NaN" "worker_score (test_md ''32.10'' ''1000'') \<noteq> NaN"
  by code_simp+

lemma test_scores_missing: "\<not> float_less (worker_score Map.empty) (worker_score Map.empty)"
  by simp

text \<open>
  The four cases of \<open>TestSelectWorkerByResources\<close>: without data the first worker, then the one with
  less load on the machine, then the ones with less load of the process.
\<close>

lemma test_priority:
  assumes "float_less (worker_score m1) (worker_score m0)"
  shows "priorityWorker (test_store [m0, m1]) test_workers = Return (test_instance 1)"
    and "priorityWorker (test_store [m1, m0]) test_workers = Return (test_instance 0)"
  using assms float_less_trans [OF assms, of "worker_score m1"]
  by (auto simp: priorityWorker_def worker_scores_def test_workers_def test_metadata test_store_def
      SliceStable_def numeral_2_eq_2)

lemma TestSelectWorkerByResources_1:
  "priorityWorker (test_store [Map.empty, Map.empty]) test_workers = Return (test_instance 0)"
  by (simp add: priorityWorker_def worker_scores_def test_workers_def test_metadata test_store_def
      SliceStable_def numeral_2_eq_2)

lemma TestSelectWorkerByResources_2:
  "priorityWorker (test_store [[CpuUsageKey \<mapsto> ''32'', MemUsageKey \<mapsto> ''90''],
     [CpuUsageKey \<mapsto> ''16'', MemUsageKey \<mapsto> ''80'']]) test_workers = Return (test_instance 1)"
  by (rule test_priority(1)) code_simp

lemma TestSelectWorkerByResources_3:
  "priorityWorker (test_store [[CpuUsageKey \<mapsto> ''32'', MemUsageKey \<mapsto> ''32.67'', GoGoroutineKey \<mapsto> ''100'',
       GoGcPauseKey \<mapsto> ''100'', GoGcCountKey \<mapsto> ''10''],
     [CpuUsageKey \<mapsto> ''32'', MemUsageKey \<mapsto> ''32.10'', GoGoroutineKey \<mapsto> ''1000'',
       GoGcPauseKey \<mapsto> ''100'', GoGcCountKey \<mapsto> ''10'']]) test_workers = Return (test_instance 0)"
  by (rule test_priority(2)) code_simp

lemma TestSelectWorkerByResources_4:
  "priorityWorker test_meta test_workers = Return (test_instance 0)"
  unfolding test_meta_def by (rule test_priority(2)) (rule test_scores(1))

definition test_task :: Task where
  "test_task = zero_Task\<lparr>task_TaskKey := ''t'', task_Stains := [stainPressureMem \<mapsto> ''high'']\<rparr>"

definition test_scheduler :: "mem_repo Scheduler" where
  "test_scheduler = \<lparr>availableWorkers = test_workers, assignEvent = 1, meta = test_meta,
     repo_state = \<lparr>rows = [test_task\<lparr>task_WorkerID := ''0'', task_Status := TaskStatusPaused,
       task_WantRunStatus := TaskStatusPaused\<rparr>], updates = []\<rparr>\<rparr>"

lemma test_md_stains: "Parsestain (test_md m p) = Map.empty"
  by (simp add: test_md_def Parsestain_simps status_defs)

lemma test_md_finite: "finite (dom (test_md m p))"
  by (simp add: test_md_def)

lemma test_meta_values:
  "metadata test_meta (test_instance 0) = test_md ''32.67'' ''100''"
  "metadata test_meta (test_instance (Suc 0)) = test_md ''32.10'' ''1000''"
  by (simp_all add: test_meta_def test_metadata test_store_def)

lemma test_candidates: "filterWorker test_meta task test_workers = test_workers"
  by (simp add: test_workers_def test_meta_values test_md_stains)

lemma test_IDs:
  "ID test_meta (test_instance 0) = ''1''" "ID test_meta (test_instance (Suc 0)) = ''2''"
  by (simp_all add: ID_alt test_meta_values test_md_def go_get_def InstanceId_test)

theorem filterWorker_spec_witness:
  "filterWorker test_meta test_task test_workers = test_workers"
proof -
  have "finite (dom (task_Stains test_task))" by (simp add: test_task_def)
  moreover have "finite (dom (metadata test_meta w)) \<and> [] \<notin> ran (Parsestain (metadata test_meta w))"
    if "w \<in> set test_workers" for w
    using that test_md_finite by (auto simp: test_workers_def test_meta_values test_md_stains)
  ultimately have "filterWorker test_meta test_task test_workers =
      filter (\<lambda>w. Parsestain (metadata test_meta w) \<subseteq>\<^sub>m task_Stains test_task) test_workers"
    by (rule filterWorker_spec)
  then show ?thesis by (simp add: test_workers_def test_meta_values test_md_stains)
qed

theorem priorityWorker_spec_witness:
  "\<exists>i<2. priorityWorker test_meta test_workers = Return (test_workers ! i) \<and>
     (\<forall>j<i. float_less (worker_score (metadata test_meta (test_workers ! i)))
        (worker_score (metadata test_meta (test_workers ! j))))"
proof -
  have "worker_score (metadata test_meta w) \<noteq> NaN" if "w \<in> set test_workers" for w
    using that test_scores by (auto simp: test_workers_def test_meta_values)
  moreover have "test_workers \<noteq> []" "length test_workers = 2" by (simp_all add: test_workers_def)
  ultimately show ?thesis using priorityWorker_spec [of test_workers test_meta] by auto
qed

theorem assignTask_spec_witness:
  "\<exists>w s'. w \<in> set test_workers \<and>
     assignTask mem_TaskRepo 7 test_task test_scheduler = Return (None, s') \<and>
     map task_WorkerID (updates (repo_state s')) = [worker_id test_scheduler w]"
proof -
  have md: "Metadata w \<noteq> None" if "w \<in> set (availableWorkers test_scheduler)" for w
    using that by (auto simp: test_scheduler_def test_workers_def test_instance_def)
  have "filterWorker (meta test_scheduler) test_task (availableWorkers test_scheduler) = test_workers"
    by (simp add: test_scheduler_def test_candidates)
  moreover have "availableWorkers test_scheduler \<noteq> []" "test_workers \<noteq> []"
    by (simp_all add: test_scheduler_def test_workers_def)
  ultimately obtain w s' where "w \<in> set test_workers"
    "assignTask mem_TaskRepo 7 test_task test_scheduler = Return (fst (UpdateTask mem_TaskRepo
       (zero_Task\<lparr>task_TaskKey := task_TaskKey test_task, task_Status := TaskStatusWaitRunning,
        task_NextRunAt := Some 7, task_WorkerID := worker_id test_scheduler w,
        task_WantRunStatus := TaskStatusRunning\<rparr>) (repo_state test_scheduler)), s')"
    "repo_state s' = snd (UpdateTask mem_TaskRepo (zero_Task\<lparr>task_TaskKey := task_TaskKey test_task,
        task_Status := TaskStatusWaitRunning, task_NextRunAt := Some 7,
        task_WorkerID := worker_id test_scheduler w, task_WantRunStatus := TaskStatusRunning\<rparr>)
        (repo_state test_scheduler))"
    using assignTask_spec [where s = test_scheduler and repo = mem_TaskRepo and now = 7 and task = test_task, OF md]
    by auto
  then show ?thesis
    by (intro exI [of _ w] exI [of _ s']) (simp add: mem_TaskRepo_def test_scheduler_def)
qed

theorem nil_metadata_panics_witness:
  "selectWorkerID zero_Task (test_scheduler\<lparr>availableWorkers :=
     [(test_instance 0)\<lparr>Metadata := None\<rparr>, (test_instance 1)\<lparr>Metadata := None\<rparr>]\<rparr>) = Panic"
proof -
  let ?ws = "[(test_instance 0)\<lparr>Metadata := None\<rparr>, (test_instance 1)\<lparr>Metadata := None\<rparr>]"
  have md: "metadata h (i\<lparr>Metadata := None\<rparr>) = Map.empty" for h i by (simp add: metadata_def)
  have "filterWorker test_meta zero_Task ?ws = ?ws" by (simp add: md Parsestain_simps)
  moreover have "priorityWorker test_meta ?ws = Return ((test_instance 0)\<lparr>Metadata := None\<rparr>)"
    by (simp add: priorityWorker_def worker_scores_def SliceStable_def md numeral_2_eq_2)
  ultimately show ?thesis
    using nil_metadata_panics [of "test_scheduler\<lparr>availableWorkers := ?ws\<rparr>" zero_Task
        "(test_instance 0)\<lparr>Metadata := None\<rparr>" mem_TaskRepo 0]
    by (simp add: test_scheduler_def)
qed

theorem reassignment_overrides_wanted_state_witness:
  "\<exists>s. monitorAssignEvent mem_TaskRepo \<lparr>Leader = Ok undefined, AmILeader = (\<lambda>_. True)\<rparr> 7
      (test_scheduler\<lparr>availableWorkers := [test_instance 0]\<rparr>) = Return s \<and>
    map task_WantRunStatus (rows (repo_state test_scheduler)) = [TaskStatusPaused] \<and>
    map task_WantRunStatus (rows (repo_state s)) = [TaskStatusRunning]"
proof -
  let ?s = "test_scheduler\<lparr>availableWorkers := [test_instance 0]\<rparr>"
  let ?t = "test_task\<lparr>task_WorkerID := ''0'', task_Status := TaskStatusPaused,
       task_WantRunStatus := TaskStatusPaused\<rparr>"
  have "ListRunnableTasks mem_TaskRepo [] (repo_state ?s) = Ok [''t'']"
    "BatchGetTask mem_TaskRepo [''t''] (repo_state ?s) = Ok [?t]"
    by (simp_all add: mem_TaskRepo_def test_scheduler_def test_task_def)
  from reassignment_overrides_wanted_state [OF _ _ this,
      of "\<lparr>Leader = Ok undefined, AmILeader = (\<lambda>_. True)\<rparr>" undefined "test_instance 0" 7]
  show ?thesis
    by (simp add: test_scheduler_def test_IDs test_meta_values test_md_stains mem_TaskRepo_def
        test_task_def merge_task_def zero_Task_def)
qed

theorem hasAvailableWorkersChanged_iff_witness:
  "\<not> hasAvailableWorkersChanged [test_instance 1, test_instance 0] test_scheduler"
  using hasAvailableWorkersChanged_iff [of test_scheduler "[test_instance 1, test_instance 0]"]
  by (simp add: test_scheduler_def test_workers_def test_IDs insert_commute)

theorem watch_error_clears_workers_witness:
  "\<exists>s'. watchWorkers [] (Some (External ''lost'')) test_scheduler = (True, s') \<and> availableWorkers s' = []"
  using watch_error_clears_workers [of test_scheduler "External ''lost''" test_task mem_TaskRepo]
  by (auto simp: test_scheduler_def test_workers_def)

end
