(* ===== verification/Server.thy ===== *)
theory Server
  imports Scheduler
begin

text \<open>
  \<^verbatim>\<open>core/scheduler/server.go\<close>: the HTTP handlers.  The request that the web framework binds, or its
  error, is an argument; the response is the status code with its body.
\<close>

section \<open>Requests and responses\<close>

datatype body = ErrorBody error | ErrorText string | Message | Data "Task list"

type_synonym response = "int \<times> body"

definition StatusOK :: int where "StatusOK = 200"
definition StatusBadRequest :: int where "StatusBadRequest = 400"
definition StatusInternalServerError :: int where "StatusInternalServerError = 500"

lemmas http_codes = StatusOK_def StatusBadRequest_def StatusInternalServerError_def

record create_request =
  c_BizID :: string
  c_BizType :: string
  c_Type :: string
  c_Payload :: string

record list_request =
  l_BizIDs :: string
  l_BizType :: string
  l_Type :: string
  l_Limit :: int
  l_Offset :: int

record operate_request =
  o_BizID :: string
  o_TaskKey :: string
  o_Status :: string

section \<open>Handlers\<close>

definition server_CreateTask ::
    "'r TaskRepo \<Rightarrow> string \<Rightarrow> time \<Rightarrow> create_request result \<Rightarrow> 'r \<Rightarrow> response \<times> 'r" where
  "server_CreateTask repo uuid now bind r =
     (case bind of
        Inl err \<Rightarrow> ((StatusBadRequest, ErrorBody err), r)
      | Inr req \<Rightarrow>
          if c_Type req = [] \<or> c_Payload req = []
          then ((StatusInternalServerError, ErrorText ''invalid params''), r)
          else (case Scheduler_CreateTask repo uuid (zero_Task\<lparr>task_BizID := c_BizID req,
                       task_BizType := c_BizType req, task_Type := c_Type req,
                       task_Payload := c_Payload req, task_NextRunAt := Some now\<rparr>) r of
                  (Some err, r1) \<Rightarrow> ((StatusInternalServerError, ErrorBody err), r1)
                | (None, r1) \<Rightarrow> ((StatusOK, Message), r1)))"

text \<open>\<open>strings.Split\<close> with a separator of one character.\<close>

fun Split :: "char \<Rightarrow> string \<Rightarrow> string list" where
  "Split sep [] = [[]]"
| "Split sep (c # cs) =
     (if c = sep then [] # Split sep cs
      else (case Split sep cs of [] \<Rightarrow> [[c]] | p # ps \<Rightarrow> (c # p) # ps))"

definition list_filter :: "list_request \<Rightarrow> TaskFilter" where
  "list_filter req =
     (let limit = (if l_Limit req = 0 then 20 else l_Limit req)
      in \<lparr>filter_BizIDs = Split (CHR '','') (l_BizIDs req), filter_BizType = l_BizType req,
          filter_Type = l_Type req, filter_Offset = l_Offset req, filter_Limit = limit\<rparr>)"

definition server_ListTask :: "'r TaskRepo \<Rightarrow> list_request result \<Rightarrow> 'r \<Rightarrow> response" where
  "server_ListTask repo bind r =
     (case bind of
        Inl err \<Rightarrow> (StatusBadRequest, ErrorBody err)
      | Inr req \<Rightarrow>
          (case Scheduler_ListTask repo (list_filter req) r of
             Inl err \<Rightarrow> (StatusInternalServerError, ErrorBody err)
           | Inr tasks \<Rightarrow> (StatusOK, Data tasks)))"

definition server_OperateTask ::
    "'r TaskRepo \<Rightarrow> operate_request result \<Rightarrow> 'r \<Rightarrow> response \<times> 'r" where
  "server_OperateTask repo bind r =
     (case bind of
        Inl err \<Rightarrow> ((StatusBadRequest, ErrorBody err), r)
      | Inr req \<Rightarrow>
          let ts = o_Status req
          in if ts \<notin> set [TaskStatusPaused, TaskStatusRunning, TaskStatusStop]
             then ((StatusBadRequest, ErrorText ''invalid status''), r)
             else (case OperateTask repo (o_BizID req) (o_TaskKey req) ts r of
                     (Some err, r1) \<Rightarrow> ((StatusInternalServerError, ErrorBody err), r1)
                   | (None, r1) \<Rightarrow> ((StatusOK, Message), r1)))"

section \<open>Facts about splitting\<close>

fun join :: "char \<Rightarrow> string list \<Rightarrow> string" where
  "join sep [] = []"
| "join sep [p] = p"
| "join sep (p # q # ps) = p @ sep # join sep (q # ps)"

lemma Split_not_Nil [simp]: "Split sep cs \<noteq> []"
  by (cases cs) (auto split: list.splits)

lemma join_Cons: "ps \<noteq> [] \<Longrightarrow> join sep (p # ps) = p @ sep # join sep ps"
  by (cases ps) auto

lemma join_Split: "join sep (Split sep cs) = cs"
proof (induction cs)
  case (Cons c cs)
  obtain p ps where ps: "Split sep cs = p # ps" using Split_not_Nil by (meson neq_Nil_conv)
  show ?case
  proof (cases "c = sep")
    case True
    then show ?thesis using Cons by (simp add: join_Cons)
  next
    case False
    with Cons ps show ?thesis by (cases ps) auto
  qed
qed simp

lemma Split_parts: "p \<in> set (Split sep cs) \<Longrightarrow> sep \<notin> set p"
proof (induction cs arbitrary: p)
  case (Cons c cs)
  obtain q qs where "Split sep cs = q # qs" using Split_not_Nil by (meson neq_Nil_conv)
  with Cons show ?case by (auto split: if_splits)
qed simp

section \<open>Properties\<close>

text \<open>
  The filter of \<open>ListTask\<close> keeps the request: the business ids joined with commas are the
  requested string and none contains a comma, a missing limit is twenty and every other value is
  passed on.  A request without business ids gives the list of one empty id and not an empty list.
\<close>

theorem list_filter_roundtrip:
  "join (CHR '','') (filter_BizIDs (list_filter req)) = l_BizIDs req \<and>
   (\<forall>p. p \<in> set (filter_BizIDs (list_filter req)) \<longrightarrow> CHR '','' \<notin> set p) \<and>
   filter_BizType (list_filter req) = l_BizType req \<and> filter_Type (list_filter req) = l_Type req \<and>
   filter_Offset (list_filter req) = l_Offset req \<and>
   filter_Limit (list_filter req) = (if l_Limit req = 0 then 20 else l_Limit req) \<and>
   (l_BizIDs req = [] \<longrightarrow> filter_BizIDs (list_filter req) = [[]])"
  using join_Split [of "CHR '',''" "l_BizIDs req"] Split_parts [of _ "CHR '',''" "l_BizIDs req"]
  by (auto simp: list_filter_def Let_def)

theorem list_filter_roundtrip_witness:
  "filter_BizIDs (list_filter \<lparr>l_BizIDs = [], l_BizType = [], l_Type = [], l_Limit = 0, l_Offset = 0\<rparr>)
     = [[]] \<and>
   join (CHR '','') (filter_BizIDs (list_filter \<lparr>l_BizIDs = ''a,b'', l_BizType = [], l_Type = [],
     l_Limit = 0, l_Offset = 0\<rparr>)) = ''a,b''"
  using list_filter_roundtrip
    [of "\<lparr>l_BizIDs = [], l_BizType = [], l_Type = [], l_Limit = 0, l_Offset = 0\<rparr>"]
    list_filter_roundtrip
    [of "\<lparr>l_BizIDs = ''a,b'', l_BizType = [], l_Type = [], l_Limit = 0, l_Offset = 0\<rparr>"]
  by simp

text \<open>
  The handlers write only what they report.  A request to create or to operate that is answered
  with "bad request", or rejected for its parameters, leaves the repository alone; a creation that is
  answered with success has made one row, with the given key, waiting to be scheduled, without a
  worker and without a wanted state; an operation is answered with success exactly if it asks for
  paused, running or stop and the scheduler carries it out.
\<close>

theorem handlers_spec:
  "(case bind of
      Inl err \<Rightarrow> server_CreateTask repo uuid now bind r = ((400, ErrorBody err), r)
    | Inr req \<Rightarrow>
        if c_Type req = [] \<or> c_Payload req = []
        then server_CreateTask repo uuid now bind r = ((500, ErrorText ''invalid params''), r)
        else \<exists>t. task_TaskKey t = uuid \<and> task_Status t = TaskStatusWaitScheduling \<and>
          task_WorkerID t = [] \<and> task_WantRunStatus t = [] \<and> task_Type t = c_Type req \<and>
          task_Payload t = c_Payload req \<and> task_BizID t = c_BizID req \<and> task_BizType t = c_BizType req \<and>
          server_CreateTask repo uuid now bind r =
            ((case fst (CreateTask repo t r) of None \<Rightarrow> (200, Message) | Some err \<Rightarrow> (500, ErrorBody err)),
             snd (CreateTask repo t r))) \<and>
   (case obind of
      Inl err \<Rightarrow> server_OperateTask repo obind r = ((400, ErrorBody err), r)
    | Inr req \<Rightarrow>
        if o_Status req \<in> {TaskStatusPaused, TaskStatusRunning, TaskStatusStop}
        then server_OperateTask repo obind r =
          ((case fst (OperateTask repo (o_BizID req) (o_TaskKey req) (o_Status req) r) of
              None \<Rightarrow> (200, Message) | Some err \<Rightarrow> (500, ErrorBody err)),
           snd (OperateTask repo (o_BizID req) (o_TaskKey req) (o_Status req) r))
        else server_OperateTask repo obind r = ((400, ErrorText ''invalid status''), r))"
proof (intro conjI)
  show "case obind of
      Inl err \<Rightarrow> server_OperateTask repo obind r = ((400, ErrorBody err), r)
    | Inr req \<Rightarrow>
        if o_Status req \<in> {TaskStatusPaused, TaskStatusRunning, TaskStatusStop}
        then server_OperateTask repo obind r =
          ((case fst (OperateTask repo (o_BizID req) (o_TaskKey req) (o_Status req) r) of
              None \<Rightarrow> (200, Message) | Some err \<Rightarrow> (500, ErrorBody err)),
           snd (OperateTask repo (o_BizID req) (o_TaskKey req) (o_Status req) r))
        else server_OperateTask repo obind r = ((400, ErrorText ''invalid status''), r)"
    by (auto simp: server_OperateTask_def http_codes Let_def split: sum.splits prod.splits
        option.splits)
next
  show "case bind of
      Inl err \<Rightarrow> server_CreateTask repo uuid now bind r = ((400, ErrorBody err), r)
    | Inr req \<Rightarrow>
        if c_Type req = [] \<or> c_Payload req = []
        then server_CreateTask repo uuid now bind r = ((500, ErrorText ''invalid params''), r)
        else \<exists>t. task_TaskKey t = uuid \<and> task_Status t = TaskStatusWaitScheduling \<and>
          task_WorkerID t = [] \<and> task_WantRunStatus t = [] \<and> task_Type t = c_Type req \<and>
          task_Payload t = c_Payload req \<and> task_BizID t = c_BizID req \<and> task_BizType t = c_BizType req \<and>
          server_CreateTask repo uuid now bind r =
            ((case fst (CreateTask repo t r) of None \<Rightarrow> (200, Message) | Some err \<Rightarrow> (500, ErrorBody err)),
             snd (CreateTask repo t r))"
  proof (cases bind)
    case (Inr req)
    let ?t = "(zero_Task\<lparr>task_BizID := c_BizID req, task_BizType := c_BizType req, task_Type := c_Type req,
        task_Payload := c_Payload req, task_NextRunAt := Some now\<rparr>)
        \<lparr>task_TaskKey := uuid, task_Status := TaskStatusWaitScheduling\<rparr>"
    show ?thesis
    proof (cases "c_Type req = [] \<or> c_Payload req = []")
      case False
      then have "server_CreateTask repo uuid now bind r =
          ((case fst (CreateTask repo ?t r) of None \<Rightarrow> (200, Message) | Some err \<Rightarrow> (500, ErrorBody err)),
           snd (CreateTask repo ?t r))"
        by (auto simp: server_CreateTask_def Inr Scheduler_CreateTask_def createTask_def http_codes
            split: prod.splits option.splits)
      with False Inr show ?thesis by (auto intro!: exI [of _ ?t] simp: zero_Task_def)
    qed (auto simp: Inr server_CreateTask_def http_codes)
  qed (simp add: server_CreateTask_def http_codes)
qed

end
