(* ===== verification/TaskSystem.thy ===== *)
theory TaskSystem
  imports WorkerSystem Server
begin

text \<open>
  The whole system around one task repository: the scheduler with its HTTP server
  (\<^verbatim>\<open>core/scheduler\<close>) and any number of workers (\<^verbatim>\<open>core/worker\<close>).  A step is a request, a round of
  the leader, a call of the watch on the workers or a step of a worker.
\<close>

section \<open>Steps\<close>

text \<open>The repository is the one in the state of the scheduler; a step of a worker acts on it.\<close>

record ('r, 's) task_system =
  sched :: "'r Scheduler"
  members :: "string \<Rightarrow> ('r, 's) worker_system"

datatype system_op =
    HandleCreate string time "create_request result"
  | HandleOperate "operate_request result"
  | LeaderRound Elector time
  | WorkersChanged "Instance list" "error option"
  | WorkerStep string worker_op

text \<open>\<open>None\<close> when the scheduler panics.\<close>

fun system_step ::
    "'r TaskRepo \<Rightarrow> 's registry \<Rightarrow> system_op \<Rightarrow> ('r, 's) task_system \<Rightarrow> ('r, 's) task_system option" where
  "system_step repo executors (HandleCreate uuid now bind) sys =
     Some (sys\<lparr>sched := (sched sys)\<lparr>repo_state :=
       snd (server_CreateTask repo uuid now bind (repo_state (sched sys)))\<rparr>\<rparr>)"
| "system_step repo executors (HandleOperate bind) sys =
     Some (sys\<lparr>sched := (sched sys)\<lparr>repo_state :=
       snd (server_OperateTask repo bind (repo_state (sched sys)))\<rparr>\<rparr>)"
| "system_step repo executors (LeaderRound elector now) sys =
     (case monitorAssignEvent repo elector now (sched sys) of
        Panic \<Rightarrow> None | Return s \<Rightarrow> Some (sys\<lparr>sched := s\<rparr>))"
| "system_step repo executors (WorkersChanged services err) sys =
     Some (sys\<lparr>sched := snd (watchWorkers services err (sched sys))\<rparr>)"
| "system_step repo executors (WorkerStep w a) sys =
     (let ws = snd (worker_step repo executors a ((members sys w)\<lparr>ws_repo := repo_state (sched sys)\<rparr>))
      in Some (sys\<lparr>members := (members sys)(w := ws), sched := (sched sys)\<lparr>repo_state := ws_repo ws\<rparr>\<rparr>))"

fun system_run ::
    "'r TaskRepo \<Rightarrow> 's registry \<Rightarrow> system_op list \<Rightarrow> ('r, 's) task_system \<Rightarrow> ('r, 's) task_system option" where
  "system_run repo executors [] sys = Some sys"
| "system_run repo executors (a # ops) sys =
     (case system_step repo executors a sys of
        None \<Rightarrow> None | Some sys1 \<Rightarrow> system_run repo executors ops sys1)"

text \<open>The steps of one worker in the system are its run on the common repository.\<close>

lemma system_run_worker:
  "ops \<noteq> [] \<Longrightarrow> system_run repo executors (map (WorkerStep v) ops) sys =
     (let ws = snd (worker_run repo executors ops ((members sys v)\<lparr>ws_repo := repo_state (sched sys)\<rparr>))
      in Some (sys\<lparr>members := (members sys)(v := ws), sched := (sched sys)\<lparr>repo_state := ws_repo ws\<rparr>\<rparr>))"
proof (induction ops arbitrary: sys rule: list_nonempty_induct)
  case (single a)
  then show ?case by (simp add: Let_def split_beta fun_upd_def)
next
  case (cons a ops)
  let ?w1 = "snd (worker_step repo executors a ((members sys v)\<lparr>ws_repo := repo_state (sched sys)\<rparr>))"
  let ?sys1 = "sys\<lparr>members := (members sys)(v := ?w1), sched := (sched sys)\<lparr>repo_state := ws_repo ?w1\<rparr>\<rparr>"
  have step: "system_step repo executors (WorkerStep v a) sys = Some ?sys1" by (simp add: Let_def fun_upd_def)
  have same: "(members ?sys1 v)\<lparr>ws_repo := repo_state (sched ?sys1)\<rparr> = ?w1" by simp
  from cons.IH [of ?sys1] step show ?case
    unfolding same by (simp add: Let_def split_beta fun_upd_def cong: if_cong del: system_step.simps worker_step.simps)
qed

section \<open>Well-typed tasks\<close>

text \<open>What may be written: a declared state, and as wanted state one that a user can order, or none.\<close>

definition well_typed :: "Task \<Rightarrow> bool" where
  "well_typed t \<longleftrightarrow> is_known_status (task_Status t) \<and>
     (task_WantRunStatus t = [] \<or>
      task_WantRunStatus t \<in> {TaskStatusRunning, TaskStatusPaused, TaskStatusStop})"

text \<open>A property of the repository that every well-typed write keeps.\<close>

definition kept_by_writes :: "'r TaskRepo \<Rightarrow> ('r \<Rightarrow> bool) \<Rightarrow> bool" where
  "kept_by_writes repo Inv \<longleftrightarrow> (\<forall>t r. well_typed t \<longrightarrow> Inv r \<longrightarrow>
     Inv (snd (UpdateTask repo t r)) \<and> Inv (snd (CreateTask repo t r)))"

lemma kept_update: "kept_by_writes repo Inv \<Longrightarrow> well_typed t \<Longrightarrow> Inv r \<Longrightarrow> UpdateTask repo t r = (e, r') \<Longrightarrow> Inv r'"
  unfolding kept_by_writes_def by (metis snd_conv)

lemma kept_create: "kept_by_writes repo Inv \<Longrightarrow> well_typed t \<Longrightarrow> Inv r \<Longrightarrow> CreateTask repo t r = (e, r') \<Longrightarrow> Inv r'"
  unfolding kept_by_writes_def by (metis snd_conv)

lemma kept_attempts:
  "kept_by_writes repo Inv \<Longrightarrow> well_typed t \<Longrightarrow> Inv r \<Longrightarrow> Inv (snd (attempts n (UpdateTask repo t) r))"
proof (induction n arbitrary: r)
  case (Suc n)
  obtain e r1 where u: "UpdateTask repo t r = (e, r1)" by fastforce
  then have "Inv r1" using Suc.prems by (blast intro: kept_update)
  with Suc.IH [OF Suc.prems(1,2)] u show ?case by simp
qed simp

lemma kept_CreateTask:
  assumes "kept_by_writes repo Inv" and "Inv r"
  shows "Inv (snd (server_CreateTask repo uuid now bind r))"
proof -
  have "well_typed (zero_Task\<lparr>task_BizID := a, task_BizType := b, task_Type := c, task_Payload := d,
      task_NextRunAt := Some now, task_TaskKey := uuid, task_Status := TaskStatusWaitScheduling\<rparr>)" for a b c d
    by (simp add: well_typed_def is_known_status_def zero_Task_def)
  from kept_create [OF assms(1) this assms(2)] show ?thesis
    using assms(2)
    by (auto simp: server_CreateTask_def Scheduler_CreateTask_def createTask_def
        split: sum.splits prod.splits option.splits)
qed

lemma kept_OperateTask:
  assumes "kept_by_writes repo Inv" and "Inv r" and "st \<in> {TaskStatusPaused, TaskStatusRunning, TaskStatusStop}"
  shows "Inv (snd (OperateTask repo bizID taskKey st r))"
proof -
  have "well_typed (zero_Task\<lparr>task_TaskKey := k, task_Status := PreWaitStatus st, task_WantRunStatus := st\<rparr>)" for k
    using assms(3) by (auto simp: well_typed_def is_known_status_def)
  with assms(1,2) show ?thesis
    by (auto simp: OperateTask_def kept_by_writes_def Let_def split: sum.splits option.splits)
qed

lemma kept_handler:
  assumes "kept_by_writes repo Inv" and "Inv r"
  shows "Inv (snd (server_OperateTask repo bind r))"
  using assms(2) kept_OperateTask [OF assms]
  by (auto simp: server_OperateTask_def Let_def split: sum.splits prod.splits option.splits)
    (metis insertCI snd_conv)+

lemma kept_assignTask:
  assumes "kept_by_writes repo Inv" and "Inv (repo_state s)" and "assignTask repo now task s = Return (e, s')"
  shows "Inv (repo_state s')"
proof -
  have sel: "repo_state s1 = repo_state s" if "selectWorkerID task s = Return (x, s1)" for x s1
    using that by (auto simp: selectWorkerID_def updateLocalResourceEstimate_def write_estimates_def updateWorkerInCache_def
        setAvailableWorkers_def Let_def split: run.splits if_splits)
  have "well_typed (zero_Task\<lparr>task_TaskKey := k, task_Status := PreWaitStatus TaskStatusRunning,
      task_NextRunAt := Some now, task_WorkerID := i, task_WantRunStatus := TaskStatusRunning\<rparr>)" for k i
    by (simp add: well_typed_def is_known_status_def)
  with assms(1,3) show ?thesis
    using assms(2) sel
    by (auto simp: assignTask_def kept_by_writes_def Let_def split: run.splits sum.splits prod.splits)
      (metis snd_conv)+
qed

lemma kept_assign_all:
  "kept_by_writes repo Inv \<Longrightarrow> Inv (repo_state s) \<Longrightarrow> assign_all repo now tasks s = Return s' \<Longrightarrow> Inv (repo_state s')"
  by (induction repo now tasks s rule: assign_all.induct) (auto split: run.splits dest: kept_assignTask)

lemma kept_leader:
  "kept_by_writes repo Inv \<Longrightarrow> Inv (repo_state s) \<Longrightarrow> monitorAssignEvent repo elector now s = Return s' \<Longrightarrow>
     Inv (repo_state s')"
  using kept_assign_all [of repo Inv "s\<lparr>assignEvent := assignEvent s - 1\<rparr>" now _ s']
  by (auto simp: monitorAssignEvent_def Let_def split: sum.splits if_splits)

lemma kept_exceptions:
  assumes "kept_by_writes repo Inv"
  shows "Inv r \<Longrightarrow> Inv (foldl (\<lambda>r c. snd (UpdateTask repo (exception_update c) r)) r cs)"
proof (induction cs arbitrary: r)
  case (Cons c cs)
  have "well_typed (exception_update c)"
    by (simp add: well_typed_def exception_update_def is_known_status_def zero_Task_def)
  then have "Inv (snd (UpdateTask repo (exception_update c) r))"
    using assms Cons.prems by (simp add: kept_by_writes_def)
  with Cons.IH show ?case by simp
qed simp

lemma kept_trigger:
  assumes "kept_by_writes repo Inv" and "Inv r"
  shows "Inv (fst (enqueueIfTaskChange repo q ks1 c1 ks2 c2 info r q'))"
proof (cases "loadTaskPairsThreadSafe repo r q ks1 c1 ks2 c2 info")
  case (Inl e)
  with assms(2) show ?thesis by (simp add: enqueueIfTaskChange_def)
next
  case (Inr pairs)
  from enqueueIfTaskChange_alt [OF this] kept_exceptions [OF assms] show ?thesis by simp
qed

lemma kept_report:
  assumes "kept_by_writes repo Inv" and "Inv r" and "is_known_status (res_Status t)"
  shows "Inv (fst (monitor_message repo rnd now (Some t) (r, c, q)))"
proof -
  have "well_typed (zero_Task\<lparr>task_TaskKey := res_TaskKey t, task_Status := res_Status t\<rparr>)"
    using assms(3) by (simp add: well_typed_def zero_Task_def)
  from kept_attempts [OF assms(1) this assms(2)] show ?thesis by (simp add: monitor_message_eq)
qed

lemma kept_worker_step:
  assumes "kept_by_writes repo Inv" and "Inv (ws_repo ws)"
    and "\<And>rnd now t. a = WReport rnd now t \<Longrightarrow> is_known_status (res_Status t)"
  shows "Inv (ws_repo (snd (worker_step repo executors a ws)))"
  using assms(2,3) kept_trigger [OF assms(1)] kept_report [OF assms(1)]
  by (cases a) (auto simp: Let_def split_beta)

lemma kept_system_step:
  assumes "kept_by_writes repo Inv" and "Inv (repo_state (sched sys))"
    and "system_step repo executors a sys = Some sys'"
    and "\<And>w rnd now t. a = WorkerStep w (WReport rnd now t) \<Longrightarrow> is_known_status (res_Status t)"
  shows "Inv (repo_state (sched sys'))"
proof (cases a)
  case (WorkerStep w b)
  let ?ws = "(members sys w)\<lparr>ws_repo := repo_state (sched sys)\<rparr>"
  have "Inv (ws_repo (snd (worker_step repo executors b ?ws)))"
    by (rule kept_worker_step [OF assms(1)]) (use assms(2,4) WorkerStep in auto)
  with assms(3) WorkerStep show ?thesis by (auto simp: Let_def)
qed (use assms(2,3) kept_CreateTask [OF assms(1,2)] kept_handler [OF assms(1,2)] kept_leader [OF assms(1,2)]
    in \<open>auto simp: watchWorkers_def setAvailableWorkers_def Let_def split: run.splits\<close>)

section \<open>Properties\<close>

text \<open>
  C6: everything the system writes is well-typed.  Whatever requests, leader rounds, changes of the
  workers and steps of the workers interleave, every state that is written to the repository is a
  declared one and every wanted state is running, paused or stopped, if the executors report declared
  states: a property of the repository that such writes keep holds after every run in which it held
  before.
\<close>

theorem writes_are_well_typed:
  assumes "kept_by_writes repo Inv" and "Inv (repo_state (sched sys))"
    and "\<And>w rnd now t. WorkerStep w (WReport rnd now t) \<in> set ops \<Longrightarrow> is_known_status (res_Status t)"
    and "system_run repo executors ops sys = Some sys'"
  shows "Inv (repo_state (sched sys'))"
  using assms(2-)
proof (induction ops arbitrary: sys)
  case (Cons a ops)
  from Cons.prems(3) obtain sys1 where s1: "system_step repo executors a sys = Some sys1"
    "system_run repo executors ops sys1 = Some sys'" by (auto split: option.splits)
  have "Inv (repo_state (sched sys1))"
    by (rule kept_system_step [OF assms(1) Cons.prems(1) s1(1)]) (use Cons.prems(2) in auto)
  from Cons.IH [OF this _ s1(2)] Cons.prems(2) show ?case by auto
qed simp

section \<open>Witnesses\<close>

lemma mem_repo_kept: "kept_by_writes mem_TaskRepo (\<lambda>r. \<forall>t\<in>set (rows r). well_typed t)"
  by (auto simp: kept_by_writes_def mem_TaskRepo_def merge_task_def well_typed_def Let_def)

definition demo_system :: "(mem_repo, TaskExecResult list) task_system" where
  "demo_system = \<lparr>sched = \<lparr>availableWorkers = [], assignEvent = 1, meta = (\<lambda>_. Map.empty),
       repo_state = demo_repo\<rparr>,
     members = (\<lambda>_. \<lparr>ws_repo = demo_repo, ws_cache = demo_running ''a'', ws_queue = demo_changes,
       ws_exec = []\<rparr>)\<rparr>"

theorem writes_are_well_typed_witness:
  "\<exists>sys'. system_run mem_TaskRepo Map.empty
      [HandleCreate ''u'' 0 (Ok \<lparr>c_BizID = ''z'', c_BizType = [], c_Type = ''goroutine'', c_Payload = ''p''\<rparr>),
       WorkersChanged [] None,
       LeaderRound \<lparr>Leader = Err (External ''no leader''), AmILeader = (\<lambda>_. True)\<rparr> 0,
       HandleOperate (Ok \<lparr>o_BizID = [], o_TaskKey = ''a'', o_Status = ''paused''\<rparr>),
       WorkerStep ''w'' (WReport (\<lambda>_. Fin 0 0) 5 (demo_result ''a'' TaskStatusPaused))] demo_system = Some sys' \<and>
    (\<forall>t\<in>set (rows (repo_state (sched sys'))). well_typed t)"
proof -
  let ?ops = "[HandleCreate ''u'' 0 (Ok \<lparr>c_BizID = ''z'', c_BizType = [], c_Type = ''goroutine'', c_Payload = ''p''\<rparr>),
       WorkersChanged [] None,
       LeaderRound \<lparr>Leader = Err (External ''no leader''), AmILeader = (\<lambda>_. True)\<rparr> 0,
       HandleOperate (Ok \<lparr>o_BizID = [], o_TaskKey = ''a'', o_Status = ''paused''\<rparr>),
       WorkerStep ''w'' (WReport (\<lambda>_. Fin 0 0) 5 (demo_result ''a'' TaskStatusPaused))]"
  obtain sys' where run: "system_run mem_TaskRepo Map.empty ?ops demo_system = Some sys'"
    by (simp add: monitorAssignEvent_def amILeader_def Let_def del: worker_step.simps)
  have "\<forall>t\<in>set (rows (repo_state (sched demo_system))). well_typed t"
    by (simp add: demo_system_def demo_repo_def well_typed_def is_known_status_def)
  moreover have "is_known_status (res_Status t)"
    if "WorkerStep w (WReport rnd now t) \<in> set ?ops" for w rnd now t
    using that by (simp add: is_known_status_def)
  ultimately show ?thesis
    using writes_are_well_typed [OF mem_repo_kept _ _ run] run by blast
qed

end
