(* ===== verification/SchedulerThreads.thy ===== *)
theory SchedulerThreads
  imports Scheduler
begin

text \<open>
  The goroutines of \<^verbatim>\<open>core/scheduler/scheduler.go\<close>: the loop of \<open>monitorAssignEvent\<close>, the loop of
  \<open>autoTriggerReAssignEvent\<close> and the callback of \<open>watchWorkers\<close>.  They share the list of available
  workers and the channel \<open>assignEvent\<close> with its buffer of one, and anything may happen to the
  repository between their steps.
\<close>

section \<open>Goroutines and their steps\<close>

text \<open>
  Where the loop of \<open>monitorAssignEvent\<close> is: at the receive, before it asks for the leader, in the
  loop over the tasks, or in a panic, which ends the process.
\<close>

datatype leader_pc = AtReceive | Deciding | Assigning "Task list" | Panicked

text \<open>\<open>watch_sends\<close> and \<open>auto_sends\<close> tell that the goroutine is at its send on \<open>assignEvent\<close>.\<close>

record 'r sched_sys =
  sc :: "'r Scheduler"
  leader_at :: leader_pc
  watch_sends :: bool
  auto_sends :: bool

text \<open>One step of the loop of \<open>autoTriggerReAssignEvent\<close>: the send, or the end of the sleep.\<close>

definition autoTriggerReAssignEvent :: "bool \<Rightarrow> 'r Scheduler \<Rightarrow> (bool \<times> 'r Scheduler) option" where
  "autoTriggerReAssignEvent sending s =
     (if sending then map_option (\<lambda>s1. (False, s1)) (triggerReAssignEvent s) else Some (True, s))"

definition after_task :: "Task list \<Rightarrow> leader_pc" where
  "after_task tasks = (if tasks = [] then AtReceive else Assigning tasks)"

text \<open>One step of the loop of \<open>monitorAssignEvent\<close>; the election and the clock are asked here.\<close>

fun leader_step :: "'r TaskRepo \<Rightarrow> Elector \<Rightarrow> time \<Rightarrow> leader_pc \<Rightarrow> 'r Scheduler \<Rightarrow>
    (leader_pc \<times> 'r Scheduler) option" where
  "leader_step repo elector now AtReceive s =
     (if assignEvent s = 0 then None else Some (Deciding, s\<lparr>assignEvent := assignEvent s - 1\<rparr>))"
| "leader_step repo elector now Deciding s =
     (case amILeader elector of
        Inl err \<Rightarrow> Some (AtReceive, s)
      | Inr leader \<Rightarrow>
          if \<not> leader then Some (AtReceive, s)
          else (case loadNeedAssignTasks repo s of
                  Inl err \<Rightarrow> Some (AtReceive, s) | Inr tasks \<Rightarrow> Some (after_task tasks, s)))"
| "leader_step repo elector now (Assigning tasks) s =
     (case tasks of
        [] \<Rightarrow> Some (AtReceive, s)
      | task # rest \<Rightarrow>
          (case assignTask repo now task s of
             Panic \<Rightarrow> Some (Panicked, s) | Return (err, s1) \<Rightarrow> Some (after_task rest, s1)))"
| "leader_step repo elector now Panicked s = None"

text \<open>
  \<open>SWorld\<close> is a change of the repository by the server, a worker or another scheduler.  The events
  are the changes of the workers that ask for a new assignment and the rounds that begin.
\<close>

datatype 'r sched_op =
    SWatch "Instance list" "error option"
  | SWatchSend
  | SAuto
  | SLeader Elector time
  | SWorld 'r

datatype sched_event = Changed | RoundBegan

fun sched_move :: "'r TaskRepo \<Rightarrow> 'r sched_op \<Rightarrow> 'r sched_sys \<Rightarrow>
    (sched_event list \<times> 'r sched_sys) option" where
  "sched_move repo (SWatch services err) s =
     (if watch_sends s then None
      else let (changed, x) = watchWorkers services err (sc s)
        in Some (if changed then [Changed] else [], s\<lparr>sc := x, watch_sends := changed\<rparr>))"
| "sched_move repo SWatchSend s =
     (if watch_sends s
      then map_option (\<lambda>x. ([], s\<lparr>sc := x, watch_sends := False\<rparr>)) (triggerReAssignEvent (sc s))
      else None)"
| "sched_move repo SAuto s =
     map_option (\<lambda>(b, x). ([], s\<lparr>sc := x, auto_sends := b\<rparr>))
       (autoTriggerReAssignEvent (auto_sends s) (sc s))"
| "sched_move repo (SLeader elector now) s =
     map_option (\<lambda>(pc, x). (if leader_at s = Deciding then [RoundBegan] else [], s\<lparr>sc := x, leader_at := pc\<rparr>))
       (leader_step repo elector now (leader_at s) (sc s))"
| "sched_move repo (SWorld r) s = Some ([], s\<lparr>sc := (sc s)\<lparr>repo_state := r\<rparr>\<rparr>)"

text \<open>After a panic nothing runs any more.\<close>

definition sched_step :: "'r TaskRepo \<Rightarrow> 'r sched_op \<Rightarrow> 'r sched_sys \<Rightarrow>
    (sched_event list \<times> 'r sched_sys) option" where
  "sched_step repo a s = (if leader_at s = Panicked then None else sched_move repo a s)"

fun sched_run :: "'r TaskRepo \<Rightarrow> 'r sched_op list \<Rightarrow> 'r sched_sys \<Rightarrow>
    (sched_event list \<times> 'r sched_sys) option" where
  "sched_run repo [] s = Some ([], s)"
| "sched_run repo (a # ops) s =
     (case sched_step repo a s of
        None \<Rightarrow> None
      | Some (es, s1) \<Rightarrow>
          (case sched_run repo ops s1 of None \<Rightarrow> None | Some (fs, s2) \<Rightarrow> Some (es @ fs, s2)))"

text \<open>The goroutines that \<open>Run\<close> has started, after it has stored the workers and made the channel.\<close>

definition sched_begin :: "'r Scheduler \<Rightarrow> 'r sched_sys" where
  "sched_begin x = \<lparr>sc = x, leader_at = AtReceive, watch_sends = False, auto_sends = True\<rparr>"

section \<open>A round in steps\<close>

lemma assign_steps:
  assumes "leader_at s = after_task tasks"
  shows "\<exists>n\<le>length tasks. case assign_all repo now tasks (sc s) of
      Return x \<Rightarrow> sched_run repo (replicate n (SLeader elector now)) s = Some ([], s\<lparr>sc := x, leader_at := AtReceive\<rparr>)
    | Panic \<Rightarrow> \<exists>x. sched_run repo (replicate n (SLeader elector now)) s = Some ([], s\<lparr>sc := x, leader_at := Panicked\<rparr>)"
  using assms
proof (induction tasks arbitrary: s)
  case Nil
  then have "s\<lparr>sc := sc s, leader_at := AtReceive\<rparr> = s" by (simp add: after_task_def)
  then show ?case by (intro exI [of _ 0]) simp
next
  case (Cons t ts)
  then have pc: "leader_at s = Assigning (t # ts)" by (simp add: after_task_def)
  show ?case
  proof (cases "assignTask repo now t (sc s)")
    case Panic
    then show ?thesis
      by (intro exI [of _ "Suc 0"]) (auto simp: sched_step_def pc intro: exI [of _ "sc s"])
  next
    case (Return ex)
    obtain e x where ex: "ex = (e, x)" by (cases ex)
    let ?s1 = "s\<lparr>sc := x, leader_at := after_task ts\<rparr>"
    have step: "sched_step repo (SLeader elector now) s = Some ([], ?s1)"
      by (simp add: sched_step_def pc Return ex)
    obtain n where n: "n \<le> length ts" "case assign_all repo now ts x of
        Return y \<Rightarrow> sched_run repo (replicate n (SLeader elector now)) ?s1 = Some ([], ?s1\<lparr>sc := y, leader_at := AtReceive\<rparr>)
      | Panic \<Rightarrow> \<exists>y. sched_run repo (replicate n (SLeader elector now)) ?s1 = Some ([], ?s1\<lparr>sc := y, leader_at := Panicked\<rparr>)"
      using Cons.IH [of ?s1] by auto
    show ?thesis
      by (intro exI [of _ "Suc n"]) (use n in \<open>auto simp: step Return ex split: run.splits\<close>)
  qed
qed

lemma assign_steps_from:
  "\<exists>n. case assign_all repo now tasks x of
      Return y \<Rightarrow> sched_run repo (replicate n (SLeader elector now)) (s\<lparr>sc := x, leader_at := after_task tasks\<rparr>) =
        Some ([], s\<lparr>sc := y, leader_at := AtReceive\<rparr>)
    | Panic \<Rightarrow> \<exists>y. sched_run repo (replicate n (SLeader elector now)) (s\<lparr>sc := x, leader_at := after_task tasks\<rparr>) =
        Some ([], s\<lparr>sc := y, leader_at := Panicked\<rparr>)"
  using assign_steps [where s = "s\<lparr>sc := x, leader_at := after_task tasks\<rparr>" and tasks = tasks and repo = repo
      and now = now and elector = elector]
  by (cases "assign_all repo now tasks x") auto

section \<open>No change is forgotten\<close>

lemma selectWorkerID_event:
  "selectWorkerID task s = Return (r, s') \<Longrightarrow> assignEvent s' = assignEvent s"
  by (auto simp: selectWorkerID_def updateLocalResourceEstimate_def Let_def split: run.splits if_splits)

lemma assignTask_event:
  "assignTask repo now task s = Return (e, s') \<Longrightarrow> assignEvent s' = assignEvent s"
  by (auto simp: assignTask_def Let_def dest!: selectWorkerID_event split: run.splits sum.splits prod.splits)

text \<open>What follows the last change in a list of events.\<close>

definition waits_for_round :: "sched_event list \<Rightarrow> bool" where
  "waits_for_round es \<longleftrightarrow> (\<exists>xs ys. es = xs @ Changed # ys \<and> RoundBegan \<notin> set ys)"

lemma waits_for_round_simps [simp]:
  "\<not> waits_for_round []"
  "waits_for_round (es @ [Changed])"
  "\<not> waits_for_round (es @ [RoundBegan])"
proof -
  show "waits_for_round (es @ [Changed])" unfolding waits_for_round_def by (intro exI [of _ es] exI [of _ "[]"]) simp
  show "\<not> waits_for_round (es @ [RoundBegan])"
    by (auto simp: waits_for_round_def append_eq_append_conv2 append_eq_Cons_conv Cons_eq_append_conv)
qed (simp add: waits_for_round_def)

definition sched_inv :: "sched_event list \<Rightarrow> 'r sched_sys \<Rightarrow> bool" where
  "sched_inv es s \<longleftrightarrow> assignEvent (sc s) \<le> 1 \<and>
     (waits_for_round es \<longrightarrow> watch_sends s \<or> assignEvent (sc s) = 1 \<or> leader_at s = Deciding)"

lemma sched_step_inv:
  assumes "sched_inv es s" and "sched_step repo a s = Some (fs, s')" and "leader_at s' \<noteq> Panicked"
  shows "sched_inv (es @ fs) s'"
proof (cases a)
  case (SWatch services err)
  with assms show ?thesis
    by (auto simp: sched_step_def sched_inv_def watchWorkers_def setAvailableWorkers_def Let_def split: if_splits)
next
  case SWatchSend
  with assms show ?thesis
    by (auto simp: sched_step_def sched_inv_def triggerReAssignEvent_def split: if_splits)
next
  case SAuto
  with assms show ?thesis
    by (auto simp: sched_step_def sched_inv_def triggerReAssignEvent_def autoTriggerReAssignEvent_def split: if_splits)
next
  case (SLeader elector now)
  with assms show ?thesis
    by (cases "leader_at s") (auto simp: sched_step_def sched_inv_def dest: assignTask_event
        split: if_splits sum.splits list.splits run.splits)
next
  case (SWorld r)
  with assms show ?thesis by (auto simp: sched_step_def sched_inv_def split: if_splits)
qed

lemma sched_run_panicked:
  "leader_at s = Panicked \<Longrightarrow> sched_run repo ops s = Some (fs, s') \<Longrightarrow> s' = s"
  by (cases ops) (simp_all add: sched_step_def)

lemma sched_run_inv:
  "sched_inv es s \<Longrightarrow> sched_run repo ops s = Some (fs, s') \<Longrightarrow> leader_at s' \<noteq> Panicked \<Longrightarrow> sched_inv (es @ fs) s'"
proof (induction ops arbitrary: es fs s)
  case (Cons a ops)
  then obtain gs s1 hs where run: "sched_step repo a s = Some (gs, s1)" "sched_run repo ops s1 = Some (hs, s')"
    "fs = gs @ hs"
    by (auto split: option.splits)
  with Cons.prems(3) have "leader_at s1 \<noteq> Panicked" by (metis sched_run_panicked)
  from Cons.IH [OF sched_step_inv [OF Cons.prems(1) run(1) this] run(2) Cons.prems(3)] run(3) show ?case by simp
qed simp

section \<open>A round is always near\<close>

lemma sched_run_append:
  "sched_run repo (xs @ ys) s =
     (case sched_run repo xs s of
        None \<Rightarrow> None
      | Some (es, s1) \<Rightarrow>
          (case sched_run repo ys s1 of None \<Rightarrow> None | Some (fs, s2) \<Rightarrow> Some (es @ fs, s2)))"
  by (induction xs arbitrary: s) (auto split: option.split)

text \<open>\<open>near n s\<close>: the goroutines alone reach the begin of a round, or a panic, in \<open>n\<close> steps at most.\<close>

definition near :: "'r TaskRepo \<Rightarrow> Elector \<Rightarrow> time \<Rightarrow> nat \<Rightarrow> 'r sched_sys \<Rightarrow> bool" where
  "near repo elector now n s \<longleftrightarrow>
     (\<exists>ops fs s'. length ops \<le> n \<and> set ops \<subseteq> {SAuto, SWatchSend, SLeader elector now} \<and>
        sched_run repo ops s = Some (fs, s') \<and> (RoundBegan \<in> set fs \<or> leader_at s' = Panicked))"

lemma near_step:
  assumes "sched_step repo a s = Some (fs, s1)" and "near repo elector now n s1"
    and "a \<in> {SAuto, SWatchSend, SLeader elector now}"
  shows "near repo elector now (Suc n) s"
proof -
  from assms(2) obtain ops gs s' where "length ops \<le> n" "set ops \<subseteq> {SAuto, SWatchSend, SLeader elector now}"
    "sched_run repo ops s1 = Some (gs, s')" "RoundBegan \<in> set gs \<or> leader_at s' = Panicked"
    unfolding near_def by blast
  with assms(1,3) show ?thesis
    unfolding near_def by (intro exI [of _ "a # ops"] exI [of _ "fs @ gs"] exI [of _ s']) auto
qed

lemma near_later: "near repo elector now m s \<Longrightarrow> m \<le> n \<Longrightarrow> near repo elector now n s"
  unfolding near_def by (meson order_trans)

lemma near_Deciding: "leader_at s = Deciding \<Longrightarrow> near repo elector now 1 s"
  unfolding near_def
  by (intro exI [of _ "[SLeader elector now]"])
    (auto simp: sched_step_def split: sum.split)

lemma near_AtReceive:
  assumes "leader_at s = AtReceive"
  shows "near repo elector now 4 s"
proof -
  have event: "near repo elector now 2 t" if "leader_at t = AtReceive" "assignEvent (sc t) \<noteq> 0" for t :: "'a sched_sys"
    using that near_step [of repo "SLeader elector now" t, OF _ near_Deciding]
    by (simp add: sched_step_def numeral_2_eq_2)
  have send: "near repo elector now 3 t"
    if "leader_at t = AtReceive" "assignEvent (sc t) = 0" "auto_sends t" for t :: "'a sched_sys"
    using that near_step [of repo SAuto t, OF _ event]
    by (simp add: sched_step_def autoTriggerReAssignEvent_def triggerReAssignEvent_def numeral_3_eq_3 numeral_2_eq_2)
  consider "assignEvent (sc s) \<noteq> 0" | "assignEvent (sc s) = 0" "auto_sends s" | "assignEvent (sc s) = 0" "\<not> auto_sends s"
    by blast
  then show ?thesis
  proof cases
    case 1
    with event [OF assms] show ?thesis by (auto intro: near_later)
  next
    case 2
    with send [OF assms] show ?thesis by (auto intro: near_later)
  next
    case 3
    with assms near_step [of repo SAuto s, OF _ send] show ?thesis
      by (simp add: sched_step_def autoTriggerReAssignEvent_def eval_nat_numeral)
  qed
qed

fun steps_left :: "leader_pc \<Rightarrow> nat" where
  "steps_left (Assigning tasks) = Suc (length tasks)"
| "steps_left pc = 0"

lemma near_any:
  "leader_at s \<noteq> Panicked \<Longrightarrow> near repo elector now (steps_left (leader_at s) + 4) s"
proof (induction "steps_left (leader_at s)" arbitrary: s rule: less_induct)
  case less
  show ?case
  proof (cases "leader_at s")
    case (Assigning tasks)
    show ?thesis
    proof (cases "leader_step repo elector now (leader_at s) (sc s)")
      case (Some px)
      obtain pc x where px: "px = (pc, x)" by (cases px)
      let ?s1 = "s\<lparr>sc := x, leader_at := pc\<rparr>"
      have step: "sched_step repo (SLeader elector now) s = Some ([], ?s1)"
        using Some px Assigning by (simp add: sched_step_def)
      have left: "pc = Panicked \<or> steps_left pc < steps_left (leader_at s)"
        using Some px Assigning by (auto simp: after_task_def split: list.splits run.splits prod.splits if_splits)
      have "near repo elector now (length tasks + 4) ?s1"
      proof (cases "pc = Panicked")
        case True
        then show ?thesis unfolding near_def by (intro exI [of _ "[]"]) auto
      next
        case False
        with left less.hyps [of ?s1] have "near repo elector now (steps_left pc + 4) ?s1" by simp
        with left False Assigning show ?thesis by (auto intro: near_later)
      qed
      from near_step [OF step this] Assigning show ?thesis by simp
    qed (use Assigning in \<open>auto split: list.splits run.splits prod.splits\<close>)
  qed (use less.prems in \<open>auto intro: near_AtReceive near_later [OF near_Deciding]\<close>)
qed

section \<open>Properties\<close>

text \<open>
  C18: the goroutine of \<open>monitorAssignEvent\<close>, when the others leave it alone, carries out the round
  that \<open>monitorAssignEvent\<close> describes as one function: the same assignments, in the same order, and a
  panic exactly when the round panics.
\<close>

theorem leader_steps_are_round:
  assumes "leader_at s = AtReceive" and "assignEvent (sc s) \<noteq> 0"
  shows "\<exists>n. case monitorAssignEvent repo elector now (sc s) of
      Return x \<Rightarrow> sched_run repo (replicate n (SLeader elector now)) s = Some ([RoundBegan], s\<lparr>sc := x\<rparr>)
    | Panic \<Rightarrow> \<exists>x. sched_run repo (replicate n (SLeader elector now)) s =
        Some ([RoundBegan], s\<lparr>sc := x, leader_at := Panicked\<rparr>)"
proof -
  let ?x = "(sc s)\<lparr>assignEvent := assignEvent (sc s) - 1\<rparr>"
  have same: "s\<lparr>sc := x, leader_at := AtReceive\<rparr> = s\<lparr>sc := x\<rparr>" for x using assms(1) by simp
  let ?run = "\<lambda>n. sched_run repo (replicate n (SLeader elector now)) s"
  have two: "sched_run repo (replicate (Suc (Suc n)) (SLeader elector now)) s =
      (case sched_run repo (replicate n (SLeader elector now)) (s\<lparr>sc := ?x, leader_at := pc\<rparr>) of
         None \<Rightarrow> None | Some (fs, s2) \<Rightarrow> Some (RoundBegan # fs, s2))"
    if "leader_step repo elector now Deciding ?x = Some (pc, ?x)" for pc n
    using that assms by (simp add: sched_step_def split: option.split)
  show ?thesis
  proof (cases "\<exists>tasks. amILeader elector = Inr True \<and> loadNeedAssignTasks repo ?x = Inr tasks")
    case True
    then obtain tasks where t: "amILeader elector = Inr True" "loadNeedAssignTasks repo ?x = Inr tasks" by blast
    obtain n where n: "case assign_all repo now tasks ?x of
        Return y \<Rightarrow> sched_run repo (replicate n (SLeader elector now)) (s\<lparr>sc := ?x, leader_at := after_task tasks\<rparr>) =
          Some ([], s\<lparr>sc := y\<rparr>)
      | Panic \<Rightarrow> \<exists>y. sched_run repo (replicate n (SLeader elector now)) (s\<lparr>sc := ?x, leader_at := after_task tasks\<rparr>) =
          Some ([], s\<lparr>sc := y, leader_at := Panicked\<rparr>)"
      using assign_steps_from [where s = s and x = ?x and tasks = tasks and repo = repo and now = now
          and elector = elector] unfolding same by blast
    show ?thesis
      by (intro exI [of _ "Suc (Suc n)"])
        (use n two [of "after_task tasks"] t in \<open>auto simp: monitorAssignEvent_def Let_def split: run.splits\<close>)
  next
    case False
    then have "leader_step repo elector now Deciding ?x = Some (AtReceive, ?x)"
      "monitorAssignEvent repo elector now (sc s) = Return ?x"
      by (auto simp: monitorAssignEvent_def Let_def split: sum.split)
    with two [of AtReceive 0] show ?thesis
      by (intro exI [of _ 2]) (simp add: numeral_2_eq_2 same)
  qed
qed

text \<open>
  C17: no change of the workers is forgotten.  In every run of the goroutines of the scheduler, as long
  as no round has begun after a change of the workers, the callback is at its send, or an event is in
  the channel, or the leader's loop has taken one and is about to begin a round; the channel never
  holds more than one event; and from every state that is not a panic the goroutines alone reach the
  begin of a round, or a panic, in at most five steps more than there are tasks left to assign.
\<close>

theorem change_gets_a_round:
  assumes "sched_run repo ops (sched_begin x) = Some (es, s)" and "Scheduler_Run instances s0 = Ok x"
    and "leader_at s \<noteq> Panicked"
  shows "(waits_for_round es \<longrightarrow> watch_sends s \<or> assignEvent (sc s) = 1 \<or> leader_at s = Deciding) \<and>
    assignEvent (sc s) \<le> 1 \<and> near repo elector now (steps_left (leader_at s) + 4) s"
proof -
  have "sched_inv [] (sched_begin x)"
    using assms(2) by (auto simp: sched_inv_def sched_begin_def Scheduler_Run_def split: sum.splits)
  from sched_run_inv [OF this assms(1,3)] near_any [OF assms(3)] show ?thesis
    by (auto simp: sched_inv_def)
qed

section \<open>Witnesses\<close>

text \<open>A scheduler without workers, and a leader that cannot be asked or is this scheduler.\<close>

definition demo_scheduler :: "mem_repo Scheduler" where
  "demo_scheduler = \<lparr>availableWorkers = [], assignEvent = 0, meta = (\<lambda>_. Map.empty),
     repo_state = \<lparr>rows = [], updates = []\<rparr>\<rparr>"

definition demo_elector :: Elector where
  "demo_elector = \<lparr>Leader = Ok \<lparr>Anchor = 1, MasterID = ''m'', IP = ''10.0.0.1'', LastSeenActive = 0\<rparr>,
     AmILeader = (\<lambda>_. True)\<rparr>"

theorem leader_steps_are_round_witness:
  "\<exists>n. sched_run mem_TaskRepo (replicate n (SLeader demo_elector 5))
     (sched_begin (demo_scheduler\<lparr>assignEvent := 1\<rparr>)) = Some ([RoundBegan], sched_begin demo_scheduler)"
proof -
  let ?s = "sched_begin (demo_scheduler\<lparr>assignEvent := 1\<rparr>)"
  have "monitorAssignEvent mem_TaskRepo demo_elector 5 (sc ?s) = Return demo_scheduler"
    by (simp add: monitorAssignEvent_def amILeader_def loadNeedAssignTasks_def mem_TaskRepo_def
        demo_elector_def demo_scheduler_def sched_begin_def Let_def)
  moreover have "?s\<lparr>sc := demo_scheduler\<rparr> = sched_begin demo_scheduler" by (simp add: sched_begin_def)
  ultimately show ?thesis
    using leader_steps_are_round [of ?s mem_TaskRepo demo_elector 5] by (simp add: sched_begin_def)
qed

theorem change_gets_a_round_witness:
  "\<exists>s. sched_run mem_TaskRepo [SWatch [test_instance 0] None] (sched_begin demo_scheduler) = Some ([Changed], s) \<and>
     watch_sends s \<and> near mem_TaskRepo demo_elector 5 4 s"
proof -
  have run0: "Scheduler_Run (Ok []) demo_scheduler = Ok demo_scheduler"
    by (simp add: Scheduler_Run_def setAvailableWorkers_def demo_scheduler_def)
  obtain s where run: "sched_run mem_TaskRepo [SWatch [test_instance 0] None] (sched_begin demo_scheduler) =
      Some ([Changed], s)" and pc: "leader_at s = AtReceive" and ev: "assignEvent (sc s) = 0"
    by (simp add: sched_step_def sched_begin_def watchWorkers_def hasAvailableWorkersChanged_def
        getAvailableWorkers_def setAvailableWorkers_def demo_scheduler_def test_instance_def)
  have "waits_for_round [Changed]" using waits_for_round_simps(2) [of "[]"] by simp
  with change_gets_a_round [OF run run0, of demo_elector 5] pc ev run show ?thesis by simp
qed

end
