(* ===== verification/Selection.thy ===== *)
theory Selection
  imports Scheduler
begin

text \<open>
  The choice of a worker beside the watch on the workers.  \<open>selectWorkerID\<close> holds the read lock of the
  scheduler while it loads the list of workers, writes its estimates and stores the list again; the
  callback of \<open>watchWorkers\<close> takes the write lock when it stores a list with other workers, and no
  lock when it stores one with the same workers.  The send on \<open>assignEvent\<close> that may follow is a step
  of \<^verbatim>\<open>SchedulerThreads\<close>.
\<close>

section \<open>Steps\<close>

text \<open>
  Where \<open>selectWorkerID\<close> is.  \<open>Loaded\<close>: it has the list of workers; \<open>Updating\<close>: it has chosen a worker
  and written the estimates and is at the call of \<open>updateWorkerInCache\<close>; \<open>Storing\<close>: it has a copy of
  the list, with the worker replaced, and is at the call of \<open>setAvailableWorkers\<close>.
\<close>

datatype select_pc =
    Unlocked
  | Loaded Task "Instance list"
  | Updating Instance
  | Storing Instance "Instance list"
  | Returned "string result"
  | Crashed

definition holds_RLock :: "select_pc \<Rightarrow> bool" where
  "holds_RLock pc \<longleftrightarrow> (case pc of Unlocked \<Rightarrow> False | Returned r \<Rightarrow> False | _ \<Rightarrow> True)"

fun select_step :: "select_pc \<Rightarrow> 'r Scheduler \<Rightarrow> select_pc \<times> 'r Scheduler" where
  "select_step (Loaded task workers) s =
     (if length workers = 0 then (Returned (Err NoAvailableWorkers), s)
      else
        let candidateWorkers = filterWorker (meta s) task workers
        in if length candidateWorkers = 0 then (Returned (Err NoCandidateWorkers), s)
           else if length candidateWorkers = 1
             then (Returned (Ok (worker_id s (candidateWorkers ! 0))), s)
           else (case priorityWorker (meta s) candidateWorkers of
             Panic \<Rightarrow> (Crashed, s)
           | Return selectedWorker \<Rightarrow>
               (case write_estimates selectedWorker (meta s) of
                  Panic \<Rightarrow> (Crashed, s)
                | Return h \<Rightarrow> (Updating selectedWorker, s\<lparr>meta := h\<rparr>))))"
| "select_step (Updating worker) s =
     (Storing worker (replace_worker (meta s) worker (getAvailableWorkers s)), s)"
| "select_step (Storing worker workers) s =
     (let s1 = setAvailableWorkers workers s in (Returned (Ok (worker_id s1 worker)), s1))"
| "select_step pc s = (pc, s)"

text \<open>The callback: at rest, or with its new list after the test for a change.\<close>

datatype watch_pc = Resting | Tested "Instance list" bool

record 'r sel_sys =
  sel_sc :: "'r Scheduler"
  select_at :: select_pc
  watch_at :: watch_pc

datatype sel_op = SelBegin Task | SelStep | WatchTest "Instance list" | WatchStore

text \<open>\<open>None\<close>: the goroutine cannot take the step, because it is elsewhere or waits for the lock.\<close>

fun sel_move :: "sel_op \<Rightarrow> 'r sel_sys \<Rightarrow> 'r sel_sys option" where
  "sel_move (SelBegin task) s =
     (if holds_RLock (select_at s) then None
      else Some (s\<lparr>select_at := Loaded task (getAvailableWorkers (sel_sc s))\<rparr>))"
| "sel_move SelStep s =
     (if holds_RLock (select_at s) \<and> select_at s \<noteq> Crashed
      then (case select_step (select_at s) (sel_sc s) of
              (pc, x) \<Rightarrow> Some (s\<lparr>sel_sc := x, select_at := pc\<rparr>))
      else None)"
| "sel_move (WatchTest services) s =
     (case watch_at s of
        Resting \<Rightarrow>
          let newAvailableWorkers = filter Healthy services
          in Some (s\<lparr>watch_at := Tested newAvailableWorkers
               (hasAvailableWorkersChanged newAvailableWorkers (sel_sc s))\<rparr>)
      | Tested ws changed \<Rightarrow> None)"
| "sel_move WatchStore s =
     (case watch_at s of
        Resting \<Rightarrow> None
      | Tested ws changed \<Rightarrow>
          if changed \<and> holds_RLock (select_at s) then None
          else Some (s\<lparr>sel_sc := setAvailableWorkers ws (sel_sc s), watch_at := Resting\<rparr>))"

fun sel_run :: "sel_op list \<Rightarrow> 'r sel_sys \<Rightarrow> 'r sel_sys option" where
  "sel_run [] s = Some s"
| "sel_run (a # ops) s = (case sel_move a s of None \<Rightarrow> None | Some s1 \<Rightarrow> sel_run ops s1)"

text \<open>The last list that the callback has stored in a run, or the one of the start.\<close>

fun last_stored :: "sel_op list \<Rightarrow> 'r sel_sys \<Rightarrow> Instance list \<Rightarrow> Instance list" where
  "last_stored [] s ws = ws"
| "last_stored (a # ops) s ws =
     (case sel_move a s of
        None \<Rightarrow> ws
      | Some s1 \<Rightarrow> last_stored ops s1
          (if a = WatchStore then availableWorkers (sel_sc s1) else ws))"

section \<open>Facts about the steps\<close>

definition ids :: "meta_store \<Rightarrow> Instance list \<Rightarrow> string set" where
  "ids h ws = ID h ` set ws"

lemma write_estimates_ID: "write_estimates w h = Return h' \<Longrightarrow> ID h' x = ID h x"
  by (auto simp: write_estimates_def Let_def ID_write split: run.splits)

lemma ids_replace_worker: "ids h (replace_worker h w ws) = ids h ws"
  unfolding replace_worker_def ids_def
  by (metis (mono_tags, lifting) list.set_map replace_first_ids)

lemma select_step_ID:
  "select_step pc s = (pc', s') \<Longrightarrow> worker_id s' x = worker_id s x"
  by (cases pc) (auto simp: Let_def setAvailableWorkers_def write_estimates_ID split: if_splits run.splits)

lemma sel_move_ID: "sel_move a s = Some s' \<Longrightarrow> worker_id (sel_sc s') x = worker_id (sel_sc s) x"
  by (cases a) (auto simp: Let_def setAvailableWorkers_def select_step_ID
      split: if_splits watch_pc.splits prod.splits)

lemma not_changed_ids:
  assumes "\<not> hasAvailableWorkersChanged new s" and "distinct (map (worker_id s) new)"
  shows "ids (meta s) new = ids (meta s) (availableWorkers s)"
  unfolding ids_def
proof (rule card_seteq)
  show "worker_id s ` set new \<subseteq> worker_id s ` set (availableWorkers s)"
    using assms(1) by (auto simp: hasAvailableWorkersChanged_def getAvailableWorkers_def list_ex_iff split: if_splits)
  have "card (worker_id s ` set (availableWorkers s)) \<le> length (availableWorkers s)"
    by (metis card_length length_map list.set_map)
  also have "\<dots> = length (map (worker_id s) new)"
    using assms(1) by (simp add: hasAvailableWorkersChanged_def getAvailableWorkers_def split: if_splits)
  also have "\<dots> = card (worker_id s ` set new)" using assms(2) by (metis distinct_card list.set_map)
  finally show "card (worker_id s ` set (availableWorkers s)) \<le> card (worker_id s ` set new)" .
qed simp

text \<open>
  What holds of the ids beside the lists that wait to be stored; \<open>ws\<close> is the list that the callback
  has stored last.
\<close>

definition sel_inv :: "Instance list \<Rightarrow> 'r sel_sys \<Rightarrow> bool" where
  "sel_inv ws s \<longleftrightarrow>
     (let h = meta (sel_sc s)
      in ids h (availableWorkers (sel_sc s)) = ids h ws \<and>
         (case select_at s of Storing w xs \<Rightarrow> ids h xs = ids h ws | _ \<Rightarrow> True) \<and>
         (case watch_at s of Tested new changed \<Rightarrow> changed \<or> ids h new = ids h ws | _ \<Rightarrow> True))"

lemmas sel_inv_simps = sel_inv_def Let_def setAvailableWorkers_def getAvailableWorkers_def

lemma ids_write: "write_estimates w h = Return h' \<Longrightarrow> ids h' xs = ids h xs"
  by (simp add: ids_def write_estimates_ID)

lemma select_step_inv:
  assumes "sel_inv ws s" and "select_step (select_at s) (sel_sc s) = (pc, x)"
  shows "sel_inv ws (s\<lparr>sel_sc := x, select_at := pc\<rparr>)"
proof (cases "select_at s")
  case (Loaded task workers)
  with assms show ?thesis
    by (auto simp: sel_inv_simps ids_write split: if_splits run.splits watch_pc.splits)
next
  case (Updating w)
  with assms show ?thesis by (auto simp: sel_inv_simps ids_replace_worker)
next
  case (Storing w xs)
  with assms show ?thesis by (auto simp: sel_inv_simps split: watch_pc.splits)
qed (use assms in \<open>cases "watch_at s"; simp add: sel_inv_simps\<close>)+

lemma sel_move_inv:
  assumes "sel_inv ws s" and "sel_move a s = Some s'"
    and "\<And>services. a = WatchTest services \<Longrightarrow> distinct (map (worker_id (sel_sc s)) (filter Healthy services))"
  shows "sel_inv (if a = WatchStore then availableWorkers (sel_sc s') else ws) s'"
proof (cases a)
  case (SelBegin task)
  with assms(1,2) show ?thesis
    by (auto simp: sel_inv_simps split: if_splits watch_pc.splits)
next
  case SelStep
  with assms(1,2) select_step_inv [OF assms(1)] show ?thesis
    by (auto split: if_splits prod.splits)
next
  case (WatchTest services)
  with assms(1,2) not_changed_ids [OF _ assms(3) [OF WatchTest]] show ?thesis
    by (auto simp: sel_inv_simps split: watch_pc.splits select_pc.splits)
next
  case WatchStore
  with assms(1,2) show ?thesis
    by (auto simp: sel_inv_simps holds_RLock_def split: watch_pc.splits if_splits select_pc.splits)
qed

lemma sel_run_inv:
  assumes "sel_inv ws s" and "sel_run ops s = Some s'"
    and "\<And>services. WatchTest services \<in> set ops \<Longrightarrow> distinct (map (worker_id (sel_sc s)) (filter Healthy services))"
  shows "sel_inv (last_stored ops s ws) s'"
  using assms
proof (induction ops arbitrary: s ws)
  case (Cons a ops)
  then obtain s1 where move: "sel_move a s = Some s1" and run: "sel_run ops s1 = Some s'"
    by (auto split: option.splits)
  have "sel_inv (if a = WatchStore then availableWorkers (sel_sc s1) else ws) s1"
    by (rule sel_move_inv [OF Cons.prems(1) move]) (use Cons.prems(3) in auto)
  from Cons.IH [OF this run] Cons.prems(3) sel_move_ID [OF move] move show ?case
    by (simp add: fun_eq_iff cong: map_cong)
qed simp

section \<open>Properties\<close>

text \<open>
  C33: the steps are \<open>selectWorkerID\<close>.  When nothing else runs, the goroutine that chooses a worker is
  done after three steps at most, with the result and the state of \<open>selectWorkerID\<close>, or has panicked
  exactly when \<open>selectWorkerID\<close> panics.
\<close>

theorem selection_steps_are_selectWorkerID:
  assumes "\<not> holds_RLock (select_at s)"
  shows "\<exists>n\<le>3. sel_run (SelBegin task # replicate n SelStep) s =
    (case selectWorkerID task (sel_sc s) of
       Panic \<Rightarrow> Some (s\<lparr>select_at := Crashed\<rparr>)
     | Return (r, x) \<Rightarrow> Some (s\<lparr>sel_sc := x, select_at := Returned r\<rparr>))"
proof -
  let ?x = "sel_sc s"
  let ?c = "filterWorker (meta ?x) task (availableWorkers ?x)"
  let ?run = "\<lambda>n. sel_run (SelBegin task # replicate n SelStep) s"
  have same: "s\<lparr>sel_sc := sel_sc s, select_at := pc\<rparr> = s\<lparr>select_at := pc\<rparr>" for pc by simp
  note [simp] = holds_RLock_def getAvailableWorkers_def Let_def
  have start: "?run n = sel_run (replicate n SelStep) (s\<lparr>select_at := Loaded task (availableWorkers ?x)\<rparr>)" for n
    using assms by (simp del: holds_RLock_def)
  consider "length ?c \<le> 1 \<or> priorityWorker (meta ?x) ?c = Panic"
    | w where "1 < length ?c" "priorityWorker (meta ?x) ?c = Return w" "write_estimates w (meta ?x) = Panic"
    | w h where "1 < length ?c" "priorityWorker (meta ?x) ?c = Return w" "write_estimates w (meta ?x) = Return h"
    by (metis not_le run.exhaust)
  then show ?thesis
  proof cases
    case 1
    then have "?run 1 = (case selectWorkerID task ?x of
        Panic \<Rightarrow> Some (s\<lparr>select_at := Crashed\<rparr>)
      | Return (r, x) \<Rightarrow> Some (s\<lparr>sel_sc := x, select_at := Returned r\<rparr>))"
      unfolding start by (auto simp: selectWorkerID_def le_Suc_eq)
    then show ?thesis by (intro exI [of _ 1]) simp
  next
    case 2
    then have "?run 1 = (case selectWorkerID task ?x of
        Panic \<Rightarrow> Some (s\<lparr>select_at := Crashed\<rparr>)
      | Return (r, x) \<Rightarrow> Some (s\<lparr>sel_sc := x, select_at := Returned r\<rparr>))"
      unfolding start by (auto simp: selectWorkerID_def updateLocalResourceEstimate_def)
    then show ?thesis by (intro exI [of _ 1]) simp
  next
    case 3
    then have "?run 3 = (case selectWorkerID task ?x of
        Panic \<Rightarrow> Some (s\<lparr>select_at := Crashed\<rparr>)
      | Return (r, x) \<Rightarrow> Some (s\<lparr>sel_sc := x, select_at := Returned r\<rparr>))"
      unfolding start
      by (auto simp: selectWorkerID_def updateLocalResourceEstimate_def updateWorkerInCache_def
          setAvailableWorkers_def numeral_3_eq_3)
    then show ?thesis by (intro exI [of _ 3]) simp
  qed
qed

text \<open>
  C13: no worker comes back and none is lost.  However a choice of a worker and the callback of the
  watch interleave, the available workers have the ids of the list that the callback has stored last,
  or of the list at the start; the lists of the subscription must not hold an id twice.
\<close>

theorem membership_survives_selection:
  assumes "sel_run ops s = Some s'" and "select_at s = Unlocked" and "watch_at s = Resting"
    and "\<And>services. WatchTest services \<in> set ops \<Longrightarrow>
      distinct (map (worker_id (sel_sc s)) (filter Healthy services))"
  shows "worker_id (sel_sc s') ` set (availableWorkers (sel_sc s')) =
    worker_id (sel_sc s') ` set (last_stored ops s (availableWorkers (sel_sc s)))"
proof -
  have "sel_inv (availableWorkers (sel_sc s)) s" using assms(2,3) by (simp add: sel_inv_def Let_def)
  from sel_run_inv [OF this assms(1,4)] show ?thesis by (simp add: sel_inv_def ids_def Let_def)
qed

text \<open>
  C37: a choice can undo a notification.  A list with the same workers is stored without the lock: when
  it comes while a choice is at its store, the choice puts its copy of the old list back, and nothing
  remains of the notification.  The workers that it reported with other metadata are judged by the old
  ones, until the next notification.
\<close>

theorem selection_undoes_notification:
  assumes "select_at s = Storing w ws" and "watch_at s = Resting"
    and "\<not> hasAvailableWorkersChanged (filter Healthy services) (sel_sc s)"
  shows "sel_run [WatchTest services, WatchStore, SelStep] s = sel_run [SelStep] s \<and>
    (\<exists>s'. sel_run [SelStep] s = Some s' \<and> availableWorkers (sel_sc s') = ws \<and>
       (\<exists>s''. sel_run [SelStep, WatchTest services, WatchStore] s = Some s'' \<and>
          (hasAvailableWorkersChanged (filter Healthy services) (sel_sc s') \<or>
           availableWorkers (sel_sc s'') = filter Healthy services)))"
  using assms by (simp add: holds_RLock_def setAvailableWorkers_def Let_def)

section \<open>Witnesses\<close>

definition sel_begin :: "'r Scheduler \<Rightarrow> 'r sel_sys" where
  "sel_begin x = \<lparr>sel_sc = x, select_at = Unlocked, watch_at = Resting\<rparr>"

lemma write_estimates_frame:
  assumes "Metadata w = Some a"
  shows "\<exists>h'. write_estimates w h = Return h' \<and> (\<forall>b. b \<noteq> a \<longrightarrow> h' b = h b)"
  using assms by (simp add: write_estimates_def meta_write_def Let_def)

lemma Healthy_test [simp]: "Healthy (test_instance a)"
  by (simp add: test_instance_def)

theorem selection_steps_are_selectWorkerID_witness:
  "\<exists>n\<le>3. \<exists>w x. sel_run (SelBegin test_task # replicate n SelStep) (sel_begin test_scheduler) =
     Some \<lparr>sel_sc = x, select_at = Returned (Ok w), watch_at = Resting\<rparr>"
proof -
  have md: "Metadata w \<noteq> None" if "w \<in> set (availableWorkers test_scheduler)" for w
    using that by (auto simp: test_scheduler_def test_workers_def test_instance_def)
  have c: "filterWorker (meta test_scheduler) test_task (availableWorkers test_scheduler) = test_workers"
    "test_workers \<noteq> []" "availableWorkers test_scheduler \<noteq> []"
    by (simp_all add: test_scheduler_def test_candidates) (simp_all add: test_workers_def)
  obtain w x where "selectWorkerID test_task test_scheduler = Return (Ok w, x)"
    by (rule selectWorkerID_cases [where s = test_scheduler and task = test_task, OF md]) (use c in auto)
  with selection_steps_are_selectWorkerID [of "sel_begin test_scheduler" test_task] show ?thesis
    by (simp add: sel_begin_def holds_RLock_def) blast
qed

theorem membership_survives_selection_witness:
  "\<exists>s. sel_run [WatchTest [test_instance 1], SelBegin test_task, WatchTest [test_instance 0]] (sel_begin test_scheduler) = None \<and>
     sel_run [WatchTest [test_instance 1], WatchStore, SelBegin test_task, SelStep] (sel_begin test_scheduler) = Some s \<and>
     worker_id (sel_sc s) ` set (availableWorkers (sel_sc s)) = {''2''}"
proof -
  let ?ops = "[WatchTest [test_instance 1], WatchStore, SelBegin test_task, SelStep]"
  let ?x = "test_scheduler\<lparr>availableWorkers := [test_instance 1]\<rparr>"
  have "filterWorker test_meta test_task [test_instance 1] = [test_instance 1]"
    by (simp add: test_meta_values test_md_stains)
  then have f: "select_step (Loaded test_task [test_instance (Suc 0)]) x = (Returned (Ok ''2''), x)"
    if "meta x = test_meta" for x :: "mem_repo Scheduler"
    using that test_IDs by simp
  have run: "sel_run ?ops (sel_begin test_scheduler) =
      Some \<lparr>sel_sc = ?x, select_at = Returned (Ok ''2''), watch_at = Resting\<rparr>"
    by (simp add: sel_begin_def holds_RLock_def setAvailableWorkers_def getAvailableWorkers_def
        hasAvailableWorkersChanged_def test_scheduler_def test_workers_def f Let_def del: select_step.simps)
  have last: "last_stored ?ops (sel_begin test_scheduler) (availableWorkers test_scheduler) = [test_instance 1]"
    by (simp add: sel_begin_def holds_RLock_def setAvailableWorkers_def getAvailableWorkers_def
        hasAvailableWorkersChanged_def test_scheduler_def test_workers_def f Let_def del: select_step.simps)
  from membership_survives_selection [OF run] last run show ?thesis
    by (simp add: sel_begin_def holds_RLock_def test_scheduler_def test_IDs Let_def)
qed

text \<open>The second worker is announced again with metadata that hold a stain, while a choice is under way.\<close>

definition stained_instance :: Instance where
  "stained_instance = (test_instance 1)\<lparr>Metadata := Some 2\<rparr>"

definition race_scheduler :: "mem_repo Scheduler" where
  "race_scheduler = test_scheduler\<lparr>meta := test_meta(2 := [stainPressureMem \<mapsto> ''high''])\<rparr>"

lemma race_values:
  "metadata (meta race_scheduler) (test_instance 0) = test_md ''32.67'' ''100''"
  "metadata (meta race_scheduler) (test_instance (Suc 0)) = test_md ''32.10'' ''1000''"
  "metadata (meta race_scheduler) stained_instance = [stainPressureMem \<mapsto> ''high'']"
  by (simp_all add: race_scheduler_def stained_instance_def metadata_def test_instance_def test_meta_def test_store_def)

lemma race_choice:
  "filterWorker (meta race_scheduler) task test_workers = test_workers"
  "priorityWorker (meta race_scheduler) test_workers = Return (test_instance 0)"
proof -
  show "filterWorker (meta race_scheduler) task test_workers = test_workers"
    by (simp add: test_workers_def race_values test_md_stains)
  have "worker_scores (meta race_scheduler) test_workers = worker_scores test_meta test_workers"
    by (simp add: worker_scores_def test_workers_def race_values test_meta_values numeral_2_eq_2)
  with TestSelectWorkerByResources_4 show "priorityWorker (meta race_scheduler) test_workers = Return (test_instance 0)"
    by (simp add: priorityWorker_def)
qed

theorem selection_undoes_notification_witness:
  "\<exists>s. sel_run [SelBegin test_task, SelStep, SelStep, WatchTest [test_instance 0, stained_instance], WatchStore, SelStep]
       (sel_begin race_scheduler) = Some s \<and> availableWorkers (sel_sc s) = test_workers \<and>
     Parsestain (metadata (meta (sel_sc s)) (test_instance 1)) = Map.empty \<and>
     Parsestain (metadata (meta (sel_sc s)) stained_instance) = [stainPressureMem \<mapsto> ''high'']"
proof -
  let ?svc = "[test_instance 0, stained_instance]"
  obtain h where h: "write_estimates (test_instance 0) (meta race_scheduler) = Return h"
    "\<And>b. b \<noteq> 0 \<Longrightarrow> h b = meta race_scheduler b"
    using write_estimates_frame [of "test_instance 0" 0 "meta race_scheduler"] by (auto simp: test_instance_def)
  have md: "metadata h (test_instance 1) = test_md ''32.10'' ''1000''"
    "metadata h stained_instance = [stainPressureMem \<mapsto> ''high'']"
    using race_values(2,3) h(2) by (simp_all add: metadata_def test_instance_def stained_instance_def)
  have id: "ID h (test_instance 0) = ''1''" "ID h (test_instance 1) = ''2''" "ID h stained_instance = ''2''"
    using write_estimates_ID [OF h(1)] race_values
    by (simp_all add: ID_alt test_md_def go_get_def InstanceId_test stained_instance_def)
  let ?s = "\<lparr>sel_sc = race_scheduler\<lparr>meta := h\<rparr>, select_at = Storing (test_instance 0) test_workers, watch_at = Resting\<rparr>"
  have ws: "availableWorkers race_scheduler = test_workers" by (simp add: race_scheduler_def test_scheduler_def)
  have rep: "replace_worker h (test_instance 0) test_workers = test_workers"
    by (simp add: replace_worker_def test_workers_def)
  have pre: "sel_run ([SelBegin test_task, SelStep, SelStep] @ ops) (sel_begin race_scheduler) = sel_run ops ?s" for ops
    using race_choice h(1) rep
    by (simp add: sel_begin_def holds_RLock_def getAvailableWorkers_def ws Let_def) (simp add: test_workers_def)
  have "filter Healthy ?svc = ?svc" by (simp add: stained_instance_def)
  then have "\<not> hasAvailableWorkersChanged (filter Healthy ?svc) (sel_sc ?s)"
    using id by (simp add: hasAvailableWorkersChanged_def getAvailableWorkers_def ws test_workers_def)
  from selection_undoes_notification [OF _ _ this, of "test_instance 0" test_workers]
  obtain s' where s': "sel_run [WatchTest ?svc, WatchStore, SelStep] ?s = Some s'"
    "sel_run [SelStep] ?s = Some s'" "availableWorkers (sel_sc s') = test_workers" by auto
  then have "meta (sel_sc s') = h" by (auto simp: holds_RLock_def setAvailableWorkers_def)
  with s' pre [of "[WatchTest ?svc, WatchStore, SelStep]"] md show ?thesis
    by (auto simp: test_md_stains Parsestain_simps status_defs)
qed

end
