(* ===== verification/FloatBounds.thy ===== *)
theory FloatBounds
  imports Strconv
begin

text \<open>
  How far the results of \<open>Float64\<close> and \<open>Strconv\<close> are from the exact ones: the relative error of a
  rounding, the decimals with two places that \<open>FormatFloat2\<close> prints, and what \<open>ParseFloat\<close> makes
  of them.
\<close>

section \<open>Rounding\<close>

lemma pow2_pos [simp]: "0 < pow2 e"
  by (simp add: pow2_def)

lemma pow2_nonneg [simp]: "0 \<le> pow2 e"
  by (simp add: pow2_def)

lemma pow2_powi: "(of_int (pow2 e) :: rat) / of_int (pow2 (- e)) = 2 powi e"
  by (auto simp: pow2_def power_int_def field_simps)

lemma float_val_powi: "float_val (Fin m e) = of_int m * 2 powi e"
  by (simp add: power_int_def power_one_over inverse_eq_divide)

lemma div_even_near: "0 \<le> n \<Longrightarrow> 0 < d \<Longrightarrow> 2 * \<bar>div_even n d * d - n\<bar> \<le> d"
proof -
  assume "0 \<le> n" "0 < d"
  then have "n = n div d * d + n mod d" "0 \<le> n mod d" "n mod d < d" by simp_all
  moreover from this have "(n div d + 1) * d - n = d - n mod d" "n div d * d - n = - (n mod d)"
    by (simp_all add: algebra_simps)
  ultimately show ?thesis by (auto simp: div_even_def Let_def)
qed

lemma div_even_nonneg: "0 \<le> n \<Longrightarrow> 0 < d \<Longrightarrow> 0 \<le> div_even n d"
  by (auto simp: div_even_def Let_def pos_imp_zdiv_nonneg_iff)

text \<open>The nearest integer is the one within less than one half.\<close>

lemma div_even_unique:
  assumes "0 \<le> n" and "0 < d" and "2 * \<bar>k * d - n\<bar> < d"
  shows "div_even n d = k"
proof -
  have "2 * \<bar>div_even n d * d - n\<bar> \<le> d" using assms(1,2) by (rule div_even_near)
  moreover have "\<bar>a - b\<bar> \<le> \<bar>a - n\<bar> + \<bar>b - n\<bar>" for a b :: int by linarith
  ultimately have "\<bar>div_even n d * d - k * d\<bar> < d" using assms(3) by smt
  then have "\<bar>(div_even n d - k) * d\<bar> < d" by (simp add: left_diff_distrib)
  then have "\<bar>div_even n d - k\<bar> * d < 1 * d" using assms(2) by (simp add: abs_mult)
  then have "\<bar>div_even n d - k\<bar> < 1" using assms(2) mult_less_cancel_right_pos by blast
  then show ?thesis by simp
qed

lemma ilog2_bounds: "0 < n \<Longrightarrow> 0 \<le> ilog2 n \<and> 2 ^ nat (ilog2 n) \<le> n \<and> n < 2 * 2 ^ nat (ilog2 n)"
proof (induction n rule: ilog2.induct)
  case (1 n)
  show ?case
  proof (cases "n < 2")
    case True
    with 1 show ?thesis by (simp add: ilog2.simps)
  next
    case False
    then have "0 < n div 2" by simp
    with 1 False have ih: "0 \<le> ilog2 (n div 2)" "2 ^ nat (ilog2 (n div 2)) \<le> n div 2"
      "n div 2 < 2 * 2 ^ nat (ilog2 (n div 2))" by auto
    moreover have "ilog2 n = 1 + ilog2 (n div 2)" using False by (simp add: ilog2.simps)
    ultimately have "2 ^ nat (ilog2 n) = (2 :: int) * 2 ^ nat (ilog2 (n div 2))" "0 \<le> ilog2 n"
      by (simp_all add: nat_add_distrib)
    with ih show ?thesis by (intro conjI) linarith+
  qed
qed

lemma ilog2_powi:
  assumes "0 < n"
  shows "(2 :: rat) powi ilog2 n \<le> of_int n" and "of_int n < (2 :: rat) powi (ilog2 n + 1)"
proof -
  note b = ilog2_bounds [OF assms]
  then have "(2 :: rat) powi ilog2 n = of_int (2 ^ nat (ilog2 n))"
    by (simp add: power_int_def)
  then show "(2 :: rat) powi ilog2 n \<le> of_int n" using b by (simp only: of_int_le_iff)
  have "(2 :: rat) powi (ilog2 n + 1) = of_int (2 * 2 ^ nat (ilog2 n))"
    using b by (simp add: power_int_def nat_add_distrib)
  then show "of_int n < (2 :: rat) powi (ilog2 n + 1)" using b by (simp only: of_int_less_iff)
qed

text \<open>
  A rounded ratio that is neither tiny nor huge has a relative error of at most \<open>2 ^ (- 53)\<close>.
\<close>

definition near_float :: "float64 \<Rightarrow> rat \<Rightarrow> rat \<Rightarrow> bool" where
  "near_float x v d \<longleftrightarrow> (\<exists>m e. x = Fin m e \<and> 0 \<le> m \<and> \<bar>of_int m * 2 powi e - v\<bar> \<le> d)"

lemma near_mono: "near_float x v d \<Longrightarrow> d \<le> d' \<Longrightarrow> near_float x v d'"
  by (auto simp: near_float_def intro: order_trans)

lemma ratio_exponent:
  fixes v :: rat
  assumes "0 < p" and "0 < q" and v: "v = of_int p / of_int q"
  shows "2 powi (ilog2 p - ilog2 q - 1) < v" and "v < 2 powi (ilog2 p - ilog2 q + 1)"
proof -
  have q: "0 < (of_int q :: rat)" using assms(2) by simp
  have "2 powi (ilog2 p - ilog2 q - 1) = (2 :: rat) powi ilog2 p / 2 powi (ilog2 q + 1)"
    by (simp add: power_int_diff [symmetric] algebra_simps)
  also have "\<dots> < v" unfolding v
    using ilog2_powi [OF assms(1)] ilog2_powi [OF assms(2)] q by (intro frac_less2) auto
  finally show "2 powi (ilog2 p - ilog2 q - 1) < v" .
  have "v < (2 :: rat) powi (ilog2 p + 1) / 2 powi ilog2 q" unfolding v
    using ilog2_powi [OF assms(1)] ilog2_powi [OF assms(2)] q assms(1) by (intro frac_less) auto
  also have "\<dots> = 2 powi (ilog2 p - ilog2 q + 1)"
    by (simp add: power_int_diff [symmetric] algebra_simps)
  finally show "v < 2 powi (ilog2 p - ilog2 q + 1)" .
qed

text \<open>Rounding to a multiple of \<open>2 ^ e\<close> errs by half of it at most.\<close>

lemma abs_scale: "0 < c \<Longrightarrow> \<bar>a - b / c\<bar> * c = \<bar>a * c - b\<bar>" for a b c :: rat
proof -
  assume c: "0 < c"
  then have "a * c - b = (a - b / c) * c" by (simp add: field_simps)
  with c show ?thesis by (simp add: abs_mult)
qed

lemma div_even_scaled:
  assumes "0 \<le> p" and "0 < q"
  shows "\<bar>of_int (div_even (p * pow2 (- e)) (q * pow2 e)) * 2 powi e - of_int p / of_int q\<bar> \<le> (2 powi e :: rat) / 2"
proof -
  define a b where "a = p * pow2 (- e)" and "b = q * pow2 e"
  define m where "m = div_even a b"
  have "2 * \<bar>m * b - a\<bar> \<le> b"
    unfolding m_def using assms by (intro div_even_near) (auto simp: a_def b_def)
  then have "(of_int (2 * \<bar>m * b - a\<bar>) :: rat) \<le> of_int b" by (simp only: of_int_le_iff)
  then have near: "2 * \<bar>of_int m * of_int b - of_int a\<bar> \<le> (of_int b :: rat)" by simp
  have b: "0 < (of_int b :: rat)" using assms(2) by (simp add: b_def)
  have "of_int a / of_int b = of_int p / of_int q / (2 powi e :: rat)"
    by (simp only: a_def b_def pow2_powi [symmetric] of_int_mult times_divide_times_eq
        divide_divide_times_eq)
  moreover have "of_int m - of_int a / of_int b = (of_int m * of_int b - of_int a) / (of_int b :: rat)"
    using b by (simp add: diff_divide_distrib)
  ultimately have "\<bar>of_int m - of_int p / of_int q / 2 powi e\<bar> = \<bar>of_int m * of_int b - of_int a\<bar> / (of_int b :: rat)"
    using b by (simp only: abs_divide abs_of_pos)
  also have "\<dots> \<le> 1 / 2" using near b by (simp add: pos_divide_le_eq)
  finally have "\<bar>of_int m - of_int p / of_int q / 2 powi e\<bar> * 2 powi e \<le> (1 / 2 * 2 powi e :: rat)"
    by (intro mult_right_mono) auto
  moreover have "\<bar>of_int m - of_int p / of_int q / 2 powi e\<bar> * 2 powi e =
      \<bar>(of_int m * 2 powi e - of_int p / of_int q :: rat)\<bar>"
    by (rule abs_scale) simp
  ultimately show ?thesis by (simp only: m_def a_def b_def mult_1 times_divide_eq_left)
qed

lemma round_ratio_near:
  fixes v :: rat
  assumes "0 \<le> p" and "0 < q" and v: "v = of_int p / of_int q"
    and range: "v = 0 \<or> 2 powi (- 100) \<le> v" "v < 2 powi 100"
  shows "near_float (round_ratio False p q) v (v / 2 ^ 53)"
proof (cases "p = 0")
  case True
  then show ?thesis by (simp add: near_float_def round_ratio_def v)
next
  case False
  with assms have p: "0 < p" and vpos: "0 < v" by simp_all
  define k where "k = ilog2 p - ilog2 q"
  define small where "small \<longleftrightarrow> p * pow2 (- k) < q * pow2 k"
  define e0 where "e0 = (if small then k - 53 else k - 52)"
  define m where "m = div_even (p * pow2 (- e0)) (q * pow2 e0)"
  note lohi = ratio_exponent [OF p assms(2) v, folded k_def]
  have "small \<longleftrightarrow> (of_int (p * pow2 (- k)) :: rat) < of_int (q * pow2 k)"
    unfolding small_def of_int_less_iff ..
  also have "\<dots> \<longleftrightarrow> v < of_int (pow2 k) / of_int (pow2 (- k))"
    using assms(2) by (simp add: v field_simps)
  finally have "small \<longleftrightarrow> v < 2 powi k" by (simp only: pow2_powi)
  with lohi(1) have exp: "2 powi (e0 + 52) \<le> v" by (auto simp: e0_def algebra_simps)
  have "(2 :: rat) powi (- 100) < 2 powi (k + 1)" "(2 :: rat) powi (k - 1) < 2 powi 100"
    using range vpos lohi by linarith+
  then have "- 101 < k" "k - 1 < 100"
    using power_int_increasing [of "k + 1" "- 100" "2 :: rat"] power_int_increasing [of 100 "k - 1" "2 :: rat"]
    by linarith+
  then have e0: "max (- 1074) e0 = e0" "\<not> e0 > 971" "e0 \<noteq> 971" by (auto simp: e0_def)
  then have "round_ratio False p q = Fin m e0"
    using False by (simp only: round_ratio_def Let_def k_def [symmetric] small_def [symmetric]
        e0_def [symmetric] m_def [symmetric] e0 if_False simp_thms)
  moreover have "0 \<le> m" unfolding m_def using assms(1,2) by (intro div_even_nonneg) auto
  moreover have "\<bar>of_int m * 2 powi e0 - v\<bar> \<le> 2 powi e0 / 2"
    unfolding m_def v by (rule div_even_scaled [OF assms(1,2)])
  moreover have "(2 powi e0 :: rat) / 2 \<le> v / 2 ^ 53"
    using exp by (simp add: power_int_add)
  ultimately show ?thesis unfolding near_float_def by (auto intro: order_trans)
qed

section \<open>Sums and comparisons\<close>

lemma near_add:
  assumes x: "near_float x v d" and y: "near_float y w d'"
    and range: "2 powi (- 100) \<le> v + w - d - d'" "v + w + d + d' < 2 powi 100"
  shows "near_float (float_add x y) (v + w) (d + d' + (v + w + d + d') / 2 ^ 53)"
proof -
  obtain m e where x': "x = Fin m e" "0 \<le> m" "\<bar>of_int m * 2 powi e - v\<bar> \<le> d"
    using x by (auto simp: near_float_def)
  obtain n f where y': "y = Fin n f" "0 \<le> n" "\<bar>of_int n * 2 powi f - w\<bar> \<le> d'"
    using y by (auto simp: near_float_def)
  define g where "g = min e f"
  define p where "p = (m * pow2 (e - g) + n * pow2 (f - g)) * pow2 g"
  let ?r = "of_int m * 2 powi e + of_int n * 2 powi f :: rat"
  have scale: "of_int (pow2 (h - g)) * (of_int (pow2 g) / of_int (pow2 (- g))) = (2 powi h :: rat)"
    if "g \<le> h" for h
  proof -
    have "of_int (pow2 (h - g)) = (2 powi (h - g) :: rat)" using that by (simp add: pow2_def power_int_def)
    then show ?thesis by (simp only: pow2_powi) (simp add: power_int_add [symmetric])
  qed
  have "of_int p / of_int (pow2 (- g)) =
      of_int m * (of_int (pow2 (e - g)) * (of_int (pow2 g) / of_int (pow2 (- g)))) +
      of_int n * (of_int (pow2 (f - g)) * (of_int (pow2 g) / (of_int (pow2 (- g)) :: rat)))"
    by (simp add: p_def distrib_right add_divide_distrib)
  also have "\<dots> = ?r" by (subst (1 2) scale) (simp_all add: g_def)
  finally have r: "?r = of_int p / of_int (pow2 (- g))" ..
  have p: "0 \<le> p" using x' y' by (simp add: p_def)
  have close: "\<bar>?r - (v + w)\<bar> \<le> d + d'" using x'(3) y'(3) by linarith
  have "near_float (round_ratio False p (pow2 (- g))) ?r (?r / 2 ^ 53)"
    using close range by (intro round_ratio_near [OF p pow2_pos r]) linarith+
  moreover have "float_add x y = round_signed p (pow2 (- g))" by (simp add: x' y' p_def g_def Let_def)
  then have "float_add x y = round_ratio False p (pow2 (- g))" using p by (simp add: round_signed_def)
  moreover have "?r / 2 ^ 53 \<le> (v + w + d + d') / 2 ^ 53" using close by (simp add: divide_right_mono)
  ultimately obtain k h where "float_add x y = Fin k h" "0 \<le> k"
    "\<bar>of_int k * 2 powi h - ?r\<bar> \<le> (v + w + d + d') / 2 ^ 53"
    by (fastforce simp: near_float_def)
  with close show ?thesis unfolding near_float_def by (intro exI [of _ k] exI [of _ h]) linarith
qed

text \<open>Two values whose distance exceeds their errors compare as the exact ones.\<close>

lemma near_less:
  assumes "near_float x v d" and "near_float y w d'" and "v + d < w - d'"
  shows "float_less x y" and "\<not> float_less y x"
proof -
  obtain m e where x: "x = Fin m e" "\<bar>of_int m * 2 powi e - v\<bar> \<le> d" using assms(1) by (auto simp: near_float_def)
  obtain n f where y: "y = Fin n f" "\<bar>of_int n * 2 powi f - w\<bar> \<le> d'" using assms(2) by (auto simp: near_float_def)
  have "float_val x < float_val y" unfolding x(1) y(1) float_val_powi using x(2) y(2) assms(3) by linarith
  then show "float_less x y" "\<not> float_less y x" by (simp_all only: x(1) y(1) float_less_Fin)
qed

section \<open>Decimals with two places\<close>

text \<open>The decimal of \<open>n\<close> hundredths, as \<open>FormatFloat2\<close> prints it.\<close>

definition decimal :: "int \<Rightarrow> string" where
  "decimal n = digits_of (n div 100) @ ''.'' @ [char_of (48 + n mod 100 div 10), char_of (48 + n mod 10)]"

lemma FormatFloat2_near:
  assumes "near_float x (of_int n / 100) d" and "d < 1 / 200" and "0 \<le> n"
  shows "FormatFloat2 x = decimal n"
proof -
  obtain m e where x: "x = Fin m e" "0 \<le> m" "\<bar>of_int m * 2 powi e - of_int n / 100\<bar> \<le> d"
    using assms(1) by (auto simp: near_float_def)
  let ?b = "of_int (pow2 (- e)) :: rat"
  have b: "0 < ?b" by simp
  have "\<bar>of_int n - of_int (m * 100) * (2 powi e :: rat)\<bar> < 1 / 2"
  proof -
    define t where "t = of_int m * (2 powi e :: rat)"
    have "\<bar>of_int n - t * 100\<bar> < 1 / 2" using x(3) assms(2) unfolding t_def [symmetric] by linarith
    then show ?thesis by (simp add: t_def mult_ac)
  qed
  then have "\<bar>of_int n - of_int (m * 100 * pow2 e) / ?b\<bar> < 1 / 2" by (simp add: pow2_powi [symmetric])
  then have "\<bar>of_int n - of_int (m * 100 * pow2 e) / ?b\<bar> * ?b < 1 / 2 * ?b" by (intro mult_strict_right_mono b)
  then have "\<bar>of_int n * ?b - of_int (m * 100 * pow2 e)\<bar> < 1 / 2 * ?b" by (simp only: abs_scale [OF b])
  then have "(of_int (2 * \<bar>n * pow2 (- e) - m * 100 * pow2 e\<bar>) :: rat) < of_int (pow2 (- e))" by simp
  then have "2 * \<bar>n * pow2 (- e) - m * 100 * pow2 e\<bar> < pow2 (- e)" by (simp only: of_int_less_iff)
  then have "div_even (m * 100 * pow2 e) (pow2 (- e)) = n"
    using x(2) by (intro div_even_unique) auto
  with x(1,2) show ?thesis by (simp add: FormatFloat2_def decimal_def Let_def)
qed

abbreviation digit :: "int \<Rightarrow> char" where
  "digit d \<equiv> char_of (48 + d)"

lemma digit_char:
  assumes "0 \<le> d" and "d < 10"
  shows "digit_val (digit d) = Some d" "digit d \<noteq> CHR ''_''" "digit d \<noteq> CHR ''.''" "lower (digit d) = 48 + d"
    "digit d \<noteq> CHR ''+''" "digit d \<noteq> CHR ''-''"
proof -
  have code: "(of_char (digit d) :: int) = 48 + d" using assms by simp
  then show "digit_val (digit d) = Some d" "lower (digit d) = 48 + d"
    using assms by (simp_all add: digit_val_def lower_def Let_def)
  show "digit d \<noteq> CHR ''_''" "digit d \<noteq> CHR ''.''" "digit d \<noteq> CHR ''+''" "digit d \<noteq> CHR ''-''"
    using assms by (auto dest!: arg_cong [of _ _ "of_char :: char \<Rightarrow> int"])
qed

definition is_digit :: "char \<Rightarrow> bool" where
  "is_digit c \<longleftrightarrow> (\<exists>d. 0 \<le> d \<and> d < 10 \<and> c = digit d)"

lemma is_digit [intro]: "0 \<le> d \<Longrightarrow> d < 10 \<Longrightarrow> is_digit (digit d)"
  unfolding is_digit_def by blast

lemma is_digit_lower: "is_digit c \<Longrightarrow> lower c \<noteq> 120"
  by (auto simp only: is_digit_def digit_char)

lemma digits_of_digits: "0 \<le> n \<Longrightarrow> c \<in> set (digits_of n) \<Longrightarrow> is_digit c"
proof (induction n rule: digits_of.induct)
  case (1 n)
  show ?case
  proof (cases "n < 10")
    case True
    with 1(3) have "c = digit n" by (simp add: digits_of.simps [of n])
    with 1(2) True show ?thesis by (simp add: is_digit)
  next
    case False
    with 1(3) have "c \<in> set (digits_of (n div 10)) \<or> c = digit (n mod 10)"
      by (simp add: digits_of.simps [of n]) blast
    moreover have "is_digit (digit (n mod 10))" by (rule is_digit) simp_all
    moreover have "0 \<le> n div 10" using 1(2) by simp
    ultimately show ?thesis using 1(1) [OF False] by blast
  qed
qed

lemma scan_digit:
  "0 \<le> d \<Longrightarrow> d < 10 \<Longrightarrow> scan_mantissa False (digit d # cs) dot sd m f =
     scan_mantissa False cs dot True (m * 10 + d) (if dot then f + 1 else f)"
  by (simp only: scan_mantissa.simps digit_char if_False option.case)

lemma scan_dot: "scan_mantissa False (CHR ''.'' # cs) False sd m f = scan_mantissa False cs True sd m f"
  by simp

lemma digits_of_scan:
  "0 \<le> n \<Longrightarrow> scan_mantissa False (digits_of n @ rest) False sd 0 0 = scan_mantissa False rest False True n 0"
proof (induction n arbitrary: rest rule: digits_of.induct)
  case (1 n)
  show ?case
  proof (cases "n < 10")
    case True
    then have "digits_of n @ rest = digit n # rest" by (simp add: digits_of.simps [of n])
    with scan_digit [OF 1(2) True] show ?thesis by simp
  next
    case False
    have d: "0 \<le> n mod 10" "n mod 10 < 10" and n: "n div 10 * 10 + n mod 10 = n" "0 \<le> n div 10"
      using 1(2) by simp_all
    have "scan_mantissa False (digits_of n @ rest) False sd 0 0 =
        scan_mantissa False (digits_of (n div 10) @ digit (n mod 10) # rest) False sd 0 0"
      using False by (simp add: digits_of.simps [of n])
    also have "\<dots> = scan_mantissa False rest False True n 0"
      by (simp only: 1(1) [OF False n(2)] scan_digit [OF d] n if_False)
    finally show ?thesis .
  qed
qed

text \<open>The shape of a decimal: a digit, something, and nothing but digits and the point.\<close>

lemma decimal_set:
  assumes "0 \<le> n" and "c \<in> set (decimal n)"
  shows "c = CHR ''.'' \<or> is_digit c"
proof -
  have "is_digit (digit (n mod 100 div 10))" "is_digit (digit (n mod 10))" by (auto intro!: is_digit)
  moreover have "c \<in> set (digits_of (n div 100)) \<Longrightarrow> is_digit c"
    using assms(1) by (intro digits_of_digits [of "n div 100"]) simp_all
  ultimately show ?thesis using assms(2) unfolding decimal_def by auto
qed

lemma decimal_Cons:
  assumes "0 \<le> n"
  obtains c x xs where "decimal n = c # x # xs" "is_digit c" "lower x \<noteq> 120"
proof -
  obtain c cs where c: "digits_of (n div 100) = c # cs"
    by (cases "digits_of (n div 100)") (auto simp: digits_of.simps [of "n div 100"] split: if_splits)
  then have d: "is_digit c" using assms digits_of_digits [of "n div 100" c] by simp
  obtain x xs where x: "decimal n = c # x # xs" by (cases cs) (auto simp: decimal_def c)
  have "lower CHR ''.'' \<noteq> 120" by (simp add: lower_def Let_def)
  then have "lower x \<noteq> 120" using decimal_set [OF assms, of x] is_digit_lower [of x] unfolding x by auto
  with x d show thesis using that by blast
qed

lemma decimal_scan:
  assumes "0 \<le> n"
  shows "scan_mantissa False (decimal n) False False 0 0 = (n, 2, True, [])"
proof -
  have d: "0 \<le> n mod 100 div 10" "n mod 100 div 10 < 10" "0 \<le> n mod 10" "n mod 10 < 10" by simp_all
  have n: "0 \<le> n div 100" "n div 100 * 10 + n mod 100 div 10 = n div 10" "n div 10 * 10 + n mod 10 = n"
  proof -
    have "n div 10 = n div 100 * 10 + n div 10 mod 10"
      using div_mult_mod_eq [of "n div 10" 10] by (simp add: zdiv_zmult2_eq [symmetric])
    moreover have "n mod 100 div 10 = n div 10 mod 10"
      using mod_mult2_eq' [of n 10 10] by (simp add: zmod_zmult2_eq)
    ultimately show "n div 100 * 10 + n mod 100 div 10 = n div 10" by simp
  qed (use assms in simp_all)
  have "scan_mantissa False (decimal n) False False 0 0 =
      scan_mantissa False [digit (n mod 100 div 10), digit (n mod 10)] True True (n div 100) 0"
    by (simp only: decimal_def append.simps digits_of_scan [OF n(1)] scan_dot)
  also have "\<dots> = (n, 2, True, [])"
    by (simp only: scan_digit [OF d(1,2)] scan_digit [OF d(3,4)] n if_True scan_mantissa.simps(1) arith_simps add_0) simp
  finally show ?thesis .
qed

lemma ParseFloat_decimal:
  assumes "0 \<le> n"
  shows "ParseFloat (decimal n) = round_ratio False n 100"
proof -
  obtain c x xs where s: "decimal n = c # x # xs" and c: "is_digit c" and x: "lower x \<noteq> 120"
    using decimal_Cons [OF assms] by blast
  then obtain d where d: "0 \<le> d" "d < 10" "c = digit d" by (auto simp: is_digit_def)
  have "special_float (decimal n) = None"
    using d digit_char(4) [OF d(1,2)] by (auto simp: special_float_def s Let_def)
  moreover have "read_float (decimal n) = Some (False, False, n, - 2)"
  proof -
    have und: "CHR ''_'' \<notin> set (decimal n)"
      using decimal_set [OF assms, of "CHR ''_''"] digit_char(2) unfolding is_digit_def by fastforce
    have sign: "(case decimal n of CHR ''+'' # cs \<Rightarrow> (False, cs) | CHR ''-'' # cs \<Rightarrow> (True, cs)
        | _ \<Rightarrow> (False, decimal n)) = (False, decimal n)"
      using digit_char(5,6) [OF d(1,2)] unfolding s d(3) [symmetric] by (auto split: list.split char.split bool.split)
    have hex: "\<not> (case decimal n of CHR ''0'' # x # _ # _ \<Rightarrow> lower x = 120 | _ \<Rightarrow> False)"
      using x unfolding s by (auto split: list.split char.split bool.split)
    show ?thesis unfolding read_float_def sign Let_def split_conv
      using hex und by (simp add: decimal_scan [OF assms] read_exp_def)
  qed
  ultimately show ?thesis by (simp add: ParseFloat_def)
qed

section \<open>Reading and printing decimals\<close>

lemma int_range:
  assumes "0 \<le> n" and "n < 2 ^ k"
  shows "(of_int n :: rat) < 2 ^ k" and "n = 0 \<or> (1 :: rat) \<le> of_int n"
proof -
  have "(of_int n :: rat) < of_int (2 ^ k)" using assms(2) by (simp only: of_int_less_iff)
  then show "(of_int n :: rat) < 2 ^ k" by simp
  show "n = 0 \<or> (1 :: rat) \<le> of_int n" using assms(1) by auto
qed

lemma tiny: "(2 :: rat) powi (- 100) \<le> 1 / 100"
  by (simp add: power_int_def power_one_over)

lemma parse_near:
  assumes "0 \<le> n" and "n < 2 ^ 90"
  shows "near_float (ParseFloat (decimal n)) (of_int n / 100) (of_int n / 100 / 2 ^ 53)"
proof -
  have "of_int n / 100 = (0 :: rat) \<or> 2 powi (- 100) \<le> (of_int n / 100 :: rat)"
    using int_range(2) [OF assms] tiny by (auto simp: divide_right_mono intro: order_trans)
  moreover have "of_int n / 100 < (2 powi 100 :: rat)" using int_range(1) [OF assms] by (simp add: power_int_def)
  ultimately have "near_float (round_ratio False n 100) (of_int n / 100) (of_int n / 100 / 2 ^ 53)"
    using assms(1) by (intro round_ratio_near) simp_all
  then show ?thesis by (simp only: ParseFloat_decimal [OF assms(1)])
qed

lemma decimal_roundtrip:
  assumes "0 \<le> n" and "n < 2 ^ 50"
  shows "FormatFloat2 (ParseFloat (decimal n)) = decimal n"
proof (rule FormatFloat2_near)
  show "near_float (ParseFloat (decimal n)) (of_int n / 100) (of_int n / 100 / 2 ^ 53)"
    using assms by (intro parse_near) simp_all
  show "of_int n / 100 / 2 ^ 53 < (1 / 200 :: rat)" using int_range(1) [OF assms] by simp
qed (rule assms(1))

text \<open>The sum of two decimals, the second a constant of the source that is not zero, is exact after printing.\<close>

lemma decimal_sum:
  assumes "0 \<le> n" and "n < 2 ^ 50" and k: "k = 5 \<or> k = 100"
    and y: "near_float y (of_int k / 100) (of_int k / 100 / 2 ^ 53)"
  shows "FormatFloat2 (float_add (ParseFloat (decimal n)) y) = decimal (n + k)"
proof (rule FormatFloat2_near)
  have n: "(0 :: rat) \<le> of_int n" "(of_int n :: rat) < of_int (2 ^ 50)"
    using assms(1,2) by (simp_all only: of_int_less_iff of_int_0_le_iff)
  have k': "(of_int k :: rat) = 5 \<or> (of_int k :: rat) = 100" using k by auto
  let ?d = "of_int n / 100 / 2 ^ 53 + of_int k / 100 / 2 ^ 53 +
    (of_int n / 100 + of_int k / 100 + of_int n / 100 / 2 ^ 53 + of_int k / 100 / 2 ^ 53) / 2 ^ 53 :: rat"
  have "near_float (float_add (ParseFloat (decimal n)) y) (of_int n / 100 + of_int k / 100) ?d"
  proof (intro near_add parse_near y)
    show "2 powi (- 100) \<le> of_int n / 100 + of_int k / 100 - of_int n / 100 / 2 ^ 53 - (of_int k / 100 / 2 ^ 53 :: rat)"
      using n k' tiny by (elim disjE) simp_all
    show "of_int n / 100 + of_int k / 100 + of_int n / 100 / 2 ^ 53 + of_int k / 100 / 2 ^ 53 < (2 powi 100 :: rat)"
      using n k' by (elim disjE) (simp_all add: power_int_def)
  qed (use assms in simp_all)
  then show "near_float (float_add (ParseFloat (decimal n)) y) (of_int (n + k) / 100) ?d"
    by (simp add: add_divide_distrib)
  show "?d < 1 / 200" using n k' by (elim disjE) (simp_all add: field_simps)
  show "0 \<le> n + k" using assms(1) k by auto
qed

lemma near_5_cents: "near_float (float_const 5 100) (of_int 5 / 100) (of_int 5 / 100 / 2 ^ 53)"
proof -
  have "near_float (round_ratio False 5 100) (of_int 5 / of_int 100) (of_int 5 / of_int 100 / 2 ^ 53)"
    using tiny by (intro round_ratio_near) (simp_all add: power_int_def)
  then show ?thesis by (simp add: float_const_def round_signed_def)
qed

lemma near_of_int:
  assumes "0 \<le> n" and "n < 2 ^ 90"
  shows "near_float (float_of_int n) (of_int n) (of_int n / 2 ^ 53)"
proof -
  have "of_int n = (0 :: rat) \<or> 2 powi (- 100) \<le> (of_int n :: rat)"
    using int_range(2) [OF assms] tiny by (auto intro: order_trans)
  moreover have "of_int n < (2 powi 100 :: rat)" using int_range(1) [OF assms] by (simp add: power_int_def)
  ultimately have "near_float (round_ratio False n 1) (of_int n) (of_int n / 2 ^ 53)"
    using assms(1) by (intro round_ratio_near) simp_all
  then show ?thesis using assms(1) by (simp add: float_of_int_def round_signed_def)
qed

text \<open>The comparison with an integer constant is exact.\<close>

lemma decimal_greater:
  assumes "0 \<le> n" and "n < 2 ^ 50"
  shows "float_less (float_of_int 85) (ParseFloat (decimal n)) \<longleftrightarrow> 8500 < n"
proof -
  have n: "(0 :: rat) \<le> of_int n" "(of_int n :: rat) < of_int (2 ^ 50)"
    using assms by (simp_all only: of_int_less_iff of_int_0_le_iff)
  have p: "near_float (ParseFloat (decimal n)) (of_int n / 100) (of_int n / 100 / 2 ^ 53)"
    using assms by (intro parse_near) simp_all
  have c: "near_float (float_of_int 85) 85 (85 / 2 ^ 53)" using near_of_int [of 85] by simp
  consider "n < 8500" | "n = 8500" | "8500 < n" by linarith
  then show ?thesis
  proof cases
    case 1
    then have "(of_int n :: rat) \<le> of_int 8499" by (simp only: of_int_le_iff)
    then have "of_int n / 100 + of_int n / 100 / 2 ^ 53 < 85 - (85 / 2 ^ 53 :: rat)" by simp
    from near_less(2) [OF p c this] 1 show ?thesis by simp
  next
    case 2
    have "\<not> float_less (float_of_int 85) (round_ratio False 8500 100)" by code_simp
    with 2 ParseFloat_decimal [OF assms(1)] show ?thesis by simp
  next
    case 3
    then have "(of_int 8501 :: rat) \<le> of_int n" by (simp only: of_int_le_iff)
    then have "85 + 85 / 2 ^ 53 < of_int n / 100 - (of_int n / 100 / 2 ^ 53 :: rat)" by simp
    from near_less(1) [OF c p this] 3 show ?thesis by simp
  qed
qed

end
