(* ===== verification/Usage.thy ===== *)
theory Usage
  imports Scheduler FloatBounds
begin

text \<open>
  The resource usages as numbers: what \<open>GenerateResourceUsage\<close> prints with two decimal places, what
  \<open>ParseResourceUsage\<close> reads of it, the limit of the stains, and the local estimates of the scheduler
  that are read, changed and printed again at every assignment.
\<close>

section \<open>What is printed is a decimal\<close>

text \<open>A value that a probe may return: finite, not negative, and below \<open>2 ^ 43\<close>.\<close>

definition sane :: "float64 \<Rightarrow> bool" where
  "sane x \<longleftrightarrow> (\<exists>m e. x = Fin m e \<and> 0 \<le> m) \<and> float_val x < 2 ^ 43"

lemma near_sane: "near_float x v d \<Longrightarrow> v + d < 2 ^ 43 \<Longrightarrow> sane x"
  by (auto simp: near_float_def sane_def float_val_powi simp del: float_val.simps)

lemma sane_decimal:
  assumes "sane x"
  obtains n where "0 \<le> n" "n < 2 ^ 50" "FormatFloat2 x = decimal n"
proof -
  obtain m e where x: "x = Fin m e" "0 \<le> m" and v: "of_int m * 2 powi e < (2 ^ 43 :: rat)"
    using assms by (auto simp: sane_def float_val_powi simp del: float_val.simps)
  define n where "n = div_even (m * 100 * pow2 e) (pow2 (- e))"
  have "\<bar>of_int n - of_int m * 100 * (2 powi e :: rat)\<bar> \<le> 1 / 2"
  proof -
    let ?b = "of_int (pow2 (- e)) :: rat"
    have b: "0 < ?b" by simp
    have "2 * \<bar>n * pow2 (- e) - m * 100 * pow2 e\<bar> \<le> pow2 (- e)"
      unfolding n_def using x(2) by (intro div_even_near) auto
    then have "(of_int (2 * \<bar>n * pow2 (- e) - m * 100 * pow2 e\<bar>) :: rat) \<le> ?b" by (simp only: of_int_le_iff)
    then have "\<bar>of_int n * ?b - of_int (m * 100 * pow2 e)\<bar> \<le> 1 / 2 * ?b" by simp
    then have "\<bar>of_int n - of_int (m * 100 * pow2 e) / ?b\<bar> * ?b \<le> 1 / 2 * ?b" by (simp only: abs_scale [OF b])
    then have "\<bar>of_int n - of_int (m * 100 * pow2 e) / ?b\<bar> \<le> 1 / 2" using b by (simp only: mult_le_cancel_right_pos)
    then show ?thesis by (simp add: pow2_powi [symmetric])
  qed
  moreover define t where "t = of_int m * (2 powi e :: rat)"
  ultimately have "\<bar>of_int n - t * 100\<bar> \<le> 1 / 2" by (simp add: mult_ac)
  moreover have "t < 8796093022208" using v by (simp add: t_def)
  ultimately have "(of_int n :: rat) < 1125899906842624" by linarith
  then have "(of_int n :: rat) < of_int (2 ^ 50)" by simp
  then have "n < 2 ^ 50" by (simp only: of_int_less_iff)
  moreover have "0 \<le> n" unfolding n_def using x(2) by (intro div_even_nonneg) auto
  moreover have "FormatFloat2 x = decimal n" using x by (simp add: FormatFloat2_def decimal_def n_def Let_def)
  ultimately show thesis using that by blast
qed

lemma sane_of_int: "0 \<le> n \<Longrightarrow> n < 2 ^ 42 \<Longrightarrow> sane (float_of_int n)"
  using int_range(1) [of n 42] by (intro near_sane [OF near_of_int]) simp_all

text \<open>A number of bytes in gibibytes.\<close>

lemma sane_gib:
  assumes "0 \<le> n" and "n < 2 ^ 64"
  shows "sane (float_div (float_of_int n) (float_of_int (1024 * 1024 * 1024)))"
proof (cases "n = 0")
  case True
  have "float_div (float_of_int 0) (float_of_int (1024 * 1024 * 1024)) = Fin 0 0" by code_simp
  with True show ?thesis by (simp add: sane_def)
next
  case False
  have g: "float_of_int (1024 * 1024 * 1024) = Fin (2 ^ 52) (- 22)" by code_simp
  have n: "(1 :: rat) \<le> of_int n" "(of_int n :: rat) < 2 ^ 64" using False int_range [OF assms] by auto
  obtain m e where x: "float_of_int n = Fin m e" "0 \<le> m" "\<bar>of_int m * 2 powi e - of_int n\<bar> \<le> (of_int n / 2 ^ 53 :: rat)"
    using near_of_int [of n] assms by (auto simp: near_float_def)
  define p q where "p = m * pow2 (e + 22)" and "q = 2 ^ 52 * pow2 (- (e + 22))"
  have pq: "0 \<le> p" "0 < q" using x(2) by (simp_all add: p_def q_def)
  have "of_int p / of_int q = of_int m / 2 ^ 52 * (of_int (pow2 (e + 22)) / of_int (pow2 (- (e + 22))) :: rat)"
    by (simp add: p_def q_def)
  then have v: "of_int p / of_int q = of_int m * 2 powi e / (2 ^ 30 :: rat)"
    by (simp only: pow2_powi) (simp add: power_int_add)
  have r: "1 / 2 \<le> of_int m * (2 powi e :: rat)" "of_int m * 2 powi e < (2 ^ 65 :: rat)"
  proof -
    define t where "t = of_int m * (2 powi e :: rat)"
    have "\<bar>t - of_int n\<bar> \<le> of_int n / 9007199254740992" using x(3) by (simp add: t_def)
    moreover have "(of_int n :: rat) < 18446744073709551616" using n(2) by simp
    ultimately have "1 / 2 \<le> t" "t < 36893488147419103232" using n(1) by linarith+
    then have "1 / 2 \<le> t" "t < 2 ^ 65" by simp_all
    then show "1 / 2 \<le> of_int m * (2 powi e :: rat)" "of_int m * 2 powi e < (2 ^ 65 :: rat)" by (simp_all only: t_def)
  qed
  have "near_float (round_ratio False p q) (of_int p / of_int q) (of_int p / of_int q / 2 ^ 53)"
  proof (rule round_ratio_near [OF pq refl])
    have "2 powi (- 100) \<le> (1 / 2 / 2 ^ 30 :: rat)" by (simp add: power_int_def power_one_over)
    also have "\<dots> \<le> of_int p / of_int q" unfolding v using r(1) by (rule divide_right_mono) simp
    finally show "of_int p / of_int q = (0 :: rat) \<or> 2 powi (- 100) \<le> (of_int p / of_int q :: rat)" ..
    show "of_int p / of_int q < (2 powi 100 :: rat)" unfolding v using r(2) by (simp add: power_int_def)
  qed
  moreover have "float_div (float_of_int n) (float_of_int (1024 * 1024 * 1024)) = round_ratio False p q"
  proof -
    have shift: "e - - 22 = e + 22" "- 22 - e = - (e + 22)" by simp_all
    from pq(1) show ?thesis
      by (simp only: g x(1) float_div.simps shift) (simp add: p_def q_def round_signed_def mult.commute)
  qed
  ultimately show ?thesis unfolding v using r(2) by (auto intro!: near_sane)
qed

section \<open>Properties\<close>

text \<open>
  C23: a reported usage survives the way to the scheduler and back.  If the probes return finite values
  that are not negative (percentages and counters below \<open>2 ^ 42\<close>, sizes of 64 bits), then printing the
  number that \<open>ParseResourceUsage\<close> reads of an entry gives the entry again, for all seven entries.
\<close>

theorem usage_roundtrip:
  assumes "GenerateResourceUsage (Ok (cpu # cpus)) (Ok (tot, used, percent)) pause gcs goroutines = Return (Ok ru)"
    and "sane cpu" and "sane percent" and "0 \<le> tot" "tot < 2 ^ 64" and "0 \<le> used" "used < 2 ^ 64"
    and "0 \<le> pause" "pause < 2 ^ 42" and "0 \<le> gcs" "gcs < 2 ^ 42" and "0 \<le> goroutines" "goroutines < 2 ^ 42"
    and "ru k = Some v"
  shows "FormatFloat2 (usage_of (ParseResourceUsage ru) k) = v"
proof -
  have print: "FormatFloat2 (ParseFloat (FormatFloat2 x)) = FormatFloat2 x" if "sane x" for x
    using sane_decimal [OF that] decimal_roundtrip by metis
  have "\<exists>x. sane x \<and> v = FormatFloat2 x \<and> HasPrefix k ''rs_''"
    using assms(1,14) assms(2,3) sane_gib [OF assms(4,5)] sane_gib [OF assms(6,7)] sane_of_int [OF assms(8,9)]
      sane_of_int [OF assms(10,11)] sane_of_int [OF assms(12,13)]
    by (auto simp: GenerateResourceUsage_def split: if_splits)
  with assms(14) print show ?thesis by (auto simp: usage_of_def ParseResourceUsage_def)
qed

text \<open>
  C22: the limit of the stains is exact.  For a memory usage of \<open>n\<close> hundredths of a percent both
  pressure stains are set exactly if \<open>n\<close> is more than 8500, whatever the rounding of the binary
  numbers does; no other stain is set, but the one that disables the worker if it is asked for.
\<close>

theorem memory_stain_exact:
  assumes "ru MemUsageKey = Some (decimal n)" and "0 \<le> n" and "n < 2 ^ 50"
  shows "\<exists>stain. GenerateStain ru disable = Ok stain \<and>
    (stain stainPressureMem = (if 8500 < n then Some ''high'' else None)) \<and>
    (stain stainPressureCPU = (if 8500 < n then Some ''high'' else None)) \<and>
    (stain stainDisable = (if disable then Some ''true'' else None)) \<and>
    dom stain \<subseteq> {stainPressureMem, stainPressureCPU, stainDisable}"
proof -
  have "float_less (float_of_int 85) (usage_of (ParseResourceUsage ru) MemUsageKey) \<longleftrightarrow> 8500 < n"
    using decimal_greater [OF assms(2,3)] assms(1) by (simp add: usage_of_def ParseResourceUsage_def)
  then show ?thesis by (simp add: GenerateStain_def Let_def)
qed

text \<open>The usages that the local estimates are about, in hundredths.\<close>

definition usage_decimals :: "int \<Rightarrow> int \<Rightarrow> int \<Rightarrow> (string \<rightharpoonup> string) \<Rightarrow> bool" where
  "usage_decimals a b c md \<longleftrightarrow> md CpuUsageKey = Some (decimal a) \<and> md MemUsageKey = Some (decimal b) \<and>
     md GoGoroutineKey = Some (decimal c)"

text \<open>\<open>k\<close> estimates for the same worker, one after the other.\<close>

fun estimates :: "nat \<Rightarrow> Instance \<Rightarrow> 'r Scheduler \<Rightarrow> 'r Scheduler run" where
  "estimates 0 w s = Return s"
| "estimates (Suc k) w s =
     (case updateLocalResourceEstimate w s of Panic \<Rightarrow> Panic | Return s1 \<Rightarrow> estimates k w s1)"

lemma estimate_once:
  assumes w: "Metadata w = Some p" and u: "usage_decimals a b c (meta s p)"
    and r: "0 \<le> a" "a < 2 ^ 50" "0 \<le> b" "b < 2 ^ 50" "0 \<le> c" "c < 2 ^ 50"
  obtains s1 where "updateLocalResourceEstimate w s = Return s1" "usage_decimals (a + 5) (b + 5) (c + 100) (meta s1 p)"
    "\<And>q. q \<noteq> p \<Longrightarrow> meta s1 q = meta s q" "repo_state s1 = repo_state s"
    "\<And>k. k \<notin> {CpuUsageKey, MemUsageKey, GoGoroutineKey} \<Longrightarrow> meta s1 p k = meta s p k"
proof -
  have one: "near_float (float_of_int 1) (of_int 100 / 100) (of_int 100 / 100 / 2 ^ 53)" using near_of_int [of 1] by simp
  have "FormatFloat2 (float_add (ParseFloat (decimal a)) (float_const 5 100)) = decimal (a + 5)"
    "FormatFloat2 (float_add (ParseFloat (decimal b)) (float_const 5 100)) = decimal (b + 5)"
    "FormatFloat2 (float_add (ParseFloat (decimal c)) (float_of_int 1)) = decimal (c + 100)"
    using r decimal_sum [OF _ _ _ near_5_cents] decimal_sum [OF _ _ _ one] by simp_all
  with w u have "updateLocalResourceEstimate w s = Return (updateWorkerInCache w (s\<lparr>meta := (meta s)(p := (meta s p)
      (CpuUsageKey \<mapsto> decimal (a + 5), MemUsageKey \<mapsto> decimal (b + 5), GoGoroutineKey \<mapsto> decimal (c + 100)))\<rparr>))"
    by (simp add: updateLocalResourceEstimate_def write_estimates_def usage_decimals_def meta_write_def metadata_def usage_of_def
        ParseResourceUsage_def Let_def)
  then show thesis by (rule that) (auto simp: usage_decimals_def)
qed

text \<open>
  C21: the local estimates add up exactly.  After \<open>k\<close> assignments to one worker its CPU and memory
  usage have grown by exactly \<open>k\<close> times 0.05 and its number of goroutines by exactly \<open>k\<close>, although every
  assignment goes through a decimal, a binary number, a sum and a decimal again; nothing else in the
  metadata of any worker changes.
\<close>

theorem estimates_add_up:
  assumes "Metadata w = Some p" and "usage_decimals a b c (meta s p)"
    and "0 \<le> a" "a + 5 * int k < 2 ^ 50" and "0 \<le> b" "b + 5 * int k < 2 ^ 50"
    and "0 \<le> c" "c + 100 * int k < 2 ^ 50"
  shows "\<exists>s'. estimates k w s = Return s' \<and>
    usage_decimals (a + 5 * int k) (b + 5 * int k) (c + 100 * int k) (meta s' p) \<and>
    (\<forall>q. q \<noteq> p \<longrightarrow> meta s' q = meta s q) \<and>
    (\<forall>x. x \<notin> {CpuUsageKey, MemUsageKey, GoGoroutineKey} \<longrightarrow> meta s' p x = meta s p x)"
  using assms(2-)
proof (induction k arbitrary: a b c s)
  case (Suc k)
  obtain s1 where s1: "updateLocalResourceEstimate w s = Return s1"
    "usage_decimals (a + 5) (b + 5) (c + 100) (meta s1 p)" "\<And>q. q \<noteq> p \<Longrightarrow> meta s1 q = meta s q"
    "\<And>x. x \<notin> {CpuUsageKey, MemUsageKey, GoGoroutineKey} \<Longrightarrow> meta s1 p x = meta s p x"
    using Suc.prems by (elim estimate_once [OF assms(1) Suc.prems(1)]; linarith?) auto
  have add: "a + 5 * int (Suc k) = a + 5 + 5 * int k" "b + 5 * int (Suc k) = b + 5 + 5 * int k"
    "c + 100 * int (Suc k) = c + 100 + 100 * int k" by simp_all
  from Suc.IH [OF s1(2)] Suc.prems show ?case unfolding add by (auto simp: s1)
qed simp

section \<open>Witnesses\<close>

theorem usage_roundtrip_witness:
  "\<exists>ru. GenerateResourceUsage (Ok [Fin 65 (- 1)]) (Ok (17179869184, 5368709120, Fin 5 3)) 12000 9 42 = Return (Ok ru) \<and>
     ru CpuUsageKey = Some ''32.50'' \<and> FormatFloat2 (usage_of (ParseResourceUsage ru) CpuUsageKey) = ''32.50''"
proof -
  have d: "FormatFloat2 (Fin 65 (- 1)) = ''32.50''" by code_simp
  have s: "sane (Fin 65 (- 1))" "sane (Fin 5 3)" by (simp_all add: sane_def)
  obtain ru where ru: "GenerateResourceUsage (Ok [Fin 65 (- 1)]) (Ok (17179869184, 5368709120, Fin 5 3)) 12000 9 42 =
      Return (Ok ru)" "ru CpuUsageKey = Some ''32.50''"
    by (simp add: GenerateResourceUsage_def d)
  from usage_roundtrip [OF ru(1) s _ _ _ _ _ _ _ _ _ _ ru(2)] ru show ?thesis by auto
qed

theorem memory_stain_exact_witness:
  "\<exists>stain. GenerateStain [MemUsageKey \<mapsto> ''85.01''] True = Ok stain \<and> stain stainPressureMem = Some ''high'' \<and>
     stain stainDisable = Some ''true''"
proof -
  have d: "decimal 8501 = ''85.01''" by code_simp
  have "[MemUsageKey \<mapsto> ''85.01''] MemUsageKey = Some (decimal 8501)" by (simp add: d)
  from memory_stain_exact [of "[MemUsageKey \<mapsto> ''85.01'']" 8501 True, OF this] show ?thesis by auto
qed

theorem estimates_add_up_witness:
  "\<exists>s'. estimates 3 (test_instance 0) (test_scheduler\<lparr>meta := (\<lambda>_. [CpuUsageKey \<mapsto> ''32.00'', MemUsageKey \<mapsto> ''32.67'',
       GoGoroutineKey \<mapsto> ''5.00''])\<rparr>) = Return s' \<and>
     meta s' 0 CpuUsageKey = Some ''32.15'' \<and> meta s' 0 MemUsageKey = Some ''32.82'' \<and> meta s' 0 GoGoroutineKey = Some ''8.00''"
proof -
  have d: "decimal 3200 = ''32.00''" "decimal 3267 = ''32.67''" "decimal 500 = ''5.00''" "decimal 3215 = ''32.15''"
    "decimal 3282 = ''32.82''" "decimal 800 = ''8.00''" by code_simp+
  let ?s = "test_scheduler\<lparr>meta := (\<lambda>_. [CpuUsageKey \<mapsto> ''32.00'', MemUsageKey \<mapsto> ''32.67'', GoGoroutineKey \<mapsto> ''5.00''])\<rparr>"
  have "Metadata (test_instance 0) = Some 0" by (simp add: test_instance_def)
  moreover have "usage_decimals 3200 3267 500 (meta ?s 0)" by (simp add: usage_decimals_def d)
  ultimately show ?thesis
    using estimates_add_up [of "test_instance 0" 0 3200 3267 500 ?s 3] by (auto simp: usage_decimals_def d)
qed

end
