(* ===== verification/GoroutineExecutor.thy ===== *)
theory GoroutineExecutor
  imports Executor
begin

text \<open>
  \<^verbatim>\<open>core/worker/executor/goroutine\<close>: the executor that runs a task in the worker's own process.
  \<open>Run\<close> starts two goroutines per task: the inner one loops over the business function and listens
  to the stop, pause and resume channels of the task, the outer one waits for its end or for the exit
  channel.  The model is a step relation on the executor's state with the program counters of these
  goroutines and of the caller, the one goroutine of the worker that calls the methods.
\<close>

section \<open>State\<close>

text \<open>The four channels of a task have room for one element: whether it is there.\<close>

record taskCtrl =
  stopCh :: bool
  pauseCh :: bool
  resumeCh :: bool
  exitCh :: bool

text \<open>
  Where the inner goroutine is: before it reads its \<open>taskCtrl\<close>, in the loop, inside the business
  function, in the pause, before \<open>setTaskStatus\<close> or before the send of a \<open>sync\<dots>Result\<close> (with what
  comes after it), before its deferred function, at its end.  The number is the \<open>*taskCtrl\<close>.
\<close>

datatype inner_pc =
    InStart
  | InLoop nat
  | InFn nat
  | InPaused nat
  | InSync TaskExecResult inner_pc
  | InSend TaskExecResult inner_pc
  | InFinish
  | InEnd

datatype outer_pc =
    OutStart
  | OutSelect nat
  | OutDefer
  | OutSync TaskExecResult
  | OutSend TaskExecResult
  | OutDelete
  | OutEnd
  | OutCrash

datatype caller_pc = CallerIdle | CallerSync TaskExecResult | CallerSend TaskExecResult

text \<open>The local state of one call of \<open>Run\<close>: \<open>err\<close> and \<open>finishCh\<close> are shared by its goroutines.\<close>

record run_state =
  run_params :: TaskExecParam
  run_err :: "string option"
  finishCh :: bool
  inner :: inner_pc
  outer :: outer_pc

abbreviation run_key :: "run_state \<Rightarrow> string" where
  "run_key r \<equiv> param_TaskKey (run_params r)"

text \<open>
  The \<open>*taskCtrl\<close> that the \<open>n\<close>-th run allocates has the address \<open>n\<close>.
\<close>

record gexec =
  ctrls :: "string \<rightharpoonup> nat"
  ctrl_store :: "nat \<Rightarrow> taskCtrl"
  taskStatus :: "string \<rightharpoonup> TaskStatus"
  resultChan :: "TaskExecResult list"
  runs :: "run_state list"
  caller :: caller_pc

definition new_taskCtrl :: taskCtrl where
  "new_taskCtrl = \<lparr>stopCh = False, pauseCh = False, resumeCh = False, exitCh = False\<rparr>"

definition goroutine_NewExecutor :: gexec where
  "goroutine_NewExecutor = \<lparr>ctrls = Map.empty, ctrl_store = (\<lambda>_. new_taskCtrl),
     taskStatus = Map.empty, resultChan = [], runs = [], caller = CallerIdle\<rparr>"

section \<open>Status and results\<close>

definition setTaskStatus :: "string \<Rightarrow> TaskStatus \<Rightarrow> gexec \<Rightarrow> gexec" where
  "setTaskStatus taskKey status s =
     (if IsFinalStatus status then s\<lparr>taskStatus := (taskStatus s)(taskKey := None)\<rparr>
      else s\<lparr>taskStatus := (taskStatus s)(taskKey \<mapsto> status)\<rparr>)"

definition listTaskStatus :: "string list \<Rightarrow> gexec \<Rightarrow> TaskExecResult list" where
  "listTaskStatus ks s = map (\<lambda>(key, t).
     \<lparr>res_TaskKey = key, res_TaskType = [], res_Status = t, res_Msg = []\<rparr>) (go_range ks (taskStatus s))"

text \<open>The results that the \<open>sync\<close> functions send; an error is its text.\<close>

definition sync_result :: "string \<Rightarrow> TaskStatus \<Rightarrow> TaskExecResult" where
  "sync_result taskKey st = \<lparr>res_TaskKey = taskKey, res_TaskType = [], res_Status = st, res_Msg = []\<rparr>"

definition syncRunFinishResult :: "string \<Rightarrow> string option \<Rightarrow> TaskExecResult" where
  "syncRunFinishResult taskKey err =
     (case err of
        None \<Rightarrow> sync_result taskKey TaskStatusSuccess
      | Some e \<Rightarrow> (sync_result taskKey TaskStatusFailed)\<lparr>res_Msg := e\<rparr>)"

text \<open>A send on the result channel; \<open>None\<close> while its buffer of ten is full.\<close>

definition send_result :: "TaskExecResult \<Rightarrow> gexec \<Rightarrow> gexec option" where
  "send_result r s =
     (if length (resultChan s) < 10 then Some (s\<lparr>resultChan := resultChan s @ [r]\<rparr>) else None)"

section \<open>The control map\<close>

definition getTaskCtrl :: "string \<Rightarrow> gexec \<Rightarrow> nat option" where
  "getTaskCtrl taskKey s = ctrls s taskKey"

definition initTaskCtrl :: "string \<Rightarrow> gexec \<Rightarrow> gexec" where
  "initTaskCtrl taskKey s =
     s\<lparr>ctrl_store := (ctrl_store s)(length (runs s) := new_taskCtrl),
       ctrls := (ctrls s)(taskKey \<mapsto> length (runs s))\<rparr>"

definition delTaskCtrl :: "string \<Rightarrow> gexec \<Rightarrow> gexec" where
  "delTaskCtrl taskKey s = s\<lparr>ctrls := (ctrls s)(taskKey := None)\<rparr>"

definition upd_ctrl :: "nat \<Rightarrow> (taskCtrl \<Rightarrow> taskCtrl) \<Rightarrow> gexec \<Rightarrow> gexec" where
  "upd_ctrl a f s = s\<lparr>ctrl_store := (ctrl_store s)(a := f (ctrl_store s a))\<rparr>"

section \<open>The methods, as the caller executes them\<close>

text \<open>
  \<open>Run\<close> up to its last call: the steps touch the task's own entries, nobody else waits for them in
  between.  The caller then goes through \<open>syncRunResult\<close>, while the two goroutines already run.
\<close>

definition new_run :: "TaskExecParam \<Rightarrow> run_state" where
  "new_run params = \<lparr>run_params = params, run_err = None, finishCh = False, inner = InStart,
     outer = OutStart\<rparr>"

definition Run_start :: "TaskExecParam \<Rightarrow> gexec \<Rightarrow> error option \<times> gexec" where
  "Run_start params s =
     (let key = param_TaskKey params
      in if getTaskCtrl key s \<noteq> None then (Some TaskAlreadyRunning, s)
         else let s1 = setTaskStatus key TaskStatusRunning s;
                  s2 = initTaskCtrl key s1
              in (None, s2\<lparr>runs := runs s2 @ [new_run params],
                           caller := CallerSync (sync_result key TaskStatusRunning)\<rparr>))"

definition caller_step :: "gexec \<Rightarrow> gexec option" where
  "caller_step s =
     (case caller s of
        CallerIdle \<Rightarrow> None
      | CallerSync r \<Rightarrow>
          Some ((setTaskStatus (res_TaskKey r) (res_Status r) s)\<lparr>caller := CallerSend r\<rparr>)
      | CallerSend r \<Rightarrow> map_option (\<lambda>s1. s1\<lparr>caller := CallerIdle\<rparr>) (send_result r s))"

definition goroutine_Run :: "TaskExecParam \<Rightarrow> gexec \<Rightarrow> call_outcome \<times> gexec" where
  "goroutine_Run params s =
     (case Run_start params s of
        (Some err, s1) \<Rightarrow> (CallReturns (Some err), s1)
      | (None, s1) \<Rightarrow>
          (case caller_step s1 of
             None \<Rightarrow> (CallBlocks, s1)
           | Some s2 \<Rightarrow>
               (case caller_step s2 of
                  None \<Rightarrow> (CallBlocks, s2)
                | Some s3 \<Rightarrow> (CallReturns None, s3))))"

text \<open>
  The other methods test a channel and send to one.  Only the caller sends to these channels, so
  the test and the send are one step.
\<close>

definition goroutine_Exit :: "string \<Rightarrow> gexec \<Rightarrow> call_outcome \<times> gexec" where
  "goroutine_Exit taskKey s =
     (case getTaskCtrl taskKey s of
        None \<Rightarrow> (CallReturns (Some (NeedAfterRun ''exit'')), s)
      | Some ch \<Rightarrow>
          if stopCh (ctrl_store s ch) then (CallReturns None, s)
          else if exitCh (ctrl_store s ch) then (CallBlocks, s)
          else (CallReturns None, upd_ctrl ch (exitCh_update (\<lambda>_. True)) s))"

definition goroutine_Stop :: "string \<Rightarrow> gexec \<Rightarrow> call_outcome \<times> gexec" where
  "goroutine_Stop taskKey s =
     (case getTaskCtrl taskKey s of
        None \<Rightarrow> (CallReturns (Some (NeedAfterRun ''stop'')), s)
      | Some ch \<Rightarrow>
          if stopCh (ctrl_store s ch) then (CallReturns None, s)
          else (CallReturns None, upd_ctrl ch (stopCh_update (\<lambda>_. True)) s))"

definition goroutine_Pause :: "string \<Rightarrow> gexec \<Rightarrow> call_outcome \<times> gexec" where
  "goroutine_Pause taskKey s =
     (case getTaskCtrl taskKey s of
        None \<Rightarrow> (CallReturns (Some (NeedAfterRun ''pause'')), s)
      | Some ch \<Rightarrow>
          if stopCh (ctrl_store s ch) then (CallReturns None, s)
          else if pauseCh (ctrl_store s ch) then (CallBlocks, s)
          else (CallReturns None, upd_ctrl ch (pauseCh_update (\<lambda>_. True)) s))"

definition goroutine_Resume :: "string \<Rightarrow> gexec \<Rightarrow> call_outcome \<times> gexec" where
  "goroutine_Resume taskKey s =
     (case getTaskCtrl taskKey s of
        None \<Rightarrow> (CallReturns (Some (NeedAfterRun ''stop'')), s)
      | Some ch \<Rightarrow>
          if resumeCh (ctrl_store s ch) then (CallReturns None, s)
          else (CallReturns None, upd_ctrl ch (resumeCh_update (\<lambda>_. True)) s))"

definition goroutine_List :: "string list \<Rightarrow> gexec \<Rightarrow> TaskExecResult list result" where
  "goroutine_List ks s = Ok (listTaskStatus ks s)"

section \<open>The goroutines of a run\<close>

text \<open>
  What a step chooses: the case of a \<open>select\<close>, the result of the business function (\<open>FnReturn\<close>
  with \<open>finished\<close> and the error's text, or a panic with its value's text), or nothing.
\<close>

datatype fn_result = FnReturn bool "string option" | FnPanic string

datatype choice =
    Next | TakeStop | TakePause | TakeResume | TakeExit | TakeFinish | StartFn | FnDone fn_result

definition set_run :: "nat \<Rightarrow> (run_state \<Rightarrow> run_state) \<Rightarrow> gexec \<Rightarrow> gexec" where
  "set_run i f s = s\<lparr>runs := (runs s)[i := f (runs s ! i)]\<rparr>"

abbreviation go_inner :: "nat \<Rightarrow> inner_pc \<Rightarrow> gexec \<Rightarrow> gexec" where
  "go_inner i pc \<equiv> set_run i (inner_update (\<lambda>_. pc))"
abbreviation go_outer :: "nat \<Rightarrow> outer_pc \<Rightarrow> gexec \<Rightarrow> gexec" where
  "go_outer i pc \<equiv> set_run i (outer_update (\<lambda>_. pc))"

text \<open>The deferred function of the inner goroutine when it recovers from a panic.\<close>

definition panic_text :: "string \<Rightarrow> string \<Rightarrow> string" where
  "panic_text key r = ''task '' @ key @ '' panic: '' @ r"

definition nil_text :: string where
  "nil_text = ''runtime error: invalid memory address or nil pointer dereference''"

definition recovered :: "nat \<Rightarrow> string \<Rightarrow> gexec \<Rightarrow> gexec" where
  "recovered i r s =
     set_run i (\<lambda>x. x\<lparr>run_err := Some (panic_text (run_key x) r), inner := InFinish\<rparr>) s"

definition inner_step :: "nat \<Rightarrow> choice \<Rightarrow> gexec \<Rightarrow> gexec option" where
  "inner_step i ch s =
     (let key = run_key (runs s ! i)
      in case (inner (runs s ! i), ch) of
           (InStart, Next) \<Rightarrow>
             (case getTaskCtrl key s of
                None \<Rightarrow> Some (recovered i nil_text s)
              | Some a \<Rightarrow> Some (go_inner i (InLoop a) s))
         | (InLoop a, TakeStop) \<Rightarrow>
             if stopCh (ctrl_store s a)
             then Some (go_inner i (InSync (sync_result key TaskStatusStop) InFinish)
                    (upd_ctrl a (stopCh_update (\<lambda>_. False)) s))
             else None
         | (InLoop a, TakePause) \<Rightarrow>
             if pauseCh (ctrl_store s a)
             then Some (go_inner i (InSync (sync_result key TaskStatusPaused) (InPaused a))
                    (upd_ctrl a (pauseCh_update (\<lambda>_. False)) s))
             else None
         | (InLoop a, StartFn) \<Rightarrow>
             if \<not> stopCh (ctrl_store s a) \<and> \<not> pauseCh (ctrl_store s a)
             then Some (go_inner i (InFn a) s) else None
         | (InFn a, FnDone (FnReturn finished err)) \<Rightarrow>
             if err \<noteq> None \<or> finished
             then Some (go_inner i (InSync (syncRunFinishResult key err) InFinish) s)
             else Some (go_inner i (InLoop a) s)
         | (InFn a, FnDone (FnPanic r)) \<Rightarrow> Some (recovered i r s)
         | (InPaused a, TakeStop) \<Rightarrow>
             if stopCh (ctrl_store s a)
             then Some (go_inner i (InSync (sync_result key TaskStatusStop) InFinish)
                    (upd_ctrl a (stopCh_update (\<lambda>_. False)) s))
             else None
         | (InPaused a, TakeResume) \<Rightarrow>
             if resumeCh (ctrl_store s a)
             then Some (go_inner i (InSync (sync_result key TaskStatusRunning) (InLoop a))
                    (upd_ctrl a (resumeCh_update (\<lambda>_. False)) s))
             else None
         | (InSync r pc, Next) \<Rightarrow>
             Some (go_inner i (InSend r pc) (setTaskStatus (res_TaskKey r) (res_Status r) s))
         | (InSend r pc, Next) \<Rightarrow> map_option (go_inner i pc) (send_result r s)
         | (InFinish, Next) \<Rightarrow> Some (set_run i (\<lambda>x. x\<lparr>finishCh := True, inner := InEnd\<rparr>) s)
         | _ \<Rightarrow> None)"

definition outer_step :: "nat \<Rightarrow> choice \<Rightarrow> gexec \<Rightarrow> gexec option" where
  "outer_step i ch s =
     (let key = run_key (runs s ! i)
      in case (outer (runs s ! i), ch) of
           (OutStart, Next) \<Rightarrow>
             (case getTaskCtrl key s of
                None \<Rightarrow> Some (go_outer i OutCrash s)
              | Some a \<Rightarrow> Some (go_outer i (OutSelect a) s))
         | (OutSelect a, TakeExit) \<Rightarrow>
             if exitCh (ctrl_store s a)
             then Some (set_run i (\<lambda>x. x\<lparr>run_err := Some ''force exit'', outer := OutDefer\<rparr>)
                    (upd_ctrl a (exitCh_update (\<lambda>_. False)) s))
             else None
         | (OutSelect a, TakeFinish) \<Rightarrow>
             if finishCh (runs s ! i)
             then Some (set_run i (\<lambda>x. x\<lparr>finishCh := False, outer := OutDefer\<rparr>) s) else None
         | (OutDefer, Next) \<Rightarrow>
             (case run_err (runs s ! i) of
                None \<Rightarrow> Some (go_outer i OutDelete s)
              | Some e \<Rightarrow> Some (go_outer i (OutSync (syncRunFinishResult key (Some e))) s))
         | (OutSync r, Next) \<Rightarrow>
             Some (go_outer i (OutSend r) (setTaskStatus (res_TaskKey r) (res_Status r) s))
         | (OutSend r, Next) \<Rightarrow> map_option (go_outer i OutDelete) (send_result r s)
         | (OutDelete, Next) \<Rightarrow> Some (go_outer i OutEnd (delTaskCtrl key s))
         | _ \<Rightarrow> None)"

section \<open>The system\<close>

datatype op =
    OpRun TaskExecParam | OpExit string | OpStop string | OpPause string | OpResume string

text \<open>The caller begins a method when it has returned from the last one.\<close>

definition call_step :: "op \<Rightarrow> gexec \<Rightarrow> gexec option" where
  "call_step opn s =
     (if caller s \<noteq> CallerIdle then None
      else case opn of
        OpRun p \<Rightarrow> Some (snd (Run_start p s))
      | OpExit k \<Rightarrow> (case goroutine_Exit k s of (CallReturns _, s1) \<Rightarrow> Some s1 | _ \<Rightarrow> None)
      | OpStop k \<Rightarrow> (case goroutine_Stop k s of (CallReturns _, s1) \<Rightarrow> Some s1 | _ \<Rightarrow> None)
      | OpPause k \<Rightarrow> (case goroutine_Pause k s of (CallReturns _, s1) \<Rightarrow> Some s1 | _ \<Rightarrow> None)
      | OpResume k \<Rightarrow> (case goroutine_Resume k s of (CallReturns _, s1) \<Rightarrow> Some s1 | _ \<Rightarrow> None))"

datatype label = Call op | Caller | Inner nat choice | Outer nat choice | Recv

definition gstep :: "label \<Rightarrow> gexec \<Rightarrow> gexec option" where
  "gstep l s =
     (case l of
        Call opn \<Rightarrow> call_step opn s
      | Caller \<Rightarrow> caller_step s
      | Inner i ch \<Rightarrow> if i < length (runs s) then inner_step i ch s else None
      | Outer i ch \<Rightarrow> if i < length (runs s) then outer_step i ch s else None
      | Recv \<Rightarrow> (case resultChan s of [] \<Rightarrow> None | r # rs \<Rightarrow> Some (s\<lparr>resultChan := rs\<rparr>)))"

fun gtrace :: "label list \<Rightarrow> gexec \<Rightarrow> gexec option" where
  "gtrace [] s = Some s"
| "gtrace (l # ls) s = (case gstep l s of None \<Rightarrow> None | Some s1 \<Rightarrow> gtrace ls s1)"

inductive greach :: "gexec \<Rightarrow> bool" where
  init: "greach goroutine_NewExecutor"
| step: "greach s \<Longrightarrow> gstep l s = Some s' \<Longrightarrow> greach s'"

section \<open>Case analysis of the steps\<close>

lemma inner_step_cases [consumes 1, case_names NoCtrl Ctrl Stop Pause Fn Result Loop FnPanic PausedStop
    Resume Sync Send Finish]:
  assumes "inner_step i ch s = Some s'"
  obtains
    "inner (runs s ! i) = InStart" "ch = Next" "ctrls s (run_key (runs s ! i)) = None"
      "s' = recovered i nil_text s"
  | a where "inner (runs s ! i) = InStart" "ch = Next" "ctrls s (run_key (runs s ! i)) = Some a"
      "s' = go_inner i (InLoop a) s"
  | a where "inner (runs s ! i) = InLoop a" "ch = TakeStop" "stopCh (ctrl_store s a)"
      "s' = go_inner i (InSync (sync_result (run_key (runs s ! i)) TaskStatusStop) InFinish)
         (upd_ctrl a (stopCh_update (\<lambda>_. False)) s)"
  | a where "inner (runs s ! i) = InLoop a" "ch = TakePause" "pauseCh (ctrl_store s a)"
      "s' = go_inner i (InSync (sync_result (run_key (runs s ! i)) TaskStatusPaused) (InPaused a))
         (upd_ctrl a (pauseCh_update (\<lambda>_. False)) s)"
  | a where "inner (runs s ! i) = InLoop a" "ch = StartFn" "\<not> stopCh (ctrl_store s a)"
      "\<not> pauseCh (ctrl_store s a)" "s' = go_inner i (InFn a) s"
  | a finished err where "inner (runs s ! i) = InFn a" "ch = FnDone (FnReturn finished err)"
      "err \<noteq> None \<or> finished"
      "s' = go_inner i (InSync (syncRunFinishResult (run_key (runs s ! i)) err) InFinish) s"
  | a where "inner (runs s ! i) = InFn a" "ch = FnDone (FnReturn False None)"
      "s' = go_inner i (InLoop a) s"
  | a r where "inner (runs s ! i) = InFn a" "ch = FnDone (FnPanic r)" "s' = recovered i r s"
  | a where "inner (runs s ! i) = InPaused a" "ch = TakeStop" "stopCh (ctrl_store s a)"
      "s' = go_inner i (InSync (sync_result (run_key (runs s ! i)) TaskStatusStop) InFinish)
         (upd_ctrl a (stopCh_update (\<lambda>_. False)) s)"
  | a where "inner (runs s ! i) = InPaused a" "ch = TakeResume" "resumeCh (ctrl_store s a)"
      "s' = go_inner i (InSync (sync_result (run_key (runs s ! i)) TaskStatusRunning) (InLoop a))
         (upd_ctrl a (resumeCh_update (\<lambda>_. False)) s)"
  | r pc where "inner (runs s ! i) = InSync r pc" "ch = Next"
      "s' = go_inner i (InSend r pc) (setTaskStatus (res_TaskKey r) (res_Status r) s)"
  | r pc where "inner (runs s ! i) = InSend r pc" "ch = Next" "length (resultChan s) < 10"
      "s' = go_inner i pc (s\<lparr>resultChan := resultChan s @ [r]\<rparr>)"
  | "inner (runs s ! i) = InFinish" "ch = Next"
      "s' = set_run i (\<lambda>x. x\<lparr>finishCh := True, inner := InEnd\<rparr>) s"
  using assms
  by (cases "inner (runs s ! i)"; cases ch)
    (auto simp: inner_step_def getTaskCtrl_def send_result_def Let_def
      split: if_splits option.splits fn_result.splits)

lemma outer_step_cases [consumes 1, case_names Crash Ctrl Exit Finish Quiet Err Sync Send Delete]:
  assumes "outer_step i ch s = Some s'"
  obtains
    "outer (runs s ! i) = OutStart" "ch = Next" "ctrls s (run_key (runs s ! i)) = None"
      "s' = go_outer i OutCrash s"
  | a where "outer (runs s ! i) = OutStart" "ch = Next" "ctrls s (run_key (runs s ! i)) = Some a"
      "s' = go_outer i (OutSelect a) s"
  | a where "outer (runs s ! i) = OutSelect a" "ch = TakeExit" "exitCh (ctrl_store s a)"
      "s' = set_run i (\<lambda>x. x\<lparr>run_err := Some ''force exit'', outer := OutDefer\<rparr>)
         (upd_ctrl a (exitCh_update (\<lambda>_. False)) s)"
  | a where "outer (runs s ! i) = OutSelect a" "ch = TakeFinish" "finishCh (runs s ! i)"
      "s' = set_run i (\<lambda>x. x\<lparr>finishCh := False, outer := OutDefer\<rparr>) s"
  | "outer (runs s ! i) = OutDefer" "ch = Next" "run_err (runs s ! i) = None"
      "s' = go_outer i OutDelete s"
  | e where "outer (runs s ! i) = OutDefer" "ch = Next" "run_err (runs s ! i) = Some e"
      "s' = go_outer i (OutSync (syncRunFinishResult (run_key (runs s ! i)) (Some e))) s"
  | r where "outer (runs s ! i) = OutSync r" "ch = Next"
      "s' = go_outer i (OutSend r) (setTaskStatus (res_TaskKey r) (res_Status r) s)"
  | r where "outer (runs s ! i) = OutSend r" "ch = Next" "length (resultChan s) < 10"
      "s' = go_outer i OutDelete (s\<lparr>resultChan := resultChan s @ [r]\<rparr>)"
  | "outer (runs s ! i) = OutDelete" "ch = Next"
      "s' = go_outer i OutEnd (delTaskCtrl (run_key (runs s ! i)) s)"
  using assms
  by (cases "outer (runs s ! i)"; cases ch)
    (auto simp: outer_step_def getTaskCtrl_def send_result_def Let_def split: if_splits option.splits)

text \<open>What the parts of a step leave alone.\<close>

lemma setTaskStatus_frame [simp]:
  "ctrls (setTaskStatus k st s) = ctrls s" "ctrl_store (setTaskStatus k st s) = ctrl_store s"
  "resultChan (setTaskStatus k st s) = resultChan s" "runs (setTaskStatus k st s) = runs s"
  "caller (setTaskStatus k st s) = caller s"
  by (simp_all add: setTaskStatus_def)

lemma upd_ctrl_frame [simp]:
  "ctrls (upd_ctrl a f s) = ctrls s" "taskStatus (upd_ctrl a f s) = taskStatus s"
  "resultChan (upd_ctrl a f s) = resultChan s" "runs (upd_ctrl a f s) = runs s"
  "caller (upd_ctrl a f s) = caller s"
  "ctrl_store (upd_ctrl a f s) b = (if b = a then f (ctrl_store s a) else ctrl_store s b)"
  by (simp_all add: upd_ctrl_def)

lemma set_run_frame [simp]:
  "ctrls (set_run i f s) = ctrls s" "taskStatus (set_run i f s) = taskStatus s"
  "resultChan (set_run i f s) = resultChan s" "ctrl_store (set_run i f s) = ctrl_store s"
  "caller (set_run i f s) = caller s" "length (runs (set_run i f s)) = length (runs s)"
  by (simp_all add: set_run_def)

lemma runs_set_run:
  "i < length (runs s) \<Longrightarrow> runs (set_run i f s) ! j = (if j = i then f (runs s ! i) else runs s ! j)"
  by (auto simp: set_run_def)

lemma inner_step_frame:
  assumes "inner_step i ch s = Some s'" and "i < length (runs s)"
  shows "ctrls s' = ctrls s" and "caller s' = caller s" and "length (runs s') = length (runs s)"
    and "outer (runs s' ! j) = outer (runs s ! j)" and "run_params (runs s' ! j) = run_params (runs s ! j)"
    and "j \<noteq> i \<Longrightarrow> runs s' ! j = runs s ! j"
  using assms by (cases rule: inner_step_cases; simp add: recovered_def runs_set_run)+

lemma outer_step_frame:
  assumes "outer_step i ch s = Some s'" and "i < length (runs s)"
  shows "ctrl_store s' a = (if outer (runs s ! i) = OutSelect a \<and> ch = TakeExit
      then (ctrl_store s a)\<lparr>exitCh := False\<rparr> else ctrl_store s a)"
    and "caller s' = caller s" and "length (runs s') = length (runs s)"
    and "inner (runs s' ! j) = inner (runs s ! j)" and "run_params (runs s' ! j) = run_params (runs s ! j)"
    and "j \<noteq> i \<Longrightarrow> runs s' ! j = runs s ! j"
  using assms by (cases rule: outer_step_cases; auto simp: runs_set_run delTaskCtrl_def)+

text \<open>
  The methods that send to a channel.
\<close>

lemma control_cases [consumes 1, case_names Run Ctrl Same]:
  assumes "call_step opn s = Some s'"
  obtains p where "opn = OpRun p" "caller s = CallerIdle" "s' = snd (Run_start p s)"
  | a f where "caller s = CallerIdle" "s' = upd_ctrl a f s" "\<And>c. stopCh c \<Longrightarrow> stopCh (f c)"
  | "caller s = CallerIdle" "s' = s"
  using assms
  by (cases opn)
    (auto simp: call_step_def goroutine_Exit_def goroutine_Stop_def goroutine_Pause_def
      goroutine_Resume_def split: if_splits option.splits)

lemma new_run_simps [simp]:
  "run_params (new_run p) = p" "inner (new_run p) = InStart" "outer (new_run p) = OutStart"
  "run_err (new_run p) = None" "\<not> finishCh (new_run p)"
  by (simp_all add: new_run_def)

lemma Run_start_cases [case_names Refused Started]:
  obtains "ctrls s (param_TaskKey p) \<noteq> None" "Run_start p s = (Some TaskAlreadyRunning, s)"
  | "ctrls s (param_TaskKey p) = None"
      "Run_start p s = (None, (setTaskStatus (param_TaskKey p) TaskStatusRunning s)\<lparr>
         ctrl_store := (ctrl_store s)(length (runs s) := new_taskCtrl),
         ctrls := (ctrls s)(param_TaskKey p \<mapsto> length (runs s)), runs := runs s @ [new_run p],
         caller := CallerSync (sync_result (param_TaskKey p) TaskStatusRunning)\<rparr>)"
  by (cases "ctrls s (param_TaskKey p)")
    (auto simp: Run_start_def getTaskCtrl_def initTaskCtrl_def Let_def)

lemma caller_step_cases [consumes 1, case_names Sync Send]:
  assumes "caller_step s = Some s'"
  obtains r where "caller s = CallerSync r"
      "s' = (setTaskStatus (res_TaskKey r) (res_Status r) s)\<lparr>caller := CallerSend r\<rparr>"
  | r where "caller s = CallerSend r" "length (resultChan s) < 10"
      "s' = s\<lparr>resultChan := resultChan s @ [r], caller := CallerIdle\<rparr>"
  using assms
  by (auto simp: caller_step_def send_result_def split: caller_pc.splits if_splits)

lemma gstep_cases [consumes 1, case_names Call Caller Inner Outer Recv]:
  assumes "gstep l s = Some s'"
  obtains opn where "l = Call opn" "call_step opn s = Some s'"
  | "l = Caller" "caller_step s = Some s'"
  | i ch where "l = Inner i ch" "i < length (runs s)" "inner_step i ch s = Some s'"
  | i ch where "l = Outer i ch" "i < length (runs s)" "outer_step i ch s = Some s'"
  | r rs where "l = Recv" "resultChan s = r # rs" "s' = s\<lparr>resultChan := rs\<rparr>"
  using assms by (cases l) (auto simp: gstep_def split: if_splits list.splits)

section \<open>Invariants\<close>

definition chan_ok :: "gexec \<Rightarrow> bool" where
  "chan_ok s \<longleftrightarrow> length (resultChan s) \<le> 10"

definition status_ok :: "gexec \<Rightarrow> bool" where
  "status_ok s \<longleftrightarrow> (\<forall>k st. taskStatus s k = Some st \<longrightarrow> \<not> IsFinalStatus st)"

text \<open>A run is registered under its key exactly until its outer goroutine has ended.\<close>

definition reg_run :: "(string \<rightharpoonup> nat) \<Rightarrow> nat \<Rightarrow> run_state \<Rightarrow> bool" where
  "reg_run cs i r \<longleftrightarrow> outer r \<noteq> OutCrash \<and> (cs (run_key r) = Some i \<longleftrightarrow> outer r \<noteq> OutEnd)"

definition reg_ok :: "gexec \<Rightarrow> bool" where
  "reg_ok s \<longleftrightarrow> (\<forall>i<length (runs s). reg_run (ctrls s) i (runs s ! i)) \<and>
     (\<forall>k a. ctrls s k = Some a \<longrightarrow> a < length (runs s) \<and> run_key (runs s ! a) = k)"

lemma setTaskStatus_status_ok: "status_ok s \<Longrightarrow> status_ok (setTaskStatus k st s)"
  by (auto simp: status_ok_def setTaskStatus_def)

lemma status_ok_cong: "taskStatus s' = taskStatus s \<Longrightarrow> status_ok s' = status_ok s"
  by (simp add: status_ok_def)

lemma chan_ok_step: "chan_ok s \<Longrightarrow> gstep l s = Some s' \<Longrightarrow> chan_ok s'"
proof (erule gstep_cases, goal_cases)
  case (1 opn)
  then show ?case
    by (auto simp: chan_ok_def Run_start_def initTaskCtrl_def Let_def elim!: control_cases)
next
  case 2
  then show ?case by (auto simp: chan_ok_def elim!: caller_step_cases)
next
  case (3 i ch)
  from 3(4) 3(1) show ?case by (cases rule: inner_step_cases) (auto simp: chan_ok_def recovered_def)
next
  case (4 i ch)
  from 4(4) 4(1) show ?case by (cases rule: outer_step_cases) (auto simp: chan_ok_def delTaskCtrl_def)
qed (auto simp: chan_ok_def)

lemma status_ok_step: "status_ok s \<Longrightarrow> gstep l s = Some s' \<Longrightarrow> status_ok s'"
proof (erule gstep_cases, goal_cases)
  case (1 opn)
  from 1(3) show ?case
  proof (cases rule: control_cases)
    case (Run p)
    then show ?thesis using 1(1) setTaskStatus_status_ok [OF 1(1), of "param_TaskKey p" TaskStatusRunning]
      by (cases rule: Run_start_cases [of s p]) (auto simp: status_ok_def)
  qed (use 1(1) in \<open>auto simp: status_ok_def\<close>)
next
  case 2
  from 2(3) show ?case
    by (cases rule: caller_step_cases)
      (use 2(1) setTaskStatus_status_ok [OF 2(1)] in \<open>auto simp: status_ok_def\<close>)
next
  case (3 i ch)
  from 3(4) show ?case
    by (cases rule: inner_step_cases)
      (use 3(1) setTaskStatus_status_ok [OF 3(1)] in \<open>auto simp: status_ok_def recovered_def\<close>)
next
  case (4 i ch)
  from 4(4) show ?case
    by (cases rule: outer_step_cases)
      (use 4(1) setTaskStatus_status_ok [OF 4(1)] in \<open>auto simp: status_ok_def delTaskCtrl_def\<close>)
qed (auto simp: status_ok_def)

lemma reg_okI:
  assumes "\<And>i. i < length (runs s) \<Longrightarrow> reg_run (ctrls s) i (runs s ! i)"
    and "\<And>k a. ctrls s k = Some a \<Longrightarrow> a < length (runs s) \<and> run_key (runs s ! a) = k"
  shows "reg_ok s"
  using assms by (simp add: reg_ok_def)

lemma reg_ok_cong:
  assumes "reg_ok s" and "ctrls s' = ctrls s" and "length (runs s') = length (runs s)"
    and "\<And>j. outer (runs s' ! j) = outer (runs s ! j)"
    and "\<And>j. run_params (runs s' ! j) = run_params (runs s ! j)"
  shows "reg_ok s'"
  using assms by (simp add: reg_ok_def reg_run_def)

lemma reg_ok_outer:
  assumes "reg_ok s" and "i < length (runs s)" and "outer_step i ch s = Some s'"
  shows "reg_ok s'"
proof -
  have same: "length (runs s') = length (runs s)" "run_params (runs s' ! j) = run_params (runs s ! j)"
    "j \<noteq> i \<Longrightarrow> runs s' ! j = runs s ! j" for j
    using outer_step_frame [OF assms(3,2)] by simp_all
  have i: "reg_run (ctrls s) i (runs s ! i)" using assms(1,2) by (simp add: reg_ok_def)
  show ?thesis
  proof (cases "outer (runs s ! i) = OutDelete")
    case True
    with assms(2,3) have s': "ctrls s' = (ctrls s)(run_key (runs s ! i) := None)"
      "outer (runs s' ! i) = OutEnd"
      by (auto elim!: outer_step_cases simp: delTaskCtrl_def runs_set_run)
    have "reg_run (ctrls s') j (runs s' ! j)" if "j < length (runs s')" for j
    proof (cases "j = i")
      case True
      then show ?thesis using s' same by (simp add: reg_run_def)
    next
      case False
      have "reg_run (ctrls s) j (runs s ! j)" using assms(1) that same by (simp add: reg_ok_def)
      with False i True s' same show ?thesis
        by (auto simp: reg_run_def \<open>outer (runs s ! i) = OutDelete\<close>)
    qed
    moreover have "a < length (runs s') \<and> run_key (runs s' ! a) = k" if "ctrls s' k = Some a" for k a
      using that assms(1) same s' by (auto simp: reg_ok_def split: if_splits)
    ultimately show ?thesis by (rule reg_okI)
  next
    case False
    with assms(2,3) i have c: "ctrls s' = ctrls s"
      and o: "outer (runs s' ! i) \<notin> {OutEnd, OutCrash}" "outer (runs s ! i) \<noteq> OutEnd"
      by (auto elim!: outer_step_cases simp: runs_set_run reg_run_def)
    have "reg_run (ctrls s') j (runs s' ! j)" if "j < length (runs s')" for j
      using assms(1) that same c o i
      by (cases "j = i") (auto simp: reg_ok_def reg_run_def)
    moreover have "a < length (runs s') \<and> run_key (runs s' ! a) = k" if "ctrls s' k = Some a" for k a
      using that assms(1) same c by (auto simp: reg_ok_def)
    ultimately show ?thesis by (rule reg_okI)
  qed
qed

lemma reg_ok_Run_start:
  assumes "reg_ok s"
  shows "reg_ok (snd (Run_start p s))"
proof (cases rule: Run_start_cases [of s p])
  case Started
  let ?s = "snd (Run_start p s)" and ?n = "length (runs s)"
  have s': "ctrls ?s = (ctrls s)(param_TaskKey p \<mapsto> ?n)" "runs ?s = runs s @ [new_run p]"
    using Started by simp_all
  have "reg_run (ctrls ?s) j (runs ?s ! j)" if "j < length (runs ?s)" for j
  proof (cases "j < ?n")
    case True
    then have "reg_run (ctrls s) j (runs s ! j)" using assms by (simp add: reg_ok_def)
    with True Started(1) s' show ?thesis by (auto simp: reg_run_def nth_append)
  next
    case False
    with that s' have "j = ?n" by simp
    then show ?thesis by (simp add: s' reg_run_def)
  qed
  moreover have "a < length (runs ?s) \<and> run_key (runs ?s ! a) = k" if "ctrls ?s k = Some a" for k a
    using that assms s' by (auto simp: reg_ok_def nth_append less_Suc_eq split: if_splits)
  ultimately show ?thesis by (rule reg_okI)
qed (use assms in simp)

lemma reg_ok_step: "reg_ok s \<Longrightarrow> gstep l s = Some s' \<Longrightarrow> reg_ok s'"
proof (erule gstep_cases, goal_cases)
  case (1 opn)
  from 1(3) show ?case
  proof (cases rule: control_cases)
    case Run
    with reg_ok_Run_start [OF 1(1)] show ?thesis by simp
  next
    case Ctrl
    show ?thesis by (rule reg_ok_cong [OF 1(1)]) (simp_all add: Ctrl(2))
  qed (use 1(1) in simp)
next
  case 2
  from 2(3) show ?case
  proof (cases rule: caller_step_cases)
    case (Sync r)
    show ?thesis by (rule reg_ok_cong [OF 2(1)]) (simp_all add: Sync(2))
  next
    case (Send r)
    show ?thesis by (rule reg_ok_cong [OF 2(1)]) (simp_all add: Send(3))
  qed
next
  case (3 i ch)
  show ?case by (rule reg_ok_cong [OF 3(1)]) (use inner_step_frame [OF 3(4,3)] in simp_all)
next
  case (4 i ch)
  show ?case by (rule reg_ok_outer [OF 4(1,3,4)])
next
  case (5 r rs)
  show ?case by (rule reg_ok_cong [OF 5(1)]) (simp_all add: 5(4))
qed

lemma greach_inv: "greach s \<Longrightarrow> chan_ok s \<and> status_ok s \<and> reg_ok s"
proof (induction rule: greach.induct)
  case init
  then show ?case
    by (simp add: goroutine_NewExecutor_def chan_ok_def status_ok_def reg_ok_def)
next
  case (step s l s')
  then show ?case using chan_ok_step status_ok_step reg_ok_step by blast
qed

section \<open>The contract\<close>

lemma setTaskStatus_other: "k \<noteq> j \<Longrightarrow> taskStatus (setTaskStatus j st s) k = taskStatus s k"
  by (simp add: setTaskStatus_def)

lemma setTaskStatus_same:
  "\<not> IsFinalStatus st \<Longrightarrow> taskStatus (setTaskStatus j st s) j = Some st"
  by (simp add: setTaskStatus_def)

lemma sync_result_simps [simp]:
  "res_TaskKey (sync_result k st) = k" "res_Status (sync_result k st) = st"
  "res_Msg (sync_result k st) = []" "res_TaskType (sync_result k st) = []"
  by (simp_all add: sync_result_def)

lemma goroutine_Run_cases [case_names Refused Returns Blocks]:
  obtains "ctrls s (param_TaskKey p) \<noteq> None"
      "goroutine_Run p s = (CallReturns (Some TaskAlreadyRunning), s)"
  | s' where "goroutine_Run p s = (CallReturns None, s')"
      "ctrls s' = (ctrls s)(param_TaskKey p \<mapsto> length (runs s))"
      "taskStatus s' = (taskStatus s)(param_TaskKey p \<mapsto> TaskStatusRunning)"
  | s' where "goroutine_Run p s = (CallBlocks, s')"
      "taskStatus s' = (taskStatus s)(param_TaskKey p \<mapsto> TaskStatusRunning)"
proof (cases rule: Run_start_cases [of s p])
  case Refused
  then show thesis using that(1) by (simp add: goroutine_Run_def)
next
  case Started
  then show thesis using that(2,3)
    by (cases "length (resultChan s) < 10")
      (auto simp: goroutine_Run_def caller_step_def send_result_def setTaskStatus_def)
qed

definition goroutine_Interface :: "string list \<Rightarrow> gexec Interface" where
  "goroutine_Interface ks = \<lparr>exe_Run = goroutine_Run, exe_Pause = goroutine_Pause,
     exe_Resume = goroutine_Resume, exe_Stop = goroutine_Stop, exe_Exit = goroutine_Exit,
     exe_List = goroutine_List ks\<rparr>"

lemmas goroutine_methods =
  goroutine_Pause_def goroutine_Resume_def goroutine_Stop_def goroutine_Exit_def getTaskCtrl_def

interpretation goroutine: executor "goroutine_Interface ks" "\<lambda>k s. ctrls s k \<noteq> None" taskStatus for ks
proof (unfold_locales, unfold goroutine_Interface_def Interface.select_convs, goal_cases)
  case (5 p s s')
  then show ?case by (cases rule: goroutine_Run_cases [of s p]) auto
next
  case (6 p s out s' k)
  then show ?case by (cases rule: goroutine_Run_cases [of s p]) auto
qed (auto simp: goroutine_methods split: option.splits if_splits)

section \<open>A pending stop\<close>

text \<open>The \<open>*taskCtrl\<close> that an inner goroutine will still use, and how many steps it can make.\<close>

fun refers :: "inner_pc \<Rightarrow> nat option" where
  "refers (InLoop a) = Some a"
| "refers (InFn a) = Some a"
| "refers (InPaused a) = Some a"
| "refers (InSync r pc) = refers pc"
| "refers (InSend r pc) = refers pc"
| "refers InStart = None"
| "refers InFinish = None"
| "refers InEnd = None"

fun rank :: "taskCtrl \<Rightarrow> inner_pc \<Rightarrow> nat" where
  "rank c (InLoop a) = 4 + (if pauseCh c then 3 else 0) + (if resumeCh c then 3 else 0)"
| "rank c (InFn a) = 5 + (if pauseCh c then 3 else 0) + (if resumeCh c then 3 else 0)"
| "rank c (InPaused a) = 4 + (if pauseCh c then 3 else 0) + (if resumeCh c then 3 else 0)"
| "rank c (InSync r pc) = 2 + rank c pc"
| "rank c (InSend r pc) = 1 + rank c pc"
| "rank c InStart = 0"
| "rank c InFinish = 1"
| "rank c InEnd = 0"

fun started :: "inner_pc \<Rightarrow> bool" where
  "started InStart = False"
| "started (InSync r pc) = started pc"
| "started (InSend r pc) = started pc"
| "started _ = True"

text \<open>Run \<open>i\<close> has left its loop, or uses \<open>a\<close>, in which a stop is pending.\<close>

definition stopping :: "nat \<Rightarrow> nat \<Rightarrow> gexec \<Rightarrow> bool" where
  "stopping i a s \<longleftrightarrow> i < length (runs s) \<and> a < length (runs s) \<and> started (inner (runs s ! i)) \<and>
     (case refers (inner (runs s ! i)) of None \<Rightarrow> True | Some b \<Rightarrow> b = a \<and> stopCh (ctrl_store s a))"

text \<open>No other inner goroutine uses \<open>a\<close> or is about to read it.\<close>

definition sole :: "nat \<Rightarrow> nat \<Rightarrow> gexec \<Rightarrow> bool" where
  "sole i a s \<longleftrightarrow> (\<forall>j<length (runs s). j \<noteq> i \<longrightarrow> refers (inner (runs s ! j)) \<noteq> Some a \<and>
     (\<not> started (inner (runs s ! j)) \<longrightarrow> ctrls s (run_key (runs s ! j)) \<noteq> Some a))"

abbreviation run_rank :: "nat \<Rightarrow> nat \<Rightarrow> gexec \<Rightarrow> nat" where
  "run_rank i a s \<equiv> rank (ctrl_store s a) (inner (runs s ! i))"

lemma stopping_own:
  assumes "stopping i a s" and "inner_step i ch s = Some s'"
  shows "stopping i a s' \<and> run_rank i a s' < run_rank i a s \<and> ch \<noteq> StartFn"
  using assms(2)
proof (cases rule: inner_step_cases)
  case (Send r pc)
  with assms(1) show ?thesis by (auto simp: stopping_def runs_set_run split: option.splits)
next
  case (Sync r pc)
  with assms(1) show ?thesis by (auto simp: stopping_def runs_set_run split: option.splits)
qed (use assms(1) in \<open>auto simp: stopping_def runs_set_run recovered_def\<close>)

lemma inner_other_ctrl:
  assumes "inner_step j ch s = Some s'" and "refers (inner (runs s ! j)) \<noteq> Some a"
  shows "ctrl_store s' a = ctrl_store s a"
  using assms(1) by (cases rule: inner_step_cases) (use assms(2) in \<open>auto simp: recovered_def\<close>)

lemma stopping_cong:
  assumes "stopping i a s" and "inner (runs s' ! i) = inner (runs s ! i)"
    and "length (runs s) \<le> length (runs s')" and "stopCh (ctrl_store s a) \<Longrightarrow> stopCh (ctrl_store s' a)"
  shows "stopping i a s'"
  using assms by (auto simp: stopping_def split: option.splits)

lemma sole_inner:
  assumes "sole i a s" and "inner_step j ch s = Some s'" and "j < length (runs s)"
  shows "sole i a s'"
proof -
  have "refers (inner (runs s' ! j)) \<noteq> Some a \<and>
      (\<not> started (inner (runs s' ! j)) \<longrightarrow> ctrls s' (run_key (runs s' ! j)) \<noteq> Some a)"
    if ne: "j \<noteq> i"
  proof -
    have "refers (inner (runs s ! j)) \<noteq> Some a"
      "\<not> started (inner (runs s ! j)) \<longrightarrow> ctrls s (run_key (runs s ! j)) \<noteq> Some a"
      using assms(1,3) ne by (auto simp: sole_def)
    with inner_step_frame(1,5) [OF assms(2,3)] show ?thesis
      by (cases rule: inner_step_cases [OF assms(2)]) (use assms(3) in \<open>auto simp: runs_set_run recovered_def\<close>)
  qed
  then show ?thesis
    using assms(1) inner_step_frame [OF assms(2,3)] unfolding sole_def by metis
qed

lemma sole_cong:
  assumes "sole i a s" and "\<And>j. inner (runs s' ! j) = inner (runs s ! j)"
    and "\<And>j. run_params (runs s' ! j) = run_params (runs s ! j)"
    and "length (runs s') = length (runs s)" and "\<And>k. ctrls s' k = Some a \<Longrightarrow> ctrls s k = Some a"
  shows "sole i a s'"
  using assms unfolding sole_def by metis

lemma outer_step_ctrls:
  "outer_step i ch s = Some s' \<Longrightarrow> ctrls s' k = Some a \<Longrightarrow> ctrls s k = Some a"
  by (erule outer_step_cases) (auto simp: delTaskCtrl_def split: if_splits)

lemma stopping_Run_start:
  assumes "stopping i a s" and "sole i a s"
  shows "stopping i a (snd (Run_start p s)) \<and> sole i a (snd (Run_start p s)) \<and>
    run_rank i a (snd (Run_start p s)) = run_rank i a s"
proof (cases rule: Run_start_cases [of s p])
  case Started
  have a: "i < length (runs s)" "a < length (runs s)" using assms(1) by (auto simp: stopping_def)
  have "stopping i a (snd (Run_start p s))"
    by (rule stopping_cong [OF assms(1)]) (use a in \<open>simp_all add: Started(2) nth_append\<close>)
  moreover have "sole i a (snd (Run_start p s))"
    using assms(2) a by (auto simp: Started(2) sole_def nth_append less_Suc_eq)
  ultimately show ?thesis using a by (simp add: Started(2) nth_append)
qed (use assms in simp)

lemma rank_upd: "rank c' pc \<le> rank c pc + 3" if
  "pauseCh c' = pauseCh c \<or> resumeCh c' = resumeCh c" for c c' pc
  using that by (induction pc) auto

lemma control_rank:
  assumes "call_step opn s = Some s'" and "\<And>p. opn \<noteq> OpRun p"
  obtains b f where "s' = upd_ctrl b f s" "\<And>c. stopCh c \<Longrightarrow> stopCh (f c)"
    "\<And>c. pauseCh (f c) = pauseCh c \<or> resumeCh (f c) = resumeCh c"
  using assms
proof (cases opn)
  case (OpRun p)
  then show ?thesis using assms(2) by simp
next
  case (OpExit k)
  with assms(1) that [of _ id] that [of _ "exitCh_update (\<lambda>_. True)"] show ?thesis
    by (auto simp: call_step_def goroutine_methods upd_ctrl_def split: if_splits option.splits)
next
  case (OpStop k)
  with assms(1) that [of _ id] that [of _ "stopCh_update (\<lambda>_. True)"] show ?thesis
    by (auto simp: call_step_def goroutine_methods upd_ctrl_def split: if_splits option.splits)
next
  case (OpPause k)
  with assms(1) that [of _ id] that [of _ "pauseCh_update (\<lambda>_. True)"] show ?thesis
    by (auto simp: call_step_def goroutine_methods upd_ctrl_def split: if_splits option.splits)
next
  case (OpResume k)
  with assms(1) that [of _ id] that [of _ "resumeCh_update (\<lambda>_. True)"] show ?thesis
    by (auto simp: call_step_def goroutine_methods upd_ctrl_def split: if_splits option.splits)
qed

definition is_inner :: "nat \<Rightarrow> label \<Rightarrow> bool" where
  "is_inner i l \<longleftrightarrow> (\<exists>ch. l = Inner i ch)"
definition is_call :: "label \<Rightarrow> bool" where
  "is_call l \<longleftrightarrow> (\<exists>opn. l = Call opn)"

lemma is_inner_code [code, simp]:
  "is_inner i (Inner j ch) = (j = i)" "\<not> is_inner i (Call opn)" "\<not> is_inner i Caller"
  "\<not> is_inner i (Outer j ch)" "\<not> is_inner i Recv"
  by (auto simp: is_inner_def)

lemma is_call_code [code, simp]:
  "\<not> is_call (Inner j ch)" "is_call (Call opn)" "\<not> is_call Caller"
  "\<not> is_call (Outer j ch)" "\<not> is_call Recv"
  by (auto simp: is_call_def)

lemma stopping_step:
  assumes "stopping i a s" and "sole i a s" and "gstep l s = Some s'"
  shows "stopping i a s' \<and> sole i a s' \<and> l \<noteq> Inner i StartFn \<and>
    run_rank i a s' + (if is_inner i l then 1 else 0) \<le> run_rank i a s + (if is_call l then 3 else 0)"
  using assms(3)
proof (cases rule: gstep_cases)
  case (Call opn)
  show ?thesis
  proof (cases "\<exists>p. opn = OpRun p")
    case True
    with Call stopping_Run_start [OF assms(1,2)] show ?thesis
      by (auto simp: call_step_def split: if_splits)
  next
    case False
    with Call obtain b f where s': "s' = upd_ctrl b f s" and f: "\<And>c. stopCh c \<Longrightarrow> stopCh (f c)"
      "\<And>c. pauseCh (f c) = pauseCh c \<or> resumeCh (f c) = resumeCh c"
      by (auto elim: control_rank)
    have "stopping i a s'" by (rule stopping_cong [OF assms(1)]) (use f in \<open>auto simp: s'\<close>)
    moreover have "sole i a s'" by (rule sole_cong [OF assms(2)]) (simp_all add: s')
    moreover have "run_rank i a s' \<le> run_rank i a s + 3"
      using rank_upd [OF f(2) [of "ctrl_store s a"]] by (cases "a = b") (simp_all add: s')
    ultimately show ?thesis using Call(1) by simp
  qed
next
  case Caller
  from Caller(2) have "ctrl_store s' = ctrl_store s" "runs s' = runs s" "ctrls s' = ctrls s"
    by (auto elim!: caller_step_cases)
  then show ?thesis
    using Caller(1) stopping_cong [OF assms(1), of s'] sole_cong [OF assms(2), of s'] by simp
next
  case (Inner j ch)
  note sole' = sole_inner [OF assms(2) Inner(3,2)]
  show ?thesis
  proof (cases "j = i")
    case True
    then show ?thesis using stopping_own [OF assms(1), of ch s'] Inner sole' by auto
  next
    case False
    then have "refers (inner (runs s ! j)) \<noteq> Some a" using assms(2) Inner(2) by (simp add: sole_def)
    from inner_other_ctrl [OF Inner(3) this] inner_step_frame [OF Inner(3,2)] False
    have "ctrl_store s' a = ctrl_store s a" "runs s' ! i = runs s ! i" "length (runs s') = length (runs s)"
      by simp_all
    with stopping_cong [OF assms(1), of s'] sole' False Inner(1) show ?thesis by simp
  qed
next
  case (Outer j ch)
  note fr = outer_step_frame [OF Outer(3,2)]
  have c: "stopCh (ctrl_store s' a) = stopCh (ctrl_store s a)"
    "pauseCh (ctrl_store s' a) = pauseCh (ctrl_store s a)"
    "resumeCh (ctrl_store s' a) = resumeCh (ctrl_store s a)"
    by (simp_all add: fr(1))
  have "rank (ctrl_store s' a) pc = rank (ctrl_store s a) pc" for pc
    by (induction pc) (simp_all add: c)
  moreover have "stopping i a s'"
    by (rule stopping_cong [OF assms(1)]) (simp_all add: fr(3,4) c)
  moreover have "sole i a s'"
    by (rule sole_cong [OF assms(2)]) (use fr outer_step_ctrls [OF Outer(3)] in simp_all)
  ultimately show ?thesis using Outer(1) fr(4) by simp
next
  case (Recv r rs)
  then show ?thesis
    using stopping_cong [OF assms(1), of s'] sole_cong [OF assms(2), of s'] by simp
qed

lemma stopping_trace:
  "stopping i a s \<Longrightarrow> sole i a s \<Longrightarrow> gtrace ls s = Some s' \<Longrightarrow>
     stopping i a s' \<and> Inner i StartFn \<notin> set ls \<and>
     run_rank i a s' + length (filter (is_inner i) ls) \<le> run_rank i a s + 3 * length (filter is_call ls)"
proof (induction ls arbitrary: s)
  case (Cons l ls)
  from Cons.prems(3) obtain s1 where s1: "gstep l s = Some s1" "gtrace ls s1 = Some s'"
    by (auto split: option.splits)
  have st: "stopping i a s1" "sole i a s1" "l \<noteq> Inner i StartFn"
    "run_rank i a s1 + (if is_inner i l then 1 else 0) \<le> run_rank i a s + (if is_call l then 3 else 0)"
    using stopping_step [OF Cons.prems(1,2) s1(1)] by blast+
  from Cons.IH [OF st(1,2) s1(2)] st(3,4) show ?case by (auto split: if_splits)
qed simp

lemma stopping_enabled:
  assumes "stopping i a s" and "inner (runs s ! i) \<noteq> InEnd" and "length (resultChan s) < 10"
  shows "\<exists>ch s'. gstep (Inner i ch) s = Some s'"
proof -
  have "\<exists>ch s'. inner_step i ch s = Some s'"
  proof (cases "inner (runs s ! i)")
    case (InLoop b)
    with assms(1) have "inner_step i TakeStop s \<noteq> None" by (auto simp: stopping_def inner_step_def Let_def)
    then show ?thesis by blast
  next
    case (InPaused b)
    with assms(1) have "inner_step i TakeStop s \<noteq> None" by (auto simp: stopping_def inner_step_def Let_def)
    then show ?thesis by blast
  next
    case (InFn b)
    then have "inner_step i (FnDone (FnReturn False None)) s \<noteq> None" by (simp add: inner_step_def Let_def)
    then show ?thesis by blast
  next
    case (InSync r pc)
    then have "inner_step i Next s \<noteq> None" by (simp add: inner_step_def Let_def)
    then show ?thesis by blast
  next
    case (InSend r pc)
    with assms(3) have "inner_step i Next s \<noteq> None" by (simp add: inner_step_def send_result_def Let_def)
    then show ?thesis by blast
  next
    case InFinish
    then have "inner_step i Next s \<noteq> None" by (simp add: inner_step_def Let_def)
    then show ?thesis by blast
  qed (use assms(1,2) in \<open>simp_all add: stopping_def\<close>)
  with assms(1) show ?thesis by (auto simp: gstep_def stopping_def)
qed

section \<open>Runs that are not exited\<close>

text \<open>
  An inner goroutine only uses a \<open>*taskCtrl\<close> of its own key, and only its own one as long as no
  \<open>Exit\<close> was ordered for the key: then the outer goroutine stays in its \<open>select\<close> until the inner one
  has ended, so that the key is not given away before.
\<close>

definition same_key :: "gexec \<Rightarrow> bool" where
  "same_key s \<longleftrightarrow> (\<forall>j<length (runs s). \<forall>b. refers (inner (runs s ! j)) = Some b \<longrightarrow>
     b < length (runs s) \<and> run_key (runs s ! b) = run_key (runs s ! j))"

definition own_run :: "gexec \<Rightarrow> nat \<Rightarrow> bool" where
  "own_run s j \<longleftrightarrow> \<not> exitCh (ctrl_store s j) \<and>
     (case refers (inner (runs s ! j)) of None \<Rightarrow> True | Some b \<Rightarrow> b = j) \<and>
     (finishCh (runs s ! j) \<longrightarrow> inner (runs s ! j) = InEnd) \<and>
     (inner (runs s ! j) = InEnd \<or> outer (runs s ! j) = OutStart \<or> outer (runs s ! j) = OutSelect j)"

definition not_exited :: "string \<Rightarrow> gexec \<Rightarrow> bool" where
  "not_exited k s \<longleftrightarrow> (\<forall>j<length (runs s). run_key (runs s ! j) = k \<longrightarrow> own_run s j)"

lemma same_key_step:
  assumes "same_key s" and "reg_ok s" and "gstep l s = Some s'"
  shows "same_key s'"
  using assms(3)
proof (cases rule: gstep_cases)
  case (Call opn)
  from Call(2) show ?thesis
  proof (cases rule: control_cases)
    case (Run p)
    show ?thesis
    proof (cases rule: Run_start_cases [of s p])
      case Started
      with assms(1) Run show ?thesis by (auto simp: same_key_def nth_append less_Suc_eq)
    qed (use assms(1) Run in simp)
  qed (use assms(1) in \<open>auto simp: same_key_def\<close>)
next
  case Caller
  then show ?thesis using assms(1) by (auto elim!: caller_step_cases simp: same_key_def)
next
  case (Inner i ch)
  note fr = inner_step_frame [OF Inner(3,2)]
  have "b < length (runs s) \<and> run_key (runs s ! b) = run_key (runs s ! i)"
    if "refers (inner (runs s' ! i)) = Some b" for b
  proof (cases "inner (runs s ! i) = InStart")
    case True
    with that Inner(2,3) have "ctrls s (run_key (runs s ! i)) = Some b"
      by (auto elim!: inner_step_cases simp: runs_set_run recovered_def)
    with assms(2) show ?thesis by (auto simp: reg_ok_def)
  next
    case False
    with that Inner(2,3) have "refers (inner (runs s ! i)) = Some b"
      by (auto elim!: inner_step_cases simp: runs_set_run recovered_def)
    with assms(1) Inner(2) show ?thesis by (auto simp: same_key_def)
  qed
  with assms(1) fr show ?thesis unfolding same_key_def by metis
next
  case (Outer i ch)
  with assms(1) outer_step_frame [OF Outer(3,2)] show ?thesis by (simp add: same_key_def)
qed (use assms(1) in \<open>simp add: same_key_def\<close>)

lemma own_run_cong:
  assumes "own_run s j" and "exitCh (ctrl_store s' j) = exitCh (ctrl_store s j)"
    and "runs s' ! j = runs s ! j"
  shows "own_run s' j"
  using assms by (simp add: own_run_def)

lemma not_exited_step:
  assumes inv: "not_exited k s" and reg: "reg_ok s" and same: "same_key s"
    and step: "gstep l s = Some s'" and no: "l \<noteq> Call (OpExit k)"
  shows "not_exited k s'"
  using step
proof (cases rule: gstep_cases)
  case (Call opn)
  show ?thesis
  proof (cases opn)
    case (OpRun p)
    with Call(2) have s': "s' = snd (Run_start p s)" by (auto simp: call_step_def split: if_splits)
    show ?thesis
    proof (cases rule: Run_start_cases [of s p])
      case Started
      show ?thesis unfolding not_exited_def
      proof (intro allI impI)
        fix j assume "j < length (runs s')" "run_key (runs s' ! j) = k"
        then consider "j < length (runs s)" "run_key (runs s ! j) = k" | "j = length (runs s)"
          by (auto simp: s' Started nth_append less_Suc_eq)
        then show "own_run s' j"
        proof cases
          case 1
          with inv have "own_run s j" by (simp add: not_exited_def)
          then show ?thesis by (rule own_run_cong) (use 1 in \<open>simp_all add: s' Started nth_append\<close>)
        next
          case 2
          then show ?thesis by (simp add: s' Started own_run_def new_taskCtrl_def)
        qed
      qed
    qed (use inv s' in simp)
  next
    case (OpExit k2)
    then have ne: "k2 \<noteq> k" using no Call(1) by simp
    from Call(2) OpExit obtain a where "s' = s \<or> (ctrls s k2 = Some a \<and> s' = upd_ctrl a (exitCh_update (\<lambda>_. True)) s)"
      by (auto simp: call_step_def goroutine_methods split: if_splits option.splits)
    then show ?thesis
    proof
      assume a: "ctrls s k2 = Some a \<and> s' = upd_ctrl a (exitCh_update (\<lambda>_. True)) s"
      then have "run_key (runs s ! a) = k2" using reg by (simp add: reg_ok_def)
      with a ne inv show ?thesis by (auto simp: not_exited_def own_run_def)
    qed (use inv in simp)
  qed (use inv Call(2) in \<open>auto simp: call_step_def goroutine_methods not_exited_def own_run_def upd_ctrl_def
      split: if_splits option.splits\<close>)
next
  case Caller
  then show ?thesis using inv by (auto elim!: caller_step_cases simp: not_exited_def own_run_def)
next
  case (Inner i ch)
  note fr = inner_step_frame [OF Inner(3,2)]
  have e: "exitCh (ctrl_store s' b) = exitCh (ctrl_store s b)" for b
    using Inner(3) by (auto elim!: inner_step_cases simp: recovered_def split: if_splits)
  have "own_run s' i" if k: "run_key (runs s ! i) = k"
  proof -
    have own: "own_run s i" using inv Inner(2) k by (simp add: not_exited_def)
    have "reg_run (ctrls s) i (runs s ! i)" using reg Inner(2) by (simp add: reg_ok_def)
    then have reg_i: "outer (runs s ! i) \<noteq> OutEnd \<Longrightarrow> ctrls s (run_key (runs s ! i)) = Some i"
      by (simp add: reg_run_def)
    show ?thesis
      using Inner(3) by (cases rule: inner_step_cases)
        (use own reg_i Inner(2) in \<open>auto simp: own_run_def runs_set_run recovered_def split: option.splits if_splits\<close>)
  qed
  moreover have "own_run s' j" if "j \<noteq> i" "own_run s j" for j
    by (rule own_run_cong [OF that(2)]) (use that(1) e fr in auto)
  ultimately show ?thesis using inv fr unfolding not_exited_def by metis
next
  case (Outer i ch)
  note fr = outer_step_frame [OF Outer(3,2)]
  have "own_run s' j" if j: "j < length (runs s)" "run_key (runs s ! j) = k" for j
  proof (cases "j = i")
    case True
    have own: "own_run s i" using inv j True by (simp add: not_exited_def)
    have "reg_run (ctrls s) i (runs s ! i)" using reg j True by (simp add: reg_ok_def)
    then have reg_i: "ctrls s (run_key (runs s ! i)) = Some i \<or> outer (runs s ! i) = OutEnd" by (simp add: reg_run_def)
    from Outer(3) show ?thesis
      by (cases rule: outer_step_cases)
        (use own reg_i True j fr(1) in \<open>auto simp: own_run_def runs_set_run delTaskCtrl_def split: option.splits if_splits\<close>)
  next
    case False
    have "own_run s j" using inv j by (simp add: not_exited_def)
    then show ?thesis
      using fr(1) [of j] fr(6) [OF False] by (auto simp: own_run_def)
  qed
  then show ?thesis using fr unfolding not_exited_def by metis
next
  case (Recv r rs)
  with inv show ?thesis by (simp add: not_exited_def own_run_def)
qed

lemma not_exited_trace:
  "gtrace ls s = Some s' \<Longrightarrow> greach s \<Longrightarrow> same_key s \<Longrightarrow> not_exited k s \<Longrightarrow> Call (OpExit k) \<notin> set ls \<Longrightarrow>
     greach s' \<and> same_key s' \<and> not_exited k s'"
proof (induction ls arbitrary: s)
  case (Cons l ls)
  then obtain s1 where s1: "gstep l s = Some s1" "gtrace ls s1 = Some s'" by (auto split: option.splits)
  have "reg_ok s" using greach_inv [OF Cons.prems(2)] by simp
  then have "greach s1" "same_key s1" "not_exited k s1"
    using Cons.prems s1(1) greach.step same_key_step not_exited_step by auto
  with Cons.IH [OF s1(2)] Cons.prems(5) show ?case by simp
qed simp

text \<open>So a run of such a key is the only one on its \<open>*taskCtrl\<close>.\<close>

lemma not_exited_sole:
  assumes "gtrace hs goroutine_NewExecutor = Some s" and "Call (OpExit (run_key (runs s ! i))) \<notin> set hs"
    and "i < length (runs s)" and "refers (inner (runs s ! i)) = Some a"
  shows "a = i \<and> sole i a s"
proof -
  let ?k = "run_key (runs s ! i)"
  have "same_key goroutine_NewExecutor" "not_exited ?k goroutine_NewExecutor"
    by (simp_all add: same_key_def not_exited_def goroutine_NewExecutor_def)
  from not_exited_trace [OF assms(1) greach.init this assms(2)]
  have inv: "greach s" "same_key s" "not_exited ?k s" by simp_all
  then have reg: "reg_ok s" using greach_inv by simp
  have a: "a = i" using inv(3) assms(3,4) by (auto simp: not_exited_def own_run_def)
  have "refers (inner (runs s ! j)) \<noteq> Some i \<and>
      (\<not> started (inner (runs s ! j)) \<longrightarrow> ctrls s (run_key (runs s ! j)) \<noteq> Some i)"
    if j: "j < length (runs s)" "j \<noteq> i" for j
  proof (cases "run_key (runs s ! j) = ?k")
    case True
    then have own: "own_run s j" using inv(3) j(1) by (simp add: not_exited_def)
    have "ctrls s (run_key (runs s ! j)) = Some j" if "\<not> started (inner (runs s ! j))"
    proof -
      have "inner (runs s ! j) \<noteq> InEnd" using that by auto
      then have "outer (runs s ! j) \<noteq> OutEnd" using own by (auto simp: own_run_def)
      then show ?thesis using reg j(1) by (simp add: reg_ok_def reg_run_def)
    qed
    with own j(2) show ?thesis by (auto simp: own_run_def)
  next
    case False
    have "ctrls s (run_key (runs s ! j)) \<noteq> Some i" using reg False by (auto simp: reg_ok_def)
    moreover have "refers (inner (runs s ! j)) \<noteq> Some i" using inv(2) False j(1) by (auto simp: same_key_def)
    ultimately show ?thesis by simp
  qed
  then show ?thesis by (simp add: a sole_def)
qed

section \<open>Properties\<close>

text \<open>
  C20: in every reachable state of the executor the result channel holds at most ten results, no
  task is listed in a final state, no outer goroutine has dereferenced a missing \<open>taskCtrl\<close>, and a
  run is registered under its key exactly until its outer goroutine ends, so that two unfinished
  runs never have the same key.
\<close>

theorem goroutine_executor_invariant:
  assumes "greach s"
  shows "length (resultChan s) \<le> 10 \<and>
    (\<forall>k st. taskStatus s k = Some st \<longrightarrow> \<not> IsFinalStatus st) \<and>
    (\<forall>i<length (runs s). outer (runs s ! i) \<noteq> OutCrash \<and>
       (ctrls s (run_key (runs s ! i)) = Some i \<longleftrightarrow> outer (runs s ! i) \<noteq> OutEnd)) \<and>
    (\<forall>i<length (runs s). \<forall>j<length (runs s). outer (runs s ! i) \<noteq> OutEnd \<longrightarrow>
       outer (runs s ! j) \<noteq> OutEnd \<longrightarrow> run_key (runs s ! i) = run_key (runs s ! j) \<longrightarrow> i = j)"
proof -
  have "chan_ok s" "status_ok s" and reg: "\<And>i. i < length (runs s) \<Longrightarrow> reg_run (ctrls s) i (runs s ! i)"
    using greach_inv [OF assms] by (auto simp: reg_ok_def)
  moreover have "i = j" if "i < length (runs s)" "j < length (runs s)" "outer (runs s ! i) \<noteq> OutEnd"
    "outer (runs s ! j) \<noteq> OutEnd" "run_key (runs s ! i) = run_key (runs s ! j)" for i j
    using reg [OF that(1)] reg [OF that(2)] that(3-5) by (auto simp: reg_run_def)
  ultimately show ?thesis unfolding chan_ok_def status_ok_def reg_run_def by blast
qed

text \<open>
  C19: a stop takes effect.  Take a reachable state of the executor in which the goroutine of a run is
  in its loop, in the business function or in the pause, and in which no \<open>Exit\<close> was ordered for the
  task before.  Once a stop is pending in the channel of the run, whatever the other goroutines and the
  caller do, the business function is not called again by this run; its goroutine makes at most eleven
  more steps, and three for every method that is called meanwhile; and until it has ended it always has
  a step, except while the result channel is full.  After an \<open>Exit\<close> this can fail
  (\<open>leftover_goroutine_takes_stop\<close>): the next run of the key can share its \<open>*taskCtrl\<close> with the
  goroutine that was left over, which may take the stop.
\<close>

theorem stop_takes_effect:
  assumes "gtrace hs goroutine_NewExecutor = Some s"
    and "Call (OpExit (run_key (runs s ! i))) \<notin> set hs" and "i < length (runs s)"
    and "inner (runs s ! i) \<in> {InLoop a, InFn a, InPaused a}" and "stopCh (ctrl_store s a)"
    and "gtrace ls s = Some s'"
  shows "Inner i StartFn \<notin> set ls \<and>
    length (filter (is_inner i) ls) \<le> 11 + 3 * length (filter is_call ls) \<and>
    (inner (runs s' ! i) \<noteq> InEnd \<and> length (resultChan s') < 10 \<longrightarrow>
       (\<exists>ch s''. gstep (Inner i ch) s' = Some s''))"
proof -
  have "refers (inner (runs s ! i)) = Some a" using assms(4) by auto
  note own = not_exited_sole [OF assms(1-3) this]
  have "stopping i a s" using assms(3-5) own by (auto simp: stopping_def)
  from stopping_trace [OF this _ assms(6)] own
  have t: "stopping i a s'" "Inner i StartFn \<notin> set ls"
    "run_rank i a s' + length (filter (is_inner i) ls) \<le> run_rank i a s + 3 * length (filter is_call ls)"
    by blast+
  have "run_rank i a s \<le> 11" using assms(4) by auto
  with t stopping_enabled [OF t(1)] show ?thesis by auto
qed

text \<open>The steps of the single runs below.\<close>

definition demo_start :: "TaskExecParam \<Rightarrow> label list" where
  "demo_start p = [Call (OpRun p), Caller, Caller, Inner 0 Next, Outer 0 Next]"

lemmas gstep_eval =
  gtrace.simps gstep_def call_step_def caller_step_def inner_step_def outer_step_def Run_start_def
  goroutine_methods getTaskCtrl_def initTaskCtrl_def delTaskCtrl_def setTaskStatus_def
  send_result_def upd_ctrl_def set_run_def recovered_def syncRunFinishResult_def
  goroutine_NewExecutor_def new_taskCtrl_def new_run_def demo_start_def Let_def

text \<open>
  \<open>Exit\<close> does not stop a task.  After the exit the failure has been reported and the task is no
  longer registered, but its goroutine calls the business function again, and reports a second
  final result, success, at its end.
\<close>

theorem exit_leaves_worker_running:
  "\<exists>s s'. gtrace (demo_start p @ [Inner 0 StartFn, Call (OpExit (param_TaskKey p)), Outer 0 TakeExit,
      Outer 0 Next, Outer 0 Next, Outer 0 Next, Outer 0 Next]) goroutine_NewExecutor = Some s \<and>
    ctrls s (param_TaskKey p) = None \<and> outer (runs s ! 0) = OutEnd \<and>
    map res_Status (resultChan s) = [TaskStatusRunning, TaskStatusFailed] \<and>
    gtrace [Inner 0 (FnDone (FnReturn False None)), Inner 0 StartFn,
      Inner 0 (FnDone (FnReturn True None)), Inner 0 Next, Inner 0 Next] s = Some s' \<and>
    map res_Status (resultChan s') = [TaskStatusRunning, TaskStatusFailed, TaskStatusSuccess]"
  by (simp add: gstep_eval)

text \<open>
  An exit before the first goroutine of a run has read its \<open>*taskCtrl\<close>, and a second run of the task: both
  inner goroutines then use the second \<open>*taskCtrl\<close>, the left over one takes the stop that is meant for
  the second run, and the second run calls the business function again.
\<close>

theorem leftover_goroutine_takes_stop:
  "\<exists>s s'. gtrace [Call (OpRun p), Caller, Caller, Call (OpExit (param_TaskKey p)), Outer 0 Next,
      Outer 0 TakeExit, Outer 0 Next, Outer 0 Next, Outer 0 Next, Outer 0 Next,
      Call (OpRun p), Caller, Caller, Inner 0 Next, Inner 1 Next, Call (OpStop (param_TaskKey p))]
      goroutine_NewExecutor = Some s \<and>
    inner (runs s ! 1) = InLoop 1 \<and> stopCh (ctrl_store s 1) \<and>
    gtrace [Inner 0 TakeStop, Inner 1 StartFn] s = Some s' \<and>
    inner (runs s' ! 1) = InFn 1 \<and> \<not> stopCh (ctrl_store s' 1)"
  by (simp add: gstep_eval)

text \<open>
  A task that ends fast stays listed as running.  When its goroutines end before \<open>Run\<close> reports
  the start, success is reported first and running last, the task is listed as running although it
  is not registered any more, and no command on it is accepted.
\<close>

theorem fast_task_stays_running:
  "\<exists>s. gtrace [Call (OpRun p), Inner 0 Next, Inner 0 StartFn, Inner 0 (FnDone (FnReturn True None)),
      Inner 0 Next, Inner 0 Next, Inner 0 Next, Outer 0 Next, Caller, Caller, Outer 0 TakeFinish,
      Outer 0 Next, Outer 0 Next] goroutine_NewExecutor = Some s \<and>
    map res_Status (resultChan s) = [TaskStatusSuccess, TaskStatusRunning] \<and>
    taskStatus s (param_TaskKey p) = Some TaskStatusRunning \<and>
    inner (runs s ! 0) = InEnd \<and> outer (runs s ! 0) = OutEnd \<and>
    goroutine_Stop (param_TaskKey p) s = (CallReturns (Some (NeedAfterRun ''stop'')), s) \<and>
    goroutine_Exit (param_TaskKey p) s = (CallReturns (Some (NeedAfterRun ''exit'')), s)"
  by (simp add: gstep_eval)

text \<open>
  Pausing a paused task twice hangs the caller.  The first of the two pauses stays in the
  channel, the second waits for room in it, because \<open>Pause\<close> tests the stop channel and not its own;
  the goroutines of the task wait for a stop or a resume, which only the caller can send.
\<close>

theorem repeated_pause_deadlocks:
  "\<exists>s. gtrace (demo_start p @ [Call (OpPause (param_TaskKey p)), Inner 0 TakePause, Inner 0 Next,
      Inner 0 Next, Call (OpPause (param_TaskKey p))]) goroutine_NewExecutor = Some s \<and>
    goroutine_Pause (param_TaskKey p) s = (CallBlocks, s) \<and> length (runs s) = 1 \<and>
    (\<forall>ch. gstep (Inner 0 ch) s = None \<and> gstep (Outer 0 ch) s = None)"
proof -
  let ?ls = "demo_start p @ [Call (OpPause (param_TaskKey p)), Inner 0 TakePause, Inner 0 Next,
      Inner 0 Next, Call (OpPause (param_TaskKey p))]"
  obtain s where s: "gtrace ?ls goroutine_NewExecutor = Some s" "inner (runs s ! 0) = InPaused 0"
    "outer (runs s ! 0) = OutSelect 0" "length (runs s) = 1" "\<not> stopCh (ctrl_store s 0)"
    "\<not> resumeCh (ctrl_store s 0)" "pauseCh (ctrl_store s 0)" "\<not> exitCh (ctrl_store s 0)"
    "\<not> finishCh (runs s ! 0)" "ctrls s (param_TaskKey p) = Some 0"
    by (simp add: gstep_eval)
  have "gstep (Inner 0 ch) s = None \<and> gstep (Outer 0 ch) s = None" for ch
    using s by (cases ch) (simp_all add: gstep_def inner_step_def outer_step_def Let_def)
  with s show ?thesis by (auto simp: goroutine_Pause_def getTaskCtrl_def)
qed

text \<open>
  A resume of a running task is kept and undoes the next pause: the task reports paused and at
  once running again.
\<close>

theorem early_resume_undoes_pause:
  "\<exists>s. gtrace (demo_start p @ [Call (OpResume (param_TaskKey p)), Call (OpPause (param_TaskKey p)),
      Inner 0 TakePause, Inner 0 Next, Inner 0 Next, Inner 0 TakeResume, Inner 0 Next, Inner 0 Next])
      goroutine_NewExecutor = Some s \<and>
    map res_Status (resultChan s) = [TaskStatusRunning, TaskStatusPaused, TaskStatusRunning] \<and>
    taskStatus s (param_TaskKey p) = Some TaskStatusRunning \<and> inner (runs s ! 0) = InLoop 0"
  by (simp add: gstep_eval)

section \<open>Witnesses\<close>

definition demo_param :: TaskExecParam where
  "demo_param = \<lparr>param_TaskKey = ''a'', param_BizID = [], param_BizType = [], param_Payload = []\<rparr>"

lemma gtrace_greach: "greach s \<Longrightarrow> gtrace ls s = Some s' \<Longrightarrow> greach s'"
  by (induction ls arbitrary: s) (auto split: option.splits intro: greach.step)

theorem goroutine_executor_invariant_witness:
  "\<exists>s. gtrace (demo_start demo_param) goroutine_NewExecutor = Some s \<and>
     taskStatus s ''a'' = Some TaskStatusRunning \<and> length (resultChan s) \<le> 10"
proof -
  obtain s where s: "gtrace (demo_start demo_param) goroutine_NewExecutor = Some s"
    "taskStatus s ''a'' = Some TaskStatusRunning"
    by (simp add: gstep_eval demo_param_def)
  from goroutine_executor_invariant [OF gtrace_greach [OF greach.init s(1)]] s show ?thesis by blast
qed

theorem stop_takes_effect_witness:
  "\<exists>s s'. gtrace (demo_start demo_param @ [Call (OpStop ''a'')]) goroutine_NewExecutor = Some s \<and>
     gtrace [Inner 0 TakeStop, Inner 0 Next, Inner 0 Next, Inner 0 Next] s = Some s' \<and>
     inner (runs s' ! 0) = InEnd \<and>
     length (filter (is_inner 0) [Inner 0 TakeStop, Inner 0 Next, Inner 0 Next, Inner 0 Next]) \<le>
       11 + 3 * length (filter is_call [Inner 0 TakeStop, Inner 0 Next, Inner 0 Next, Inner 0 Next])"
proof -
  let ?ls = "[Inner 0 TakeStop, Inner 0 Next, Inner 0 Next, Inner 0 Next]"
  obtain s s' where s: "gtrace (demo_start demo_param @ [Call (OpStop ''a'')]) goroutine_NewExecutor = Some s"
    "length (runs s) = 1" "inner (runs s ! 0) = InLoop 0" "stopCh (ctrl_store s 0)"
    and s': "gtrace ?ls s = Some s'" "inner (runs s' ! 0) = InEnd"
    by (simp add: gstep_eval demo_param_def)
  have "0 < length (runs s)" "inner (runs s ! 0) \<in> {InLoop 0, InFn 0, InPaused 0}"
    "Call (OpExit (run_key (runs s ! 0))) \<notin> set (demo_start demo_param @ [Call (OpStop ''a'')])"
    using s by (simp_all add: demo_start_def)
  from stop_takes_effect [OF s(1) this(3,1,2) s(4) s'(1)] s(1) s' show ?thesis by blast
qed

end
