(* ===== verification/DockerExecutor.thy ===== *)
theory DockerExecutor
  imports Executor Strconv
begin

text \<open>
  \<^verbatim>\<open>core/worker/executor/docker/docker.go\<close>: the executor that runs a task in a container.  The Docker
  client and the JSON library are outside the repository: the client is the record of the methods
  that the code calls, acting on a state \<open>'d\<close> of the daemon, and \<open>unmarshal\<close> reads the configuration
  from the payload.
\<close>

section \<open>The client\<close>

record Config =
  Image :: string
  Labels :: "(string \<rightharpoonup> string) option" \<comment> \<open>\<open>None\<close> is the nil map\<close>

record Container =
  Names :: "string list"
  ContainerID :: string
  State :: string
  Status :: string

text \<open>
  The reader of a pull is the list of what the decoder returns until the end of the stream.
\<close>

datatype decoded = Progress | DecodeError error

record ListOptions =
  list_All :: bool
  list_Filters :: "(string \<times> string) list"

record 'd Client =
  ImagePull :: "string \<Rightarrow> 'd \<Rightarrow> decoded list result \<times> 'd"
  ContainerCreate :: "Config \<Rightarrow> string \<Rightarrow> 'd \<Rightarrow> string result \<times> 'd"
  ContainerStart :: "string \<Rightarrow> 'd \<Rightarrow> error option \<times> 'd"
  ContainerStop :: "string \<Rightarrow> 'd \<Rightarrow> error option \<times> 'd"
  ContainerPause :: "string \<Rightarrow> 'd \<Rightarrow> error option \<times> 'd"
  ContainerUnpause :: "string \<Rightarrow> 'd \<Rightarrow> error option \<times> 'd"
  ContainerRemove :: "string \<Rightarrow> 'd \<Rightarrow> error option \<times> 'd"
  ContainerList :: "ListOptions \<Rightarrow> 'd \<Rightarrow> Container list result"

section \<open>State\<close>

text \<open>\<open>monitors\<close> are the running goroutines \<open>monitorContainer\<close> with their arguments.\<close>

record 'd dexec =
  daemon :: 'd
  taskStatus :: "string \<rightharpoonup> TaskStatus"
  taskContainerID :: "string \<rightharpoonup> string"
  resultChan :: "TaskExecResult list"
  monitors :: "(string \<times> string) list"

definition docker_setTaskStatus :: "string \<Rightarrow> TaskStatus \<Rightarrow> 'd dexec \<Rightarrow> 'd dexec" where
  "docker_setTaskStatus taskKey status s = s\<lparr>taskStatus := (taskStatus s)(taskKey \<mapsto> status)\<rparr>"

definition setContainerID :: "string \<Rightarrow> string \<Rightarrow> 'd dexec \<Rightarrow> 'd dexec" where
  "setContainerID taskKey containerID s =
     s\<lparr>taskContainerID := (taskContainerID s)(taskKey \<mapsto> containerID)\<rparr>"

definition getContainerID :: "string \<Rightarrow> 'd dexec \<Rightarrow> string result" where
  "getContainerID taskKey s =
     (case taskContainerID s taskKey of None \<Rightarrow> Err (ContainerNotFound taskKey) | Some c \<Rightarrow> Ok c)"

definition task_result :: "string \<Rightarrow> TaskStatus \<Rightarrow> string \<Rightarrow> TaskExecResult" where
  "task_result taskKey st msg =
     \<lparr>res_TaskKey = taskKey, res_TaskType = [], res_Status = st, res_Msg = msg\<rparr>"

definition docker_listTaskStatus :: "string list \<Rightarrow> 'd dexec \<Rightarrow> TaskExecResult list" where
  "docker_listTaskStatus ks s = map (\<lambda>(k, st). task_result k st []) (go_range ks (taskStatus s))"

text \<open>The send on the result channel, which has a buffer of ten.\<close>

definition docker_send :: "TaskExecResult \<Rightarrow> 'd dexec \<Rightarrow> call_outcome \<times> 'd dexec" where
  "docker_send r s =
     (if length (resultChan s) < 10 then (CallReturns None, s\<lparr>resultChan := resultChan s @ [r]\<rparr>)
      else (CallBlocks, s))"

section \<open>Run\<close>

text \<open>
  The errors that \<open>fmt.Errorf\<close> wraps carry an English tag for the message of the code.  \<open>deadline\<close>
  is the number of rounds of the loop before the context of five minutes is done.
\<close>

fun pull_loop :: "nat \<Rightarrow> decoded list \<Rightarrow> error option" where
  "pull_loop 0 reader = Some PullTimeout"
| "pull_loop (Suc deadline) [] = None"
| "pull_loop (Suc deadline) (DecodeError err # reader) = Some (Wrapped ''parse progress'' err)"
| "pull_loop (Suc deadline) (Progress # reader) = pull_loop deadline reader"

definition mirrorUrls :: "string list" where
  "mirrorUrls = [''mirror.iscas.ac.cn'', ''ccr.ccs.tencentyun.com'', ''dockerproxy.com'']"

fun try_mirrors :: "'d Client \<Rightarrow> string \<Rightarrow> string list \<Rightarrow> error \<Rightarrow> 'd \<Rightarrow> decoded list result \<times> 'd" where
  "try_mirrors cli imageUrl [] err d = (Err err, d)"
| "try_mirrors cli imageUrl (mirror # ms) err d =
     (case ImagePull cli (mirror @ ''/'' @ imageUrl) d of
        (Inr reader, d1) \<Rightarrow> (Ok reader, d1)
      | (Inl e, d1) \<Rightarrow> try_mirrors cli imageUrl ms e d1)"

definition pullImage :: "'d Client \<Rightarrow> nat \<Rightarrow> string \<Rightarrow> 'd \<Rightarrow> error option \<times> 'd" where
  "pullImage cli deadline imageUrl d =
     (case ImagePull cli imageUrl d of
        (Inr reader, d1) \<Rightarrow> (pull_loop deadline reader, d1)
      | (Inl e, d1) \<Rightarrow>
          (case try_mirrors cli imageUrl mirrorUrls e d1 of
             (Inl err, d2) \<Rightarrow> (Some (Wrapped ''pull image'' err), d2)
           | (Inr reader, d2) \<Rightarrow> (pull_loop deadline reader, d2)))"

definition label_config :: "Config \<Rightarrow> Config" where
  "label_config config =
     (case Labels config of
        None \<Rightarrow> config\<lparr>Labels := Some [''created_by_minitaskx'' \<mapsto> ''true'']\<rparr>
      | Some ls \<Rightarrow> config\<lparr>Labels := Some (ls(''created_by_minitaskx'' \<mapsto> ''true''))\<rparr>)"

definition docker_Run ::
    "(string \<Rightarrow> Config result) \<Rightarrow> 'd Client \<Rightarrow> nat \<Rightarrow> TaskExecParam \<Rightarrow> 'd dexec \<Rightarrow>
     call_outcome \<times> 'd dexec" where
  "docker_Run unmarshal cli deadline param s =
     (if param_Payload param = [] then (CallReturns (Some PayloadNil), s)
      else case unmarshal (param_Payload param) of
        Inl err \<Rightarrow> (CallReturns (Some (Wrapped ''parse container config'' err)), s)
      | Inr config \<Rightarrow>
          let config = label_config config in
          case pullImage cli deadline (Image config) (daemon s) of
            (Some err, d1) \<Rightarrow> (CallReturns (Some err), s\<lparr>daemon := d1\<rparr>)
          | (None, d1) \<Rightarrow>
              (case ContainerCreate cli config (param_TaskKey param) d1 of
                 (Inl err, d2) \<Rightarrow>
                   (CallReturns (Some (Wrapped ''create container'' err)), s\<lparr>daemon := d2\<rparr>)
               | (Inr i, d2) \<Rightarrow>
                   (case ContainerStart cli i d2 of
                      (Some err, d3) \<Rightarrow>
                        (CallReturns (Some (Wrapped ''start container'' err)), s\<lparr>daemon := d3\<rparr>)
                    | (None, d3) \<Rightarrow>
                        let s1 = docker_setTaskStatus (param_TaskKey param) TaskStatusRunning
                              (s\<lparr>daemon := d3\<rparr>);
                            s2 = setContainerID (param_TaskKey param) i s1;
                            s3 = s2\<lparr>monitors := monitors s2 @ [(param_TaskKey param, i)]\<rparr>
                        in docker_send (task_result (param_TaskKey param) TaskStatusRunning []) s3)))"

section \<open>Stop, exit, pause and resume\<close>

definition stopContainer :: "'d Client \<Rightarrow> string \<Rightarrow> 'd dexec \<Rightarrow> call_outcome \<times> 'd dexec" where
  "stopContainer cli taskKey s =
     (case getContainerID taskKey s of
        Inl err \<Rightarrow> (CallReturns (Some err), s)
      | Inr containerID \<Rightarrow>
          (case ContainerStop cli containerID (daemon s) of
             (Some err, d) \<Rightarrow> (CallReturns (Some (Wrapped ''stop container'' err)), s\<lparr>daemon := d\<rparr>)
           | (None, d) \<Rightarrow> (CallReturns None, s\<lparr>daemon := d\<rparr>)))"

definition docker_Exit :: "'d Client \<Rightarrow> string \<Rightarrow> 'd dexec \<Rightarrow> call_outcome \<times> 'd dexec" where
  "docker_Exit cli taskKey s = stopContainer cli taskKey s"

definition docker_Stop :: "'d Client \<Rightarrow> string \<Rightarrow> 'd dexec \<Rightarrow> call_outcome \<times> 'd dexec" where
  "docker_Stop cli taskKey s = stopContainer cli taskKey s"

definition docker_Pause :: "'d Client \<Rightarrow> string \<Rightarrow> 'd dexec \<Rightarrow> call_outcome \<times> 'd dexec" where
  "docker_Pause cli taskKey s =
     (case getContainerID taskKey s of
        Inl err \<Rightarrow> (CallReturns (Some err), s)
      | Inr containerID \<Rightarrow>
          (case ContainerPause cli containerID (daemon s) of
             (Some err, d) \<Rightarrow> (CallReturns (Some (Wrapped ''pause container'' err)), s\<lparr>daemon := d\<rparr>)
           | (None, d) \<Rightarrow> docker_send (task_result taskKey TaskStatusPaused [])
               (docker_setTaskStatus taskKey TaskStatusPaused (s\<lparr>daemon := d\<rparr>))))"

definition docker_Resume :: "'d Client \<Rightarrow> string \<Rightarrow> 'd dexec \<Rightarrow> call_outcome \<times> 'd dexec" where
  "docker_Resume cli taskKey s =
     (case getContainerID taskKey s of
        Inl err \<Rightarrow> (CallReturns (Some err), s)
      | Inr containerID \<Rightarrow>
          (case ContainerUnpause cli containerID (daemon s) of
             (Some err, d) \<Rightarrow> (CallReturns (Some (Wrapped ''resume container'' err)), s\<lparr>daemon := d\<rparr>)
           | (None, d) \<Rightarrow> docker_send (task_result taskKey TaskStatusRunning [])
               (docker_setTaskStatus taskKey TaskStatusRunning (s\<lparr>daemon := d\<rparr>))))"

definition docker_List :: "string list \<Rightarrow> 'd dexec \<Rightarrow> TaskExecResult list result" where
  "docker_List ks s = Ok (docker_listTaskStatus ks s)"

section \<open>The monitor of a container\<close>

text \<open>What \<open>ContainerWait\<close> delivers first: an error (with its text; \<open>None\<close> is nil) or a status.\<close>

datatype wait_event = WaitError "string option" | WaitStatus int

definition int_text :: "int \<Rightarrow> string" where
  "int_text n = (if n < 0 then ''-'' @ digits_of (- n) else digits_of n)"

text \<open>The UTF-8 bytes of the Chinese words for "container exit code" and ": ".\<close>

definition exit_code_text :: string where
  "exit_code_text = map char_of [229, 174, 185 :: int, 229, 153, 168, 233, 128, 128, 229, 135, 186,
     231, 160, 129, 58, 32]"

definition monitor_result :: "string \<Rightarrow> int \<Rightarrow> TaskExecResult" where
  "monitor_result taskKey code =
     (if code = 0 then task_result taskKey TaskStatusSuccess []
      else if code = 137 then task_result taskKey TaskStatusStop []
      else task_result taskKey TaskStatusFailed (exit_code_text @ int_text code))"

definition monitorContainer :: "string \<Rightarrow> wait_event \<Rightarrow> 'd dexec \<Rightarrow> call_outcome \<times> 'd dexec" where
  "monitorContainer taskKey ev s =
     (case ev of
        WaitError None \<Rightarrow> (CallReturns None, s)
      | WaitError (Some err) \<Rightarrow>
          docker_send (task_result taskKey TaskStatusFailed err)
            (docker_setTaskStatus taskKey TaskStatusFailed s)
      | WaitStatus code \<Rightarrow>
          let result = monitor_result taskKey code
          in docker_send result (docker_setTaskStatus taskKey (res_Status result) s))"

section \<open>Recovery and cleaning up\<close>

record containerStatus =
  cs_TaskKey :: string
  cs_ContainerID :: string
  cs_Status :: TaskStatus

definition container_status :: "Container \<Rightarrow> TaskStatus" where
  "container_status c =
     (if State c = ''exited'' then
        (if Status c = ''exited (0)'' then TaskStatusSuccess else TaskStatusFailed)
      else if State c = ''paused'' then TaskStatusPaused
      else TaskStatusRunning)"

text \<open>The loop of \<open>listByOrigin\<close>; it panics on a container without a name.\<close>

fun container_loop :: "Container list \<Rightarrow> containerStatus list run" where
  "container_loop [] = Return []"
| "container_loop (c # cs) =
     (case Names c of
        [] \<Rightarrow> Panic
      | n # ns \<Rightarrow>
          (case container_loop cs of
             Panic \<Rightarrow> Panic
           | Return results \<Rightarrow> Return (\<lparr>cs_TaskKey = n, cs_ContainerID = ContainerID c,
               cs_Status = container_status c\<rparr> # results)))"

definition own_containers :: ListOptions where
  "own_containers = \<lparr>list_All = True, list_Filters = [(''label'', ''created_by_minitaskx=true'')]\<rparr>"

definition listByOrigin :: "'d Client \<Rightarrow> 'd \<Rightarrow> containerStatus list result run" where
  "listByOrigin cli d =
     (case ContainerList cli own_containers d of
        Inl err \<Rightarrow> Return (Err (Wrapped ''list containers'' err))
      | Inr containers \<Rightarrow>
          (case container_loop containers of Panic \<Rightarrow> Panic | Return results \<Rightarrow> Return (Ok results)))"

fun restore :: "containerStatus list \<Rightarrow> 'd dexec \<Rightarrow> 'd dexec" where
  "restore [] s = s"
| "restore (c # cs) s =
     (let s1 = setContainerID (cs_TaskKey c) (cs_ContainerID c) s;
          s2 = docker_setTaskStatus (cs_TaskKey c) (cs_Status c) s1
      in restore cs (if IsFinalStatus (cs_Status c) then s2
           else s2\<lparr>monitors := monitors s2 @ [(cs_TaskKey c, cs_ContainerID c)]\<rparr>))"

definition docker_NewExecutor :: "'d Client \<Rightarrow> 'd \<Rightarrow> 'd dexec run" where
  "docker_NewExecutor cli d =
     (let e = \<lparr>daemon = d, taskStatus = Map.empty, taskContainerID = Map.empty, resultChan = [],
               monitors = []\<rparr>
      in case listByOrigin cli d of
           Panic \<Rightarrow> Panic
         | Return (Inl err) \<Rightarrow> Panic
         | Return (Inr originStatus) \<Rightarrow> Return (restore originStatus e))"

text \<open>The body of the loop of \<open>cleanupResources\<close> for one tick: \<open>tasks\<close> is the snapshot it takes.\<close>

fun cleanup_loop :: "'d Client \<Rightarrow> TaskExecResult list \<Rightarrow> 'd dexec \<Rightarrow> 'd dexec" where
  "cleanup_loop cli [] s = s"
| "cleanup_loop cli (t # tasks) s =
     (if \<not> IsFinalStatus (res_Status t) then cleanup_loop cli tasks s
      else case getContainerID (res_TaskKey t) s of
        Inl err \<Rightarrow> cleanup_loop cli tasks s
      | Inr containerID \<Rightarrow>
          (case ContainerRemove cli containerID (daemon s) of
             (Some err, d) \<Rightarrow> cleanup_loop cli tasks (s\<lparr>daemon := d\<rparr>)
           | (None, d) \<Rightarrow> cleanup_loop cli tasks
               (s\<lparr>daemon := d, taskStatus := (taskStatus s)(res_TaskKey t := None),
                  taskContainerID := (taskContainerID s)(res_TaskKey t := None)\<rparr>)))"

definition cleanupResources :: "'d Client \<Rightarrow> string list \<Rightarrow> 'd dexec \<Rightarrow> 'd dexec" where
  "cleanupResources cli ks s = cleanup_loop cli (docker_listTaskStatus ks s) s"

section \<open>The contract\<close>

definition docker_Interface ::
    "(string \<Rightarrow> Config result) \<Rightarrow> 'd Client \<Rightarrow> nat \<Rightarrow> string list \<Rightarrow> 'd dexec Interface" where
  "docker_Interface unmarshal cli deadline ks =
     \<lparr>exe_Run = docker_Run unmarshal cli deadline, exe_Pause = docker_Pause cli,
      exe_Resume = docker_Resume cli, exe_Stop = docker_Stop cli, exe_Exit = docker_Exit cli,
      exe_List = docker_List ks\<rparr>"

lemmas docker_methods =
  docker_Pause_def docker_Resume_def docker_Stop_def docker_Exit_def stopContainer_def

lemmas docker_state =
  docker_setTaskStatus_def setContainerID_def getContainerID_def docker_send_def task_result_def

lemma docker_Run_cases [case_names Refused Started Blocks]:
  obtains err d where "docker_Run unmarshal cli deadline p s = (CallReturns (Some err), s\<lparr>daemon := d\<rparr>)"
  | d i where "docker_Run unmarshal cli deadline p s = (CallReturns None, s\<lparr>daemon := d,
      taskStatus := (taskStatus s)(param_TaskKey p \<mapsto> TaskStatusRunning),
      taskContainerID := (taskContainerID s)(param_TaskKey p \<mapsto> i),
      monitors := monitors s @ [(param_TaskKey p, i)],
      resultChan := resultChan s @ [task_result (param_TaskKey p) TaskStatusRunning []]\<rparr>)"
      "length (resultChan s) < 10"
  | d i where "docker_Run unmarshal cli deadline p s = (CallBlocks, s\<lparr>daemon := d,
      taskStatus := (taskStatus s)(param_TaskKey p \<mapsto> TaskStatusRunning),
      taskContainerID := (taskContainerID s)(param_TaskKey p \<mapsto> i),
      monitors := monitors s @ [(param_TaskKey p, i)]\<rparr>)"
proof (cases "param_Payload p = []")
  case True
  then have "docker_Run unmarshal cli deadline p s = (CallReturns (Some PayloadNil), s\<lparr>daemon := daemon s\<rparr>)"
    by (simp add: docker_Run_def)
  then show thesis by (rule that(1))
next
  case payload: False
  show thesis
  proof (cases "unmarshal (param_Payload p)")
    case (Inl err)
    with payload have "docker_Run unmarshal cli deadline p s =
        (CallReturns (Some (Wrapped ''parse container config'' err)), s\<lparr>daemon := daemon s\<rparr>)"
      by (simp add: docker_Run_def)
    then show thesis by (rule that(1))
  next
    case (Inr config)
    obtain e1 d1 where pull: "pullImage cli deadline (Image (label_config config)) (daemon s) = (e1, d1)"
      by fastforce
    obtain r d2 where create: "ContainerCreate cli (label_config config) (param_TaskKey p) d1 = (r, d2)"
      by fastforce
    note run = docker_Run_def payload Inr pull create Let_def
    show thesis
    proof (cases "e1 = None \<and> (\<exists>i. r = Inr i)")
      case True
      then obtain i where i: "e1 = None" "r = Inr i" by auto
      obtain e3 d3 where start: "ContainerStart cli i d2 = (e3, d3)" by fastforce
      show thesis
      proof (cases e3)
        case None
        then show thesis using that(2,3)
          by (cases "length (resultChan s) < 10") (auto simp: run i start docker_state)
      next
        case (Some e)
        then show thesis using that(1) by (simp add: run i start)
      qed
    next
      case False
      then show thesis using that(1) by (cases e1; cases r) (auto simp: run)
    qed
  qed
qed

interpretation docker: executor "docker_Interface unmarshal cli deadline ks"
  "\<lambda>k s. taskContainerID s k \<noteq> None" taskStatus for unmarshal cli deadline ks
proof (unfold_locales, unfold docker_Interface_def Interface.select_convs, goal_cases)
  case (5 p s s')
  then show ?case by (cases rule: docker_Run_cases [of unmarshal cli deadline p s]) auto
next
  case (6 p s out s' k)
  then show ?case by (cases rule: docker_Run_cases [of unmarshal cli deadline p s]) auto
qed (auto simp: docker_methods docker_state split: option.splits prod.splits if_splits)

section \<open>Facts about recovery and cleaning up\<close>

lemma restore_other: "k \<notin> cs_TaskKey ` set cs \<Longrightarrow>
   taskStatus (restore cs s) k = taskStatus s k \<and> taskContainerID (restore cs s) k = taskContainerID s k"
  by (induction cs s rule: restore.induct) (auto simp: docker_setTaskStatus_def setContainerID_def Let_def)

lemma restore_entry:
  "distinct (map cs_TaskKey cs) \<Longrightarrow> c \<in> set cs \<Longrightarrow>
     taskStatus (restore cs s) (cs_TaskKey c) = Some (cs_Status c) \<and>
     taskContainerID (restore cs s) (cs_TaskKey c) = Some (cs_ContainerID c)"
proof (induction cs arbitrary: s)
  case (Cons x cs)
  show ?case
  proof (cases "c = x")
    case True
    with Cons.prems(1) show ?thesis
      by (simp add: Let_def restore_other docker_setTaskStatus_def setContainerID_def)
  next
    case False
    with Cons show ?thesis by (simp add: Let_def)
  qed
qed simp

lemma restore_monitors:
  "monitors (restore cs s) = monitors s @
     map (\<lambda>c. (cs_TaskKey c, cs_ContainerID c)) (filter (\<lambda>c. \<not> IsFinalStatus (cs_Status c)) cs)"
  by (induction cs s rule: restore.induct)
    (auto simp: Let_def docker_setTaskStatus_def setContainerID_def)

lemma container_loop_Return:
  "container_loop cs = Return rs \<Longrightarrow>
     rs = map (\<lambda>c. \<lparr>cs_TaskKey = hd (Names c), cs_ContainerID = ContainerID c,
       cs_Status = container_status c\<rparr>) cs"
  by (induction cs arbitrary: rs) (auto split: list.splits run.splits)

lemma container_loop_total: "\<forall>c\<in>set cs. Names c \<noteq> [] \<Longrightarrow> \<exists>rs. container_loop cs = Return rs"
  by (induction cs) (auto split: list.splits)

text \<open>A daemon that removes containers, whatever the others do meanwhile.\<close>

lemma cleanup_other:
  "k \<notin> res_TaskKey ` set (filter (\<lambda>t. IsFinalStatus (res_Status t)) ts) \<Longrightarrow>
     taskStatus (cleanup_loop cli ts s) k = taskStatus s k \<and>
     taskContainerID (cleanup_loop cli ts s) k = taskContainerID s k"
  by (induction cli ts s rule: cleanup_loop.induct)
    (auto simp: getContainerID_def split: option.splits prod.splits)

lemma cleanup_absent:
  "taskStatus s k = None \<Longrightarrow> taskStatus (cleanup_loop cli ts s) k = None"
  by (induction cli ts s rule: cleanup_loop.induct)
    (auto simp: getContainerID_def split: option.splits prod.splits)

lemma cleanup_removed:
  assumes "\<And>c d. fst (ContainerRemove cli c d) = None" and "\<And>k. taskStatus s k \<noteq> None \<Longrightarrow> taskContainerID s k \<noteq> None"
    and "t \<in> set ts" and "IsFinalStatus (res_Status t)" and "taskStatus s (res_TaskKey t) \<noteq> None"
  shows "taskStatus (cleanup_loop cli ts s) (res_TaskKey t) = None"
  using assms(2-)
proof (induction ts arbitrary: s)
  case (Cons x ts)
  show ?case
  proof (cases "IsFinalStatus (res_Status x) \<and> taskContainerID s (res_TaskKey x) \<noteq> None")
    case True
    then obtain c where c: "taskContainerID s (res_TaskKey x) = Some c" by auto
    obtain d where rm: "ContainerRemove cli c (daemon s) = (None, d)"
      using assms(1) [of c "daemon s"] by (metis prod.collapse)
    let ?s = "s\<lparr>daemon := d,
        taskStatus := (taskStatus s)(res_TaskKey x := None),
        taskContainerID := (taskContainerID s)(res_TaskKey x := None)\<rparr>"
    have step: "cleanup_loop cli (x # ts) s = cleanup_loop cli ts ?s"
      using True c rm by (simp add: getContainerID_def)
    show ?thesis
    proof (cases "res_TaskKey t = res_TaskKey x")
      case True
      then show ?thesis unfolding step by (intro cleanup_absent) simp
    next
      case False
      then show ?thesis unfolding step using Cons.prems by (intro Cons.IH) auto
    qed
  next
    case False
    then have step: "cleanup_loop cli (x # ts) s = cleanup_loop cli ts s"
      by (auto simp: getContainerID_def)
    have "t \<noteq> x" using False Cons.prems(1) [of "res_TaskKey t"] Cons.prems(3,4) by auto
    then show ?thesis unfolding step using Cons.prems by (intro Cons.IH) auto
  qed
qed simp

section \<open>Properties\<close>

text \<open>
  \<open>Run\<close> is all or nothing for the executor's own state.  If it returns an error, the known
  tasks, their states, the monitors and the reported results are as before; otherwise the task is
  running, its container is known and monitored, and, unless the channel is full and the call
  still waits, running has been reported as the last result.
\<close>

theorem docker_Run_spec:
  "(\<exists>err d. docker_Run unmarshal cli deadline p s = (CallReturns (Some err), s\<lparr>daemon := d\<rparr>)) \<or>
   (\<exists>out s' i. docker_Run unmarshal cli deadline p s = (out, s') \<and>
      taskStatus s' = (taskStatus s)(param_TaskKey p \<mapsto> TaskStatusRunning) \<and>
      taskContainerID s' = (taskContainerID s)(param_TaskKey p \<mapsto> i) \<and>
      monitors s' = monitors s @ [(param_TaskKey p, i)] \<and>
      (if length (resultChan s) < 10
       then out = CallReturns None \<and>
         resultChan s' = resultChan s @ [task_result (param_TaskKey p) TaskStatusRunning []]
       else out = CallBlocks \<and> resultChan s' = resultChan s))"
proof (cases rule: docker_Run_cases [of unmarshal cli deadline p s])
  case (Blocks d i)
  then have "\<not> length (resultChan s) < 10"
    by (auto simp: docker_Run_def docker_state Let_def split: if_splits sum.splits prod.splits
        option.splits)
  with Blocks show ?thesis by simp
qed auto

text \<open>
  The end of a container is reported once and in a final state.  Exit code 0 is success, 137
  (killed, the way \<open>Stop\<close> and \<open>Exit\<close> end a container) is stop, and every other code is a failure
  whose message has the code; the recorded state is the reported one.
\<close>

theorem monitorContainer_spec:
  assumes "length (resultChan s) < 10"
  shows "\<exists>r s'. monitorContainer k (WaitStatus code) s = (CallReturns None, s') \<and>
    resultChan s' = resultChan s @ [r] \<and> res_TaskKey r = k \<and>
    taskStatus s' = (taskStatus s)(k \<mapsto> res_Status r) \<and> IsFinalStatus (res_Status r) \<and>
    (res_Status r = TaskStatusSuccess \<longleftrightarrow> code = 0) \<and> (res_Status r = TaskStatusStop \<longleftrightarrow> code = 137) \<and>
    res_Msg r = (if code = 0 \<or> code = 137 then [] else exit_code_text @ int_text code)"
  using assms by (simp add: monitorContainer_def monitor_result_def docker_state Let_def)

text \<open>
  C38: a new executor takes over the containers that the daemon lists.  It asks for all containers
  with the label of minitaskx, those that have ended included.  Every one is known under its first name
  with its identifier; an exited one counts as successful exactly when the text of its status is
  literally \<open>exited (0)\<close> and otherwise as failed, so that the \<open>Exited (0) 5 minutes ago\<close> of a daemon
  counts as failed; a paused one counts as paused and every other as running.  Exactly those that have
  not exited are monitored, in the order of the list; nothing is reported, and the daemon is only read.
\<close>

theorem docker_NewExecutor_recovers:
  assumes "ContainerList cli \<lparr>list_All = True, list_Filters = [(''label'', ''created_by_minitaskx=true'')]\<rparr> d = Ok cs"
    and "\<And>c. c \<in> set cs \<Longrightarrow> Names c \<noteq> []" and "distinct (map (\<lambda>c. hd (Names c)) cs)"
  shows "\<exists>s. docker_NewExecutor cli d = Return s \<and> resultChan s = [] \<and> daemon s = d \<and>
    (\<forall>c\<in>set cs. taskStatus s (hd (Names c)) = Some
         (if State c = ''exited'' \<and> Status c = ''exited (0)'' then TaskStatusSuccess
          else if State c = ''exited'' then TaskStatusFailed
          else if State c = ''paused'' then TaskStatusPaused else TaskStatusRunning) \<and>
       taskContainerID s (hd (Names c)) = Some (ContainerID c)) \<and>
    (\<forall>k. k \<notin> (\<lambda>c. hd (Names c)) ` set cs \<longrightarrow> taskStatus s k = None \<and> taskContainerID s k = None) \<and>
    monitors s = map (\<lambda>c. (hd (Names c), ContainerID c)) (filter (\<lambda>c. State c \<noteq> ''exited'') cs)"
proof -
  let ?f = "\<lambda>c. \<lparr>cs_TaskKey = hd (Names c), cs_ContainerID = ContainerID c, cs_Status = container_status c\<rparr>"
  let ?e = "\<lparr>daemon = d, taskStatus = Map.empty, taskContainerID = Map.empty, resultChan = [], monitors = []\<rparr>"
  have "container_loop cs = Return (map ?f cs)"
    using container_loop_total [of cs] container_loop_Return [of cs] assms(2) by auto
  then have new: "docker_NewExecutor cli d = Return (restore (map ?f cs) ?e)"
    by (simp add: docker_NewExecutor_def listByOrigin_def own_containers_def assms(1) Let_def)
  have "distinct (map cs_TaskKey (map ?f cs))" using assms(3) by (simp add: comp_def)
  note entry = restore_entry [OF this, of _ ?e]
  have "\<forall>c\<in>set cs. taskStatus (restore (map ?f cs) ?e) (hd (Names c)) = Some (container_status c) \<and>
       taskContainerID (restore (map ?f cs) ?e) (hd (Names c)) = Some (ContainerID c)"
    using entry by fastforce
  moreover have "resultChan (restore xs e) = resultChan e \<and> daemon (restore xs e) = daemon e"
    for xs and e :: "'a dexec"
    by (induction xs e rule: restore.induct)
      (auto simp: Let_def docker_setTaskStatus_def setContainerID_def)
  moreover have "monitors (restore (map ?f cs) ?e) = map (\<lambda>c. (hd (Names c), ContainerID c))
      (filter (\<lambda>c. \<not> IsFinalStatus (container_status c)) cs)"
    by (simp add: restore_monitors filter_map comp_def)
  moreover have "\<not> IsFinalStatus (container_status c) \<longleftrightarrow> State c \<noteq> ''exited''" for c
    by (simp add: container_status_def)
  moreover have "taskStatus (restore (map ?f cs) ?e) k = None \<and> taskContainerID (restore (map ?f cs) ?e) k = None"
    if "k \<notin> (\<lambda>c. hd (Names c)) ` set cs" for k
    using that restore_other [of k "map ?f cs" ?e] by (simp add: image_comp comp_def)
  ultimately show ?thesis using new by (auto simp: container_status_def)
qed

text \<open>
  A restart loses the tasks under a daemon that lists names with a slash in front, as Docker does: the new
  executor takes the name as the key, so it does not list a task whose key has no slash, and refuses to
  stop, pause or resume it, although its container runs on.
\<close>

theorem recovery_keeps_slash:
  assumes "docker_NewExecutor cli d = Return s" and "ContainerList cli own_containers d = Ok cs"
    and "\<And>c. c \<in> set cs \<Longrightarrow> \<exists>n ns. Names c = (CHR ''/'' # n) # ns" and "take 1 k \<noteq> ''/''"
    and "range_order ks (taskStatus s)"
  shows "k \<notin> res_TaskKey ` set (docker_listTaskStatus ks s) \<and>
    docker_Stop cli k s = (CallReturns (Some (ContainerNotFound k)), s) \<and>
    docker_Pause cli k s = (CallReturns (Some (ContainerNotFound k)), s) \<and>
    docker_Resume cli k s = (CallReturns (Some (ContainerNotFound k)), s)"
proof -
  let ?e = "\<lparr>daemon = d, taskStatus = Map.empty, taskContainerID = Map.empty, resultChan = [], monitors = []\<rparr>"
  obtain rs where rs: "container_loop cs = Return rs" "s = restore rs ?e"
    using assms(1,2) by (auto simp: docker_NewExecutor_def listByOrigin_def Let_def split: run.splits)
  have "cs_TaskKey ` set rs = (\<lambda>c. hd (Names c)) ` set cs"
    using container_loop_Return [OF rs(1)] by (auto simp: image_iff)
  then have "k \<notin> cs_TaskKey ` set rs" using assms(3,4) by (auto simp: image_iff) fastforce
  then have none: "taskStatus s k = None" "taskContainerID s k = None"
    using restore_other [of k rs ?e] rs(2) by simp_all
  then have "k \<notin> set ks" using assms(5) by (auto simp: range_order_def)
  then have "k \<notin> fst ` set (go_range ks (taskStatus s))"
    using range_order_keys [OF assms(5)] by (metis list.set_map)
  then have "k \<notin> res_TaskKey ` set (docker_listTaskStatus ks s)"
    by (force simp: docker_listTaskStatus_def task_result_def)
  with none show ?thesis
    by (simp add: docker_Stop_def stopContainer_def docker_Pause_def docker_Resume_def getContainerID_def)
qed

text \<open>
  After a restart an ended container is judged by the text of its status.  It counts as
  successful only if the text is literally \<open>exited (0)\<close>, without the time that a daemon adds, and
  never as stopped, although the monitor reports exit code 137 as stop.
\<close>

theorem recovery_never_reports_stop:
  "container_status c \<noteq> TaskStatusStop \<and>
   (container_status c = TaskStatusSuccess \<longleftrightarrow> State c = ''exited'' \<and> Status c = ''exited (0)'') \<and>
   (container_status c = TaskStatusFailed \<longleftrightarrow> State c = ''exited'' \<and> Status c \<noteq> ''exited (0)'') \<and>
   res_Status (monitor_result k 137) = TaskStatusStop"
  by (simp add: container_status_def monitor_result_def task_result_def)

text \<open>
  The periodic cleanup forgets finished tasks and only those.  When the daemon removes what it
  is asked to remove and every task has a container, a tick removes exactly the tasks in a final
  state; the state and the container of every other task are unchanged.
\<close>

theorem cleanupResources_spec:
  assumes "range_order ks (taskStatus s)" and "\<And>c d. fst (ContainerRemove cli c d) = None"
    and "\<And>k. taskStatus s k \<noteq> None \<Longrightarrow> taskContainerID s k \<noteq> None"
  shows "taskStatus (cleanupResources cli ks s) k =
      (case taskStatus s k of
         Some st \<Rightarrow> if IsFinalStatus st then None else Some st | None \<Rightarrow> None) \<and>
    ((\<forall>st. taskStatus s k = Some st \<longrightarrow> \<not> IsFinalStatus st) \<longrightarrow>
      taskContainerID (cleanupResources cli ks s) k = taskContainerID s k)"
proof -
  let ?ts = "docker_listTaskStatus ks s"
  have mem: "t \<in> set ?ts \<longleftrightarrow> (\<exists>j st. taskStatus s j = Some st \<and> t = task_result j st [])" for t
    using assms(1) by (auto simp: docker_listTaskStatus_def set_go_range range_order_def)
  show ?thesis
  proof (cases "\<exists>st. taskStatus s k = Some st \<and> IsFinalStatus st")
    case True
    then obtain st where st: "taskStatus s k = Some st" "IsFinalStatus st" by blast
    then have "task_result k st [] \<in> set ?ts" by (auto simp: mem)
    from cleanup_removed [of cli s, OF assms(2,3) this] st show ?thesis
      by (simp add: cleanupResources_def task_result_def)
  next
    case False
    then have "k \<notin> res_TaskKey ` set (filter (\<lambda>t. IsFinalStatus (res_Status t)) ?ts)"
      by (auto simp: mem task_result_def)
    from cleanup_other [OF this, of cli s] False show ?thesis
      by (auto simp: cleanupResources_def split: option.splits)
  qed
qed

section \<open>Witnesses\<close>

text \<open>A daemon that accepts everything and lists its state.\<close>

definition demo_Client :: "Container list Client" where
  "demo_Client = \<lparr>ImagePull = (\<lambda>u d. (Ok [], d)), ContainerCreate = (\<lambda>c n d. (Ok n, d)),
     ContainerStart = (\<lambda>i d. (None, d)), ContainerStop = (\<lambda>i d. (None, d)),
     ContainerPause = (\<lambda>i d. (None, d)), ContainerUnpause = (\<lambda>i d. (None, d)),
     ContainerRemove = (\<lambda>i d. (None, filter (\<lambda>c. ContainerID c \<noteq> i) d)), 
     ContainerList = (\<lambda>options d. if list_All options then Ok d else Ok (filter (\<lambda>c. State c = ''running'') d))\<rparr>"

definition demo_containers :: "Container list" where
  "demo_containers = [\<lparr>Names = [''a''], ContainerID = ''1'', State = ''running'', Status = ''Up''\<rparr>,
     \<lparr>Names = [''b''], ContainerID = ''2'', State = ''exited'', Status = ''Exited (0) 5 minutes ago''\<rparr>]"

definition demo_dexec :: "Container list dexec" where
  "demo_dexec = \<lparr>daemon = demo_containers,
     taskStatus = [''a'' \<mapsto> TaskStatusRunning, ''b'' \<mapsto> TaskStatusFailed],
     taskContainerID = [''a'' \<mapsto> ''1'', ''b'' \<mapsto> ''2''], resultChan = [], monitors = [(''a'', ''1'')]\<rparr>"

theorem monitorContainer_spec_witness:
  "\<exists>r s'. monitorContainer ''a'' (WaitStatus 2) demo_dexec = (CallReturns None, s') \<and>
     resultChan s' = [r] \<and> IsFinalStatus (res_Status r) \<and> res_Msg r = exit_code_text @ int_text 2"
proof -
  have "length (resultChan demo_dexec) < 10" by (simp add: demo_dexec_def)
  from monitorContainer_spec [OF this, of "''a''" 2] show ?thesis by (auto simp: demo_dexec_def)
qed

theorem docker_NewExecutor_recovers_witness:
  "\<exists>s. docker_NewExecutor demo_Client demo_containers = Return s \<and>
     taskStatus s ''a'' = Some TaskStatusRunning \<and> taskStatus s ''b'' = Some TaskStatusFailed \<and>
     taskStatus s ''c'' = None \<and> monitors s = [(''a'', ''1'')]"
proof -
  have "ContainerList demo_Client \<lparr>list_All = True, list_Filters = [(''label'', ''created_by_minitaskx=true'')]\<rparr>
      demo_containers = Ok demo_containers" by (simp add: demo_Client_def)
  moreover have "Names c \<noteq> []" if "c \<in> set demo_containers" for c
    using that by (auto simp: demo_containers_def)
  moreover have "distinct (map (\<lambda>c. hd (Names c)) demo_containers)" by (simp add: demo_containers_def)
  ultimately show ?thesis
    by (rule ex_forward [OF docker_NewExecutor_recovers]) (auto simp: demo_containers_def)
qed

theorem recovery_keeps_slash_witness:
  "\<exists>s. docker_NewExecutor demo_Client [\<lparr>Names = [''/a''], ContainerID = ''1'', State = ''running'', Status = ''Up 1 minute''\<rparr>] = Return s \<and>
     monitors s = [(''/a'', ''1'')] \<and> docker_Stop demo_Client ''a'' s = (CallReturns (Some (ContainerNotFound ''a'')), s)"
proof -
  let ?cs = "[\<lparr>Names = [''/a''], ContainerID = ''1'', State = ''running'', Status = ''Up 1 minute''\<rparr>]"
  obtain s where s: "docker_NewExecutor demo_Client ?cs = Return s" "monitors s = [(''/a'', ''1'')]"
    "taskStatus s = [''/a'' \<mapsto> TaskStatusRunning]"
    by (simp add: docker_NewExecutor_def listByOrigin_def own_containers_def demo_Client_def container_status_def Let_def
        docker_setTaskStatus_def setContainerID_def)
  have "ContainerList demo_Client own_containers ?cs = Ok ?cs" "range_order [''/a''] (taskStatus s)"
    by (simp_all add: demo_Client_def own_containers_def range_order_def s(3))
  from recovery_keeps_slash [OF s(1) this(1) _ _ this(2), of "''a''"] s show ?thesis by auto
qed

theorem cleanupResources_spec_witness:
  "taskStatus (cleanupResources demo_Client [''b'', ''a''] demo_dexec) ''b'' = None \<and>
   taskStatus (cleanupResources demo_Client [''b'', ''a''] demo_dexec) ''a'' = Some TaskStatusRunning"
proof -
  have "range_order [''b'', ''a''] (taskStatus demo_dexec)"
    "\<And>c d. fst (ContainerRemove demo_Client c d) = None"
    "\<And>k. taskStatus demo_dexec k \<noteq> None \<Longrightarrow> taskContainerID demo_dexec k \<noteq> None"
    by (auto simp: range_order_def demo_dexec_def demo_Client_def split: if_splits)
  note spec = cleanupResources_spec [OF this]
  show ?thesis using spec [of "''a''"] spec [of "''b''"] by (simp add: demo_dexec_def)
qed

end
