(* ===== verification/DockerThreads.thy ===== *)
theory DockerThreads
  imports DockerExecutor
begin

text \<open>
  The goroutines of \<^verbatim>\<open>core/worker/executor/docker/docker.go\<close> together: the caller of the methods, a
  monitor for every started container, the periodic cleanup, and the receiver of the results.  They
  meet in the maps of the executor and in the result channel, and each may be overtaken between the
  change of a task's state and the send of the result.
\<close>

section \<open>Methods up to their send\<close>

text \<open>\<open>Run\<close> up to its last statement: an error, or the state in which the start is reported.\<close>

definition docker_start ::
    "(string \<Rightarrow> Config result) \<Rightarrow> 'd Client \<Rightarrow> nat \<Rightarrow> TaskExecParam \<Rightarrow> 'd dexec \<Rightarrow>
     error option \<times> 'd dexec" where
  "docker_start unmarshal cli deadline param s =
     (if param_Payload param = [] then (Some PayloadNil, s)
      else case unmarshal (param_Payload param) of
        Inl err \<Rightarrow> (Some (Wrapped ''parse container config'' err), s)
      | Inr config \<Rightarrow>
          let config = label_config config in
          case pullImage cli deadline (Image config) (daemon s) of
            (Some err, d1) \<Rightarrow> (Some err, s\<lparr>daemon := d1\<rparr>)
          | (None, d1) \<Rightarrow>
              (case ContainerCreate cli config (param_TaskKey param) d1 of
                 (Inl err, d2) \<Rightarrow> (Some (Wrapped ''create container'' err), s\<lparr>daemon := d2\<rparr>)
               | (Inr i, d2) \<Rightarrow>
                   (case ContainerStart cli i d2 of
                      (Some err, d3) \<Rightarrow> (Some (Wrapped ''start container'' err), s\<lparr>daemon := d3\<rparr>)
                    | (None, d3) \<Rightarrow>
                        let s1 = docker_setTaskStatus (param_TaskKey param) TaskStatusRunning
                              (s\<lparr>daemon := d3\<rparr>);
                            s2 = setContainerID (param_TaskKey param) i s1
                        in (None, s2\<lparr>monitors := monitors s2 @ [(param_TaskKey param, i)]\<rparr>))))"

lemma docker_Run_start:
  "docker_Run unmarshal cli deadline p s =
     (case docker_start unmarshal cli deadline p s of
        (Some err, s1) \<Rightarrow> (CallReturns (Some err), s1)
      | (None, s1) \<Rightarrow> docker_send (task_result (param_TaskKey p) TaskStatusRunning []) s1)"
  by (simp add: docker_Run_def docker_start_def Let_def split: sum.split prod.split option.split)

text \<open>The client calls of \<open>Pause\<close> and \<open>Resume\<close>, before the new state is recorded.\<close>

definition client_call ::
    "('d Client \<Rightarrow> string \<Rightarrow> 'd \<Rightarrow> error option \<times> 'd) \<Rightarrow> 'd Client \<Rightarrow> string \<Rightarrow> 'd dexec \<Rightarrow>
     bool \<times> 'd dexec" where
  "client_call m cli taskKey s =
     (case getContainerID taskKey s of
        Inl err \<Rightarrow> (False, s)
      | Inr containerID \<Rightarrow>
          (case m cli containerID (daemon s) of (e, d) \<Rightarrow> (e = None, s\<lparr>daemon := d\<rparr>)))"

lemma docker_Pause_call:
  "fst (client_call ContainerPause cli k s) \<Longrightarrow> docker_Pause cli k s =
     docker_send (task_result k TaskStatusPaused [])
       (docker_setTaskStatus k TaskStatusPaused (snd (client_call ContainerPause cli k s)))"
  by (auto simp: docker_Pause_def client_call_def split: sum.splits prod.splits option.splits)

lemma docker_Resume_call:
  "fst (client_call ContainerUnpause cli k s) \<Longrightarrow> docker_Resume cli k s =
     docker_send (task_result k TaskStatusRunning [])
       (docker_setTaskStatus k TaskStatusRunning (snd (client_call ContainerUnpause cli k s)))"
  by (auto simp: docker_Resume_def client_call_def split: sum.splits prod.splits option.splits)

section \<open>Goroutines and their steps\<close>

text \<open>What a goroutine does next: record the state of a result, send it, or (the caller) nothing.\<close>

datatype docker_pc = Idle | Waits | Record TaskExecResult | Report TaskExecResult | Ended

text \<open>
  \<open>cleaning\<close> are the tasks of its snapshot that the cleanup has not looked at; \<open>reports\<close> all results
  that were sent, in order.
\<close>

record 'd docker_sys =
  dx :: "'d dexec"
  caller :: docker_pc
  mons :: "(string \<times> docker_pc) list"
  cleaning :: "TaskExecResult list"
  reports :: "TaskExecResult list"

datatype docker_op =
    DRun TaskExecParam
  | DPause string
  | DResume string
  | DStop string
  | DCaller
  | DWaited nat wait_event
  | DMonitor nat
  | DReceive
  | DTick "string list"
  | DClean

text \<open>The next step of a goroutine that records and reports a result.\<close>

fun report_step :: "docker_pc \<Rightarrow> docker_pc \<Rightarrow> 'd docker_sys \<Rightarrow> (docker_pc \<times> 'd docker_sys) option" where
  "report_step end (Record r) s =
     Some (Report r, s\<lparr>dx := docker_setTaskStatus (res_TaskKey r) (res_Status r) (dx s)\<rparr>)"
| "report_step end (Report r) s =
     (case docker_send r (dx s) of
        (CallReturns e, x) \<Rightarrow> Some (end, s\<lparr>dx := x, reports := reports s @ [r]\<rparr>) | _ \<Rightarrow> None)"
| "report_step end pc s = None"

text \<open>What a monitor does with what \<open>ContainerWait\<close> delivers.\<close>

definition monitor_pc :: "string \<Rightarrow> wait_event \<Rightarrow> docker_pc" where
  "monitor_pc taskKey ev =
     (case ev of
        WaitError None \<Rightarrow> Ended
      | WaitError (Some err) \<Rightarrow> Record (task_result taskKey TaskStatusFailed err)
      | WaitStatus code \<Rightarrow> Record (monitor_result taskKey code))"

fun docker_step ::
    "(string \<Rightarrow> Config result) \<Rightarrow> 'd Client \<Rightarrow> nat \<Rightarrow> docker_op \<Rightarrow> 'd docker_sys \<Rightarrow> 'd docker_sys option" where
  "docker_step unmarshal cli deadline (DRun p) s =
     (if caller s \<noteq> Idle then None
      else case docker_start unmarshal cli deadline p (dx s) of
        (Some err, x) \<Rightarrow> Some (s\<lparr>dx := x\<rparr>)
      | (None, x) \<Rightarrow> Some (s\<lparr>dx := x, mons := mons s @ [(param_TaskKey p, Waits)],
          caller := Report (task_result (param_TaskKey p) TaskStatusRunning [])\<rparr>))"
| "docker_step unmarshal cli deadline (DPause k) s =
     (if caller s \<noteq> Idle then None
      else let (ok, x) = client_call ContainerPause cli k (dx s)
        in Some (s\<lparr>dx := x, caller := (if ok then Record (task_result k TaskStatusPaused []) else Idle)\<rparr>))"
| "docker_step unmarshal cli deadline (DResume k) s =
     (if caller s \<noteq> Idle then None
      else let (ok, x) = client_call ContainerUnpause cli k (dx s)
        in Some (s\<lparr>dx := x, caller := (if ok then Record (task_result k TaskStatusRunning []) else Idle)\<rparr>))"
| "docker_step unmarshal cli deadline (DStop k) s =
     (if caller s \<noteq> Idle then None else Some (s\<lparr>dx := snd (stopContainer cli k (dx s))\<rparr>))"
| "docker_step unmarshal cli deadline DCaller s =
     map_option (\<lambda>(pc, s1). s1\<lparr>caller := pc\<rparr>) (report_step Idle (caller s) s)"
| "docker_step unmarshal cli deadline (DWaited i ev) s =
     (if i < length (mons s) \<and> snd (mons s ! i) = Waits
      then Some (s\<lparr>mons := (mons s)[i := (fst (mons s ! i), monitor_pc (fst (mons s ! i)) ev)]\<rparr>) else None)"
| "docker_step unmarshal cli deadline (DMonitor i) s =
     (if i < length (mons s)
      then map_option (\<lambda>(pc, s1). s1\<lparr>mons := (mons s)[i := (fst (mons s ! i), pc)]\<rparr>)
             (report_step Ended (snd (mons s ! i)) s)
      else None)"
| "docker_step unmarshal cli deadline DReceive s =
     (case resultChan (dx s) of
        [] \<Rightarrow> None | r # rs \<Rightarrow> Some (s\<lparr>dx := (dx s)\<lparr>resultChan := rs\<rparr>\<rparr>))"
| "docker_step unmarshal cli deadline (DTick ks) s =
     (if cleaning s = [] then Some (s\<lparr>cleaning := docker_listTaskStatus ks (dx s)\<rparr>) else None)"
| "docker_step unmarshal cli deadline DClean s =
     (case cleaning s of
        [] \<Rightarrow> None | t # ts \<Rightarrow> Some (s\<lparr>dx := cleanup_loop cli [t] (dx s), cleaning := ts\<rparr>))"

fun docker_steps ::
    "(string \<Rightarrow> Config result) \<Rightarrow> 'd Client \<Rightarrow> nat \<Rightarrow> docker_op list \<Rightarrow> 'd docker_sys \<Rightarrow> 'd docker_sys option" where
  "docker_steps unmarshal cli deadline [] s = Some s"
| "docker_steps unmarshal cli deadline (a # ops) s =
     (case docker_step unmarshal cli deadline a s of
        None \<Rightarrow> None | Some s1 \<Rightarrow> docker_steps unmarshal cli deadline ops s1)"

text \<open>The goroutines of a new executor: its monitors wait, nothing has been called.\<close>

definition docker_begin :: "'d dexec \<Rightarrow> 'd docker_sys" where
  "docker_begin x = \<lparr>dx = x, caller = Idle, mons = map (\<lambda>m. (fst m, Waits)) (monitors x), cleaning = [],
     reports = []\<rparr>"

section \<open>Invariants\<close>

definition final_count :: "string \<Rightarrow> TaskExecResult list \<Rightarrow> nat" where
  "final_count k rs = length (filter (\<lambda>r. res_TaskKey r = k \<and> IsFinalStatus (res_Status r)) rs)"

definition ended_count :: "string \<Rightarrow> (string \<times> docker_pc) list \<Rightarrow> nat" where
  "ended_count k ms = length (filter (\<lambda>m. m = (k, Ended)) ms)"

text \<open>The caller reports states that are not final; a monitor reports its own task.\<close>

definition caller_ok :: "docker_pc \<Rightarrow> bool" where
  "caller_ok pc \<longleftrightarrow> (\<forall>r. pc = Record r \<or> pc = Report r \<longrightarrow> \<not> IsFinalStatus (res_Status r))"

definition mon_ok :: "string \<times> docker_pc \<Rightarrow> bool" where
  "mon_ok m \<longleftrightarrow> (\<forall>r. snd m = Record r \<or> snd m = Report r \<longrightarrow> res_TaskKey r = fst m)"

definition docker_inv :: "'d docker_sys \<Rightarrow> bool" where
  "docker_inv s \<longleftrightarrow> caller_ok (caller s) \<and> (\<forall>m\<in>set (mons s). mon_ok m) \<and>
     (\<forall>k. final_count k (reports s) \<le> ended_count k (mons s)) \<and>
     length (resultChan (dx s)) \<le> 10 \<and> map fst (mons s) = map fst (monitors (dx s))"

lemma filter_update:
  "i < length xs \<Longrightarrow> length (filter P (xs[i := y])) + (if P (xs ! i) then 1 else 0) =
     length (filter P xs) + (if P y then 1 else 0)"
proof (induction xs arbitrary: i)
  case (Cons x xs)
  then show ?case by (cases i) auto
qed simp

lemma ended_update:
  assumes "i < length ms" and "snd (ms ! i) \<noteq> Ended"
  shows "ended_count k (ms[i := (fst (ms ! i), pc)]) =
    ended_count k ms + (if fst (ms ! i) = k \<and> pc = Ended then 1 else 0)"
proof -
  have "ms ! i \<noteq> (k, Ended)" using assms(2) by auto
  with filter_update [OF assms(1), of "\<lambda>m. m = (k, Ended)" "(fst (ms ! i), pc)"] show ?thesis
    by (simp add: ended_count_def)
qed

lemma ended_append: "ended_count k (ms @ [(j, Waits)]) = ended_count k ms"
  by (simp add: ended_count_def)

lemma final_append:
  "final_count k (rs @ [r]) = final_count k rs + (if res_TaskKey r = k \<and> IsFinalStatus (res_Status r) then 1 else 0)"
  by (simp add: final_count_def)

lemma mons_update:
  assumes "\<forall>m\<in>set ms. mon_ok m" and "mon_ok (fst (ms ! i), pc)" and "i < length ms"
  shows "\<forall>m\<in>set (ms[i := (fst (ms ! i), pc)]). mon_ok m"
  using assms set_update_subset_insert [of ms i "(fst (ms ! i), pc)"] by blast

lemma keys_update [simp]: "i < length ms \<Longrightarrow> map fst (ms[i := (fst (ms ! i), pc)]) = map fst ms"
  by (metis fst_conv list_update_id map_update nth_map)

text \<open>What a step of \<open>report_step\<close> changes.\<close>

lemma report_step_cases:
  assumes "report_step e pc s = Some (pc', s')"
  obtains r where "pc = Record r" "pc' = Report r"
    "s' = s\<lparr>dx := docker_setTaskStatus (res_TaskKey r) (res_Status r) (dx s)\<rparr>"
  | r where "pc = Report r" "pc' = e" "length (resultChan (dx s)) < 10"
    "s' = s\<lparr>dx := (dx s)\<lparr>resultChan := resultChan (dx s) @ [r]\<rparr>, reports := reports s @ [r]\<rparr>"
  using assms
  by (cases "(e, pc, s)" rule: report_step.cases) (auto simp: docker_send_def split: if_splits)

lemma docker_start_frame:
  assumes "docker_start unmarshal cli deadline p s = (e, s')"
  shows "resultChan s' = resultChan s \<and>
    map fst (monitors s') = map fst (monitors s) @ (if e = None then [param_TaskKey p] else [])"
  using assms
  by (auto simp: docker_start_def docker_setTaskStatus_def setContainerID_def Let_def
      split: sum.splits prod.splits option.splits if_splits)

lemma client_call_frame:
  "resultChan (snd (client_call m cli k s)) = resultChan s \<and> monitors (snd (client_call m cli k s)) = monitors s"
  by (simp add: client_call_def split: sum.splits prod.splits)

lemma stopContainer_frame:
  "resultChan (snd (stopContainer cli k s)) = resultChan s \<and> monitors (snd (stopContainer cli k s)) = monitors s"
  by (simp add: stopContainer_def split: sum.splits prod.splits option.splits)

lemma cleanup_frame:
  "resultChan (cleanup_loop cli ts s) = resultChan s \<and> monitors (cleanup_loop cli ts s) = monitors s"
  by (induction cli ts s rule: cleanup_loop.induct) (auto split: sum.splits prod.splits option.splits)

lemma caller_step_inv:
  assumes "docker_inv s" and "report_step Idle (caller s) s = Some (pc, s1)"
  shows "docker_inv (s1\<lparr>caller := pc\<rparr>)"
  using assms(2)
proof (cases rule: report_step_cases)
  case (1 r)
  with assms(1) show ?thesis by (simp add: docker_inv_def caller_ok_def docker_setTaskStatus_def)
next
  case (2 r)
  then have "\<not> IsFinalStatus (res_Status r)" using assms(1) by (simp add: docker_inv_def caller_ok_def)
  with 2 assms(1) show ?thesis by (simp add: docker_inv_def caller_ok_def final_append)
qed

lemma monitor_step_inv:
  assumes "docker_inv s" and i: "i < length (mons s)"
    and "report_step Ended (snd (mons s ! i)) s = Some (pc, s1)"
  shows "docker_inv (s1\<lparr>mons := (mons s)[i := (fst (mons s ! i), pc)]\<rparr>)"
  using assms(3)
proof (cases rule: report_step_cases)
  case (1 r)
  have "mon_ok (mons s ! i)" using assms(1) i by (simp add: docker_inv_def)
  then have "mon_ok (fst (mons s ! i), pc)" using 1 by (auto simp: mon_ok_def)
  from mons_update [OF _ this i] 1 assms(1) i show ?thesis
    by (simp add: docker_inv_def ended_update docker_setTaskStatus_def)
next
  case (2 r)
  have "mon_ok (mons s ! i)" using assms(1) i by (simp add: docker_inv_def)
  then have key: "res_TaskKey r = fst (mons s ! i)" using 2 by (auto simp: mon_ok_def)
  have "mon_ok (fst (mons s ! i), pc)" using 2 by (simp add: mon_ok_def)
  from mons_update [OF _ this i] 2 assms(1) i key show ?thesis
    by (auto simp: docker_inv_def ended_update final_append intro: le_SucI)
qed

lemma docker_step_inv:
  assumes inv: "docker_inv s" and step: "docker_step unmarshal cli deadline a s = Some s'"
  shows "docker_inv s'"
proof (cases a)
  case (DRun p)
  obtain e x where st: "docker_start unmarshal cli deadline p (dx s) = (e, x)" by fastforce
  from docker_start_frame [OF st] show ?thesis
    using inv step
    by (cases e) (auto simp: DRun st docker_inv_def caller_ok_def mon_ok_def ended_append task_result_def
        split: if_splits)
next
  case (DPause k)
  with inv step client_call_frame [of ContainerPause cli k "dx s"] show ?thesis
    by (auto simp: docker_inv_def caller_ok_def task_result_def split_beta Let_def split: if_splits)
next
  case (DResume k)
  with inv step client_call_frame [of ContainerUnpause cli k "dx s"] show ?thesis
    by (auto simp: docker_inv_def caller_ok_def task_result_def split_beta Let_def split: if_splits)
next
  case (DStop k)
  with inv step stopContainer_frame [of cli k "dx s"] show ?thesis
    by (auto simp: docker_inv_def split: if_splits)
next
  case DCaller
  with step caller_step_inv [OF inv] show ?thesis by auto
next
  case (DWaited i ev)
  then have i: "i < length (mons s)" "snd (mons s ! i) = Waits"
    and s': "s' = s\<lparr>mons := (mons s)[i := (fst (mons s ! i), monitor_pc (fst (mons s ! i)) ev)]\<rparr>"
    using step by (auto split: if_splits)
  have "mon_ok (fst (mons s ! i), monitor_pc (fst (mons s ! i)) ev)"
    by (auto simp: mon_ok_def monitor_pc_def monitor_result_def task_result_def
        split: wait_event.splits option.splits)
  from mons_update [OF _ this i(1)] inv i show ?thesis
    by (auto simp: s' docker_inv_def ended_update intro: le_SucI)
next
  case (DMonitor i)
  with step monitor_step_inv [OF inv] show ?thesis by (auto split: if_splits)
next
  case DReceive
  with inv step show ?thesis by (auto simp: docker_inv_def split: list.splits)
next
  case (DTick ks)
  with inv step show ?thesis by (auto simp: docker_inv_def split: if_splits)
next
  case DClean
  then obtain t ts where "s' = s\<lparr>dx := cleanup_loop cli [t] (dx s), cleaning := ts\<rparr>"
    using step by (auto split: list.splits)
  with inv cleanup_frame [of cli "[t]" "dx s"] show ?thesis
    by (simp add: docker_inv_def del: cleanup_loop.simps)
qed

lemma docker_steps_inv:
  "docker_inv s \<Longrightarrow> docker_steps unmarshal cli deadline ops s = Some s' \<Longrightarrow> docker_inv s'"
  by (induction ops arbitrary: s) (auto split: option.splits dest: docker_step_inv simp del: docker_step.simps)

lemma docker_begin_inv: "resultChan x = [] \<Longrightarrow> docker_inv (docker_begin x)"
  by (auto simp: docker_inv_def docker_begin_def caller_ok_def mon_ok_def final_count_def)

lemma filter_fst_count: "length (filter (\<lambda>m. fst m = k) ms) = count_list (map fst ms) k"
  by (induction ms) auto

lemma ended_le_started: "ended_count k ms \<le> length (filter (\<lambda>m. fst m = k) ms)"
  by (induction ms) (auto simp: ended_count_def)

section \<open>Properties\<close>

text \<open>
  C16: the end of a container is reported at most once.  However the caller of the methods, the
  monitors, the cleanup and the receiver of the results interleave, a task has been reported in a
  final state at most as often as a monitor of it has ended, hence at most once per container that
  was started or taken over for it; and the result channel never holds more than ten results.
\<close>

theorem one_final_report_per_container:
  assumes "resultChan x = []" and "docker_steps unmarshal cli deadline ops (docker_begin x) = Some s"
  shows "final_count k (reports s) \<le> ended_count k (mons s) \<and>
    final_count k (reports s) \<le> length (filter (\<lambda>m. fst m = k) (monitors (dx s))) \<and>
    length (resultChan (dx s)) \<le> 10"
proof -
  have inv: "docker_inv s" by (rule docker_steps_inv [OF docker_begin_inv [OF assms(1)] assms(2)])
  then have "length (filter (\<lambda>m. fst m = k) (mons s)) = length (filter (\<lambda>m. fst m = k) (monitors (dx s)))"
    by (simp add: filter_fst_count docker_inv_def)
  with inv ended_le_started [of k "mons s"] show ?thesis by (auto simp: docker_inv_def intro: order_trans)
qed

text \<open>
  A container that ends fast is reported running last.  The monitor can report the end before
  \<open>Run\<close> reports the start; the receiver then sees the final state first and running last, while the
  list of the executor has the final state.
\<close>

theorem short_container_reported_running_last:
  assumes "docker_start unmarshal cli deadline p x = (None, x1)" and "resultChan x = []" and "monitors x = []"
    and "param_TaskKey p = k"
  shows "\<exists>s. docker_steps unmarshal cli deadline [DRun p, DWaited 0 (WaitStatus code), DMonitor 0, DMonitor 0, DCaller]
      (docker_begin x) = Some s \<and>
    reports s = [monitor_result k code, task_result k TaskStatusRunning []] \<and>
    resultChan (dx s) = reports s \<and> IsFinalStatus (res_Status (monitor_result k code)) \<and>
    taskStatus (dx s) k = Some (res_Status (monitor_result k code))"
  using assms docker_start_frame [OF assms(1)]
  by (simp add: docker_begin_def monitor_pc_def docker_send_def docker_setTaskStatus_def)
    (simp add: monitor_result_def task_result_def)

section \<open>Witnesses\<close>

definition demo_docker :: "Container list dexec" where
  "demo_docker = \<lparr>daemon = [], taskStatus = Map.empty, taskContainerID = Map.empty, resultChan = [],
     monitors = []\<rparr>"

definition demo_exec_param :: TaskExecParam where
  "demo_exec_param = \<lparr>param_TaskKey = ''a'', param_BizID = [], param_BizType = [], param_Payload = ''p''\<rparr>"

definition demo_unmarshal :: "string \<Rightarrow> Config result" where
  "demo_unmarshal p = Ok \<lparr>Image = p, Labels = None\<rparr>"

lemma demo_docker_start:
  obtains x where "docker_start demo_unmarshal demo_Client 1 demo_exec_param demo_docker = (None, x)"
  by (simp add: docker_start_def demo_exec_param_def demo_unmarshal_def label_config_def pullImage_def
      demo_Client_def Let_def)

theorem one_final_report_per_container_witness:
  "\<exists>s. docker_steps demo_unmarshal demo_Client 1 [DRun demo_exec_param, DCaller, DWaited 0 (WaitStatus 137),
      DMonitor 0, DMonitor 0, DReceive] (docker_begin demo_docker) = Some s \<and>
    final_count ''a'' (reports s) \<le> 1"
proof -
  obtain x where st: "docker_start demo_unmarshal demo_Client 1 demo_exec_param demo_docker = (None, x)"
    by (rule demo_docker_start)
  have demo: "resultChan demo_docker = []" "monitors demo_docker = []" "param_TaskKey demo_exec_param = ''a''"
    by (simp_all add: demo_docker_def demo_exec_param_def)
  have "resultChan x = []" using docker_start_frame [OF st] demo by simp
  then obtain s where run: "docker_steps demo_unmarshal demo_Client 1 [DRun demo_exec_param, DCaller,
      DWaited 0 (WaitStatus 137), DMonitor 0, DMonitor 0, DReceive] (docker_begin demo_docker) = Some s"
    "mons s = [(''a'', Ended)]"
    using st demo by (simp add: docker_begin_def monitor_pc_def docker_send_def docker_setTaskStatus_def)
  from one_final_report_per_container [OF demo(1) run(1), of "''a''"] run
  show ?thesis by (auto simp: ended_count_def)
qed

theorem short_container_reported_running_last_witness:
  "\<exists>s. docker_steps demo_unmarshal demo_Client 1 [DRun demo_exec_param, DWaited 0 (WaitStatus 0),
      DMonitor 0, DMonitor 0, DCaller] (docker_begin demo_docker) = Some s \<and>
    map res_Status (reports s) = [TaskStatusSuccess, TaskStatusRunning]"
proof -
  obtain x where st: "docker_start demo_unmarshal demo_Client 1 demo_exec_param demo_docker = (None, x)"
    by (rule demo_docker_start)
  have "resultChan demo_docker = []" "monitors demo_docker = []" "param_TaskKey demo_exec_param = ''a''"
    by (simp_all add: demo_docker_def demo_exec_param_def)
  from short_container_reported_running_last [OF st this, of 0] show ?thesis
    by (auto simp: monitor_result_def task_result_def simp del: docker_steps.simps)
qed

end
