(* ===== verification/NetIP.thy ===== *)
theory NetIP
  imports Prelude "HOL-Library.Word"
begin

text \<open>
  \<^verbatim>\<open>pkg/util/ip.go\<close>: the search for an address under which the process can be reached, with the
  tests of the standard library's \<^verbatim>\<open>net.IP\<close> that it uses.
\<close>

unbundle bit_operations_syntax

section \<open>Addresses\<close>

type_synonym IP = "8 word list"

definition v4InV6Prefix :: IP where
  "v4InV6Prefix = [0, 0, 0, 0, 0, 0, 0, 0, 0, 0, 0xff, 0xff]"

definition To4 :: "IP \<Rightarrow> IP option" where
  "To4 ip =
     (if length ip = 4 then Some ip
      else if length ip = 16 \<and> take 12 ip = v4InV6Prefix then Some (drop 12 ip)
      else None)"

definition IP_Equal :: "IP \<Rightarrow> IP \<Rightarrow> bool" where
  "IP_Equal ip x =
     (if length ip = length x then ip = x
      else if length ip = 4 \<and> length x = 16 then take 12 x = v4InV6Prefix \<and> ip = drop 12 x
      else if length ip = 16 \<and> length x = 4 then take 12 ip = v4InV6Prefix \<and> drop 12 ip = x
      else False)"

definition IPv4zero :: IP where "IPv4zero = v4InV6Prefix @ [0, 0, 0, 0]"
definition IPv4bcast :: IP where "IPv4bcast = v4InV6Prefix @ [0xff, 0xff, 0xff, 0xff]"
definition IPv6unspecified :: IP where "IPv6unspecified = replicate 16 0"
definition IPv6loopback :: IP where "IPv6loopback = replicate 15 0 @ [1]"

definition IsUnspecified :: "IP \<Rightarrow> bool" where
  "IsUnspecified ip \<longleftrightarrow> IP_Equal ip IPv4zero \<or> IP_Equal ip IPv6unspecified"

definition IsLoopback :: "IP \<Rightarrow> bool" where
  "IsLoopback ip \<longleftrightarrow>
     (case To4 ip of Some ip4 \<Rightarrow> ip4 ! 0 = 127 | None \<Rightarrow> IP_Equal ip IPv6loopback)"

definition IsMulticast :: "IP \<Rightarrow> bool" where
  "IsMulticast ip \<longleftrightarrow>
     (case To4 ip of Some ip4 \<Rightarrow> (ip4 ! 0) AND 0xf0 = 0xe0 | None \<Rightarrow> length ip = 16 \<and> ip ! 0 = 0xff)"

definition IsInterfaceLocalMulticast :: "IP \<Rightarrow> bool" where
  "IsInterfaceLocalMulticast ip \<longleftrightarrow> length ip = 16 \<and> ip ! 0 = 0xff \<and> (ip ! 1) AND 0x0f = 0x01"

definition IsLinkLocalMulticast :: "IP \<Rightarrow> bool" where
  "IsLinkLocalMulticast ip \<longleftrightarrow>
     (case To4 ip of
        Some ip4 \<Rightarrow> ip4 ! 0 = 224 \<and> ip4 ! 1 = 0 \<and> ip4 ! 2 = 0
      | None \<Rightarrow> length ip = 16 \<and> ip ! 0 = 0xff \<and> (ip ! 1) AND 0x0f = 0x02)"

definition IsLinkLocalUnicast :: "IP \<Rightarrow> bool" where
  "IsLinkLocalUnicast ip \<longleftrightarrow>
     (case To4 ip of
        Some ip4 \<Rightarrow> ip4 ! 0 = 169 \<and> ip4 ! 1 = 254
      | None \<Rightarrow> length ip = 16 \<and> ip ! 0 = 0xfe \<and> (ip ! 1) AND 0xc0 = 0x80)"

definition IsGlobalUnicast :: "IP \<Rightarrow> bool" where
  "IsGlobalUnicast ip \<longleftrightarrow> (length ip = 4 \<or> length ip = 16) \<and> \<not> IP_Equal ip IPv4bcast \<and>
     \<not> IsUnspecified ip \<and> \<not> IsLoopback ip \<and> \<not> IsMulticast ip \<and> \<not> IsLinkLocalUnicast ip"

section \<open>The search\<close>

datatype net_addr = IPAddr IP | IPNet IP | TCPAddr IP | UDPAddr IP | OtherAddr

fun ExtractIP :: "net_addr \<Rightarrow> IP" where
  "ExtractIP (IPAddr ip) = ip"
| "ExtractIP (IPNet ip) = ip"
| "ExtractIP (TCPAddr ip) = ip"
| "ExtractIP (UDPAddr ip) = ip"
| "ExtractIP OtherAddr = []"

text \<open>The argument is the answer of \<open>net.Interfaces\<close>, an interface the answer of its \<open>Addrs\<close>.\<close>

definition IPs :: "net_addr list result list result \<Rightarrow> IP list" where
  "IPs interfaces =
     (case interfaces of
        Inl err \<Rightarrow> []
      | Inr ifaces \<Rightarrow> concat (map (\<lambda>addrs. case addrs of
            Inl err \<Rightarrow> []
          | Inr as \<Rightarrow> filter (\<lambda>ip. length ip \<noteq> 0) (map ExtractIP as)) ifaces))"

fun GlobalUnicastIP_loop :: "IP list \<Rightarrow> IP result" where
  "GlobalUnicastIP_loop [] = Err NoGlobalUnicastIP"
| "GlobalUnicastIP_loop (ip # ips) =
     (if IsUnspecified ip then GlobalUnicastIP_loop ips
      else if IsLoopback ip then GlobalUnicastIP_loop ips
      else if IsLinkLocalUnicast ip then GlobalUnicastIP_loop ips
      else if IsInterfaceLocalMulticast ip then GlobalUnicastIP_loop ips
      else if IsLinkLocalMulticast ip then GlobalUnicastIP_loop ips
      else if IsMulticast ip then GlobalUnicastIP_loop ips
      else if IsGlobalUnicast ip then Ok ip
      else GlobalUnicastIP_loop ips)"

definition GlobalUnicastIP :: "net_addr list result list result \<Rightarrow> IP result" where
  "GlobalUnicastIP interfaces = GlobalUnicastIP_loop (IPs interfaces)"

text \<open>\<open>render\<close> is \<open>net.IP.String\<close>.\<close>

definition GlobalUnicastIPString ::
    "(IP \<Rightarrow> string) \<Rightarrow> net_addr list result list result \<Rightarrow> string result" where
  "GlobalUnicastIPString render interfaces =
     (case GlobalUnicastIP interfaces of Inl err \<Rightarrow> Err err | Inr ip \<Rightarrow> Ok (render ip))"

section \<open>Facts\<close>

lemma To4_cases:
  assumes "length ip = 4 \<or> length ip = 16"
  obtains a b c d where "To4 ip = Some [a, b, c, d]" | "To4 ip = None" "length ip = 16"
proof (cases "To4 ip")
  case None
  then show thesis using that(2) assms by (auto simp: To4_def split: if_splits)
next
  case (Some ip4)
  then have "length ip4 = 4" by (auto simp: To4_def split: if_splits)
  then obtain a b c d where "ip4 = [a, b, c, d]" by (auto simp: numeral_eq_Suc length_Suc_conv)
  with Some that(1) show thesis by blast
qed

lemma InterfaceLocal_Multicast: "IsInterfaceLocalMulticast ip \<Longrightarrow> IsMulticast ip"
proof -
  assume il: "IsInterfaceLocalMulticast ip"
  then have "length ip = 16" "ip ! 0 = 0xff" by (auto simp: IsInterfaceLocalMulticast_def)
  moreover have "take 12 ip \<noteq> v4InV6Prefix"
  proof
    assume "take 12 ip = v4InV6Prefix"
    then have "take 12 ip ! 0 = v4InV6Prefix ! 0" by simp
    with \<open>ip ! 0 = 0xff\<close> show False by (simp add: v4InV6Prefix_def)
  qed
  ultimately show ?thesis by (simp add: IsMulticast_def To4_def)
qed

lemma LinkLocal_Multicast: "IsLinkLocalMulticast ip \<Longrightarrow> IsMulticast ip"
  by (auto simp: IsLinkLocalMulticast_def IsMulticast_def split: option.splits)

lemma LinkLocal_not_Global: "IsInterfaceLocalMulticast ip \<or> IsLinkLocalMulticast ip \<Longrightarrow> \<not> IsGlobalUnicast ip"
  using InterfaceLocal_Multicast LinkLocal_Multicast by (auto simp: IsGlobalUnicast_def)

lemma loop_find:
  "GlobalUnicastIP_loop ips =
     (case find IsGlobalUnicast ips of None \<Rightarrow> Err NoGlobalUnicastIP | Some ip \<Rightarrow> Ok ip)"
proof (induction ips)
  case (Cons ip ips)
  show ?case
  proof (cases "IsGlobalUnicast ip")
    case True
    then have "\<not> IsUnspecified ip" "\<not> IsLoopback ip" "\<not> IsLinkLocalUnicast ip" "\<not> IsMulticast ip"
      "\<not> IsInterfaceLocalMulticast ip" "\<not> IsLinkLocalMulticast ip"
      using LinkLocal_not_Global [of ip] by (auto simp: IsGlobalUnicast_def)
    with True show ?thesis by simp
  next
    case False
    with Cons.IH show ?thesis by simp
  qed
qed simp

lemma find_append:
  "find P (xs @ ys) = (case find P xs of None \<Rightarrow> find P ys | Some x \<Rightarrow> Some x)"
  by (induction xs) auto

lemma find_filter: "(\<And>x. P x \<Longrightarrow> Q x) \<Longrightarrow> find P (filter Q xs) = find P xs"
  by (induction xs) auto

text \<open>The addresses of an interface, none if they cannot be read.\<close>

fun addrs_of :: "net_addr list result \<Rightarrow> net_addr list" where
  "addrs_of (Inl err) = []"
| "addrs_of (Inr addrs) = addrs"

lemma IPs_alt:
  "IPs (Ok ifaces) = concat (map (\<lambda>a. filter (\<lambda>ip. length ip \<noteq> 0) (map ExtractIP (addrs_of a))) ifaces)"
proof -
  have "(case a of Inl err \<Rightarrow> [] | Inr as \<Rightarrow> filter (\<lambda>ip. length ip \<noteq> 0) (map ExtractIP as)) =
      filter (\<lambda>ip. length ip \<noteq> 0) (map ExtractIP (addrs_of a))" for a :: "net_addr list result"
    by (cases a) simp_all
  then show ?thesis by (simp only: IPs_def sum.case)
qed

lemma find_IPs:
  "find IsGlobalUnicast (IPs (Ok ifaces)) =
     find IsGlobalUnicast (map ExtractIP (concat (map addrs_of ifaces)))"
proof (induction ifaces)
  case (Cons a ifaces)
  have "length ip \<noteq> 0" if "IsGlobalUnicast ip" for ip using that by (auto simp: IsGlobalUnicast_def)
  then have "find IsGlobalUnicast (filter (\<lambda>ip. length ip \<noteq> 0) ips) = find IsGlobalUnicast ips" for ips
    by (rule find_filter)
  with Cons show ?case
    by (simp add: IPs_alt find_append del: filter_map length_0_conv split: option.split)
qed (simp add: IPs_def)

section \<open>Properties\<close>

text \<open>
  \<open>GlobalUnicastIP\<close> returns the first address of the interfaces, in the order in which they are
  listed, that is a global unicast address, and fails if there is none: the six tests before the
  last one never exclude an address that the last one accepts.  Interfaces whose addresses cannot
  be read are skipped.
\<close>

theorem GlobalUnicastIP_spec:
  "GlobalUnicastIP (Ok ifaces) =
     (case find IsGlobalUnicast (map ExtractIP (concat (map addrs_of ifaces))) of
        None \<Rightarrow> Err NoGlobalUnicastIP
      | Some ip \<Rightarrow> Ok ip)"
  by (simp only: GlobalUnicastIP_def loop_find find_IPs)

end
