(* ===== verification/Log.thy ===== *)
theory Log
  imports Prelude
begin

text \<open>
  \<^verbatim>\<open>core/components/log/log.go\<close>: the logger interface, the default logger on top of zap and the
  global logger.  A logger acts on a state \<open>'w\<close>, the output; zap is outside the repository.
\<close>

section \<open>The default logger\<close>

text \<open>An argument is a string or a value of another type.\<close>

datatype log_arg = Str string | Other nat

text \<open>The call of zap: none, the method for values or the one for a format.\<close>

datatype log_call = NoCall | Plain log_arg | Formatted string "log_arg list"

text \<open>
  The six methods differ in the level of the method of zap that they call; with several arguments
  the first one must be a string.  \<open>nil\<close> is whether the receiver is nil.
\<close>

definition DefaultLogger_log :: "bool \<Rightarrow> log_arg list \<Rightarrow> log_call run" where
  "DefaultLogger_log nil args =
     (if nil then Return NoCall
      else case args of
        [] \<Rightarrow> Return NoCall
      | [a] \<Rightarrow> Return (Plain a)
      | a # as \<Rightarrow> (case a of Str f \<Rightarrow> Return (Formatted f as) | Other n \<Rightarrow> Panic))"

section \<open>Loggers and the global one\<close>

datatype level = Debug | Info | Warn | Error | PanicLevel | Fatal

text \<open>The methods of a logger, one per level; zap panics or exits at the last two (\<open>Panic\<close>).\<close>

record 'w Logger =
  emit :: "level \<Rightarrow> log_arg list \<Rightarrow> 'w \<Rightarrow> 'w run"

definition NewLoggerByzap :: "(level \<Rightarrow> log_call \<Rightarrow> 'w \<Rightarrow> 'w run) \<Rightarrow> 'w Logger" where
  "NewLoggerByzap z = \<lparr>emit = (\<lambda>l args w.
     case DefaultLogger_log False args of
       Panic \<Rightarrow> Panic
     | Return NoCall \<Rightarrow> Return w
     | Return c \<Rightarrow> z l c w)\<rparr>"

record 'w log_state =
  globalLogger :: "'w Logger"
  sink :: 'w

definition Global :: "'w log_state \<Rightarrow> 'w Logger" where
  "Global s = globalLogger s"

definition ReplaceGlobal :: "'w Logger \<Rightarrow> 'w log_state \<Rightarrow> 'w log_state" where
  "ReplaceGlobal l s = s\<lparr>globalLogger := l\<rparr>"

text \<open>The functions \<open>Debug\<close>, \<open>Info\<close>, \<open>Warn\<close>, \<open>Error\<close>, \<open>Panic\<close> and \<open>Faltal\<close> of the package.\<close>

definition global_log :: "level \<Rightarrow> log_arg list \<Rightarrow> 'w log_state \<Rightarrow> 'w log_state run" where
  "global_log l args s =
     (case emit (Global s) l args (sink s) of
        Panic \<Rightarrow> Panic | Return w \<Rightarrow> Return (s\<lparr>sink := w\<rparr>))"

section \<open>Facts\<close>

text \<open>
  A call with a format, or with at most one argument, reaches zap as it is and never panics by
  itself; a call with several arguments of which the first is not a string panics without output,
  whatever its level.
\<close>

theorem global_log_calls:
  "global_log l [] (ReplaceGlobal (NewLoggerByzap z) s) = Return (ReplaceGlobal (NewLoggerByzap z) s)"
  "global_log l (Str f # a # as) (ReplaceGlobal (NewLoggerByzap z) s) =
     (case z l (Formatted f (a # as)) (sink s) of
        Panic \<Rightarrow> Panic | Return w \<Rightarrow> Return ((ReplaceGlobal (NewLoggerByzap z) s)\<lparr>sink := w\<rparr>))"
  "global_log l (Other n # a # as) (ReplaceGlobal (NewLoggerByzap z) s) = Panic"
  by (simp_all add: global_log_def Global_def ReplaceGlobal_def NewLoggerByzap_def DefaultLogger_log_def
      split: run.split)

end
