(* ===== verification/Concurrency.thy ===== *)
theory Concurrency
  imports Prelude
begin

text \<open>
  \<^verbatim>\<open>internal/concurrency/goroutine.go\<close>: goroutines that recover from a panic.  A function has effects
  on a state and ends by returning or with a panic, whose value is an error or something else.
\<close>

datatype panic_value = PanicError error | PanicOther string

datatype 's fn_end = FnReturned 's | FnPanicked panic_value 's

text \<open>The goroutine of \<open>SafeGo\<close>: what it prints, and the state at its end.\<close>

definition SafeGo :: "('s \<Rightarrow> 's fn_end) \<Rightarrow> 's \<Rightarrow> panic_value list \<times> 's" where
  "SafeGo fn s = (case fn s of FnReturned s1 \<Rightarrow> ([], s1) | FnPanicked err s1 \<Rightarrow> ([err], s1))"

text \<open>
  The assertion \<open>e, _ := err.(error)\<close> gives nil for a value that is not an error; a panic of
  \<open>recoverFn\<close> is not recovered.
\<close>

definition SafeGoWithRecoverFunc ::
    "('s \<Rightarrow> 's fn_end) \<Rightarrow> (error option \<Rightarrow> 's \<Rightarrow> 's fn_end) \<Rightarrow> 's \<Rightarrow> 's fn_end" where
  "SafeGoWithRecoverFunc fn recoverFn s =
     (case fn s of
        FnReturned s1 \<Rightarrow> FnReturned s1
      | FnPanicked err s1 \<Rightarrow>
          recoverFn (case err of PanicError e \<Rightarrow> Some e | PanicOther v \<Rightarrow> None) s1)"

text \<open>
  A panic of the function never ends the process, provided that the recover function does not
  panic; but the recover function sees no error when the panic value is not one.
\<close>

theorem recovered_panics:
  assumes "\<And>e s. \<exists>s1. recoverFn e s = FnReturned s1"
  shows "(\<exists>s1. SafeGoWithRecoverFunc fn recoverFn s = FnReturned s1) \<and>
    (fn s = FnPanicked (PanicOther v) s2 \<longrightarrow> SafeGoWithRecoverFunc fn recoverFn s = recoverFn None s2)"
  using assms by (auto simp: SafeGoWithRecoverFunc_def split: fn_end.split)

end
