(* ===== verification/Spec2Isabelle.thy ===== *)
theory Spec2Isabelle
  imports QueueThreads QueueClock WorkerRun InfomerDecisions Delivery TaskSystem SchedulerThreads Selection Usage
    GoroutineExecutor DockerThreads NetIP Log Concurrency
begin

text \<open>
  A verification development of minitaskx, a distributed task system written in Go.  Users order
  operations on tasks from a scheduler, which records the state that each task should have and
  gives each task to a worker; a worker compares the wanted states of its tasks with the actual ones
  and makes its executors carry out the difference.

  Parts and theories, from the bottom to the top:
  \<^item> \<open>Prelude\<close>: result types (\<open>Ok\<close>, \<open>Err\<close>, \<open>Panic\<close>), times in nanoseconds, Go maps and the order in
    which \<open>range\<close> visits them, \<open>lo.KeyBy\<close>, and the lemma collections.
  \<^item> \<open>TaskModel\<close>: \<^verbatim>\<open>core/model\<close> without resources: states, the table of changes, tasks.
  \<^item> \<open>Metrics\<close>, \<open>WorkQueue\<close>, \<open>QueueThreads\<close>, \<open>QueueClock\<close>: \<^verbatim>\<open>internal/queue\<close>.  \<open>WorkQueue\<close> has each operation of
    \<open>Typed\<close> as one step under its lock, the abstract dispatcher that it refines (locale
    \<open>work_queue\<close> and its interpretation) and the properties of whole runs; \<open>QueueThreads\<close> has
    the same operations called by goroutines that sleep on the condition variable, with the events of
    every step, so that a history of the goroutines is one of the operations; \<open>QueueClock\<close> has the loop
    that updates the metrics at the ticks of a clock.
  \<^item> \<open>Clock\<close>: \<^verbatim>\<open>internal/clock\<close>: the interfaces as records that extend each other, and \<open>RealClock\<close> over the
    timers of the run time in virtual time.
  \<^item> \<open>Cache\<close>, \<open>Indexer\<close>: \<^verbatim>\<open>internal/cache\<close> and the cache of actual states in
    \<^verbatim>\<open>core/worker/infomer/indexer.go\<close>.
  \<^item> \<open>Float64\<close>, \<open>Strconv\<close>: binary64 arithmetic, parsing and printing, as far as the code uses
    them, in integers, so that they evaluate; \<open>FloatBounds\<close>: how far a rounded result is from the
    exact one, and that printing and parsing two decimals loses nothing.
  \<^item> \<open>Retry\<close>: \<^verbatim>\<open>pkg/util/wait\<close> and \<^verbatim>\<open>pkg/util/retry\<close>.
  \<^item> \<open>Components\<close>: the interfaces in \<^verbatim>\<open>core/components\<close>: discovery, election and the repository, which
    extends the \<open>recorder\<close> of \<^verbatim>\<open>core/worker/infomer/dependency.go\<close>, all that the infomer sees of it.
  \<^item> \<open>Resource\<close>: \<^verbatim>\<open>core/model/resource.go\<close> and \<^verbatim>\<open>core/worker/metadata.go\<close>; \<open>Usage\<close>:
    the way of a measured load through the metadata to the scheduler, in exact hundredths.
  \<^item> \<open>Infomer\<close>: the control loop in \<^verbatim>\<open>core/worker/infomer\<close>: triggers, loading, \<open>diff\<close>, exceptions,
    queueing, reports.
  \<^item> \<open>Channels\<close>: a channel with a buffer and several senders, and what it keeps of their order (locale
    \<open>fifo_channel\<close>); \<open>Monitor\<close> and \<open>Triggers\<close> use it for the goroutines of the infomer: the refresher,
    the forwarder and the loop of \<open>Monitor\<close> in \<^verbatim>\<open>indexer.go\<close>, and the watch, the timer and the loop of
    \<open>enqueueIfTaskChange\<close> in \<^verbatim>\<open>trigger.go\<close> and \<^verbatim>\<open>infomer.go\<close>.
  \<^item> \<open>InfomerRun\<close>: \<open>New\<close> and \<open>Run\<close> in \<^verbatim>\<open>infomer.go\<close> with all goroutines of the infomer in one state: the
    triggers, the loop of \<open>enqueueIfTaskChange\<close> and the callback of the monitor statement by statement,
    the recycling of the cache, the consumer and other writers of the repository; \<open>InfomerDecisions\<close>: what a
    change that is handed out rests on, and how \<open>Run\<close> ends.
  \<^item> \<open>Executor\<close>: \<^verbatim>\<open>core/worker/executor\<close>: the interface of executors, the manager and its merged
    channel, and the locale \<open>executor\<close> with what the manager relies on; \<open>GoroutineExecutor\<close> and
    \<open>DockerExecutor\<close> are the two executors and interpret it; \<open>DockerThreads\<close> has the goroutines of
    the second: the caller, the monitors of the containers, the cleanup and the receiver.  \<open>ResultPath\<close>
    joins the merged channel of the manager with the goroutines of \<open>Monitor\<close>; \<open>Delivery\<close>: every result
    gets through, with the number of steps that are left as the measure.
  \<^item> \<open>Scheduler\<close>, \<open>Server\<close>: \<^verbatim>\<open>core/scheduler\<close>; \<open>SchedulerThreads\<close>: the goroutines of the scheduler, which
    meet in the channel of events and the list of workers; \<open>Selection\<close>: the choice of a worker and the
    watch, statement by statement where they share the list, with the lock that only one of the two
    branches of the callback takes.
  \<^item> \<open>Worker\<close>: the methods in \<^verbatim>\<open>core/worker/worker.go\<close> and \<^verbatim>\<open>option.go\<close>; \<open>WorkerSystem\<close>: a worker with
    its repository, cache, queue and executors, where \<open>worker_step\<close> composes the trigger, the syncer,
    the report and the shutdown as they run concurrently, and a trigger may act on outdated views;
    \<open>WorkerRun\<close>: \<open>NewWorker\<close> and \<open>Run\<close>, from the registration over the start of the infomer, which may
    fail, to the end of the shutdown; \<open>worker_env\<close> has what the other goroutines do before the context
    ends, before every attempt to mark the instance, before the drain of the queue begins, while it is
    waited for, and after it until \<open>Run\<close> returns; \<open>recording\<close> (in \<open>Worker\<close>) keeps the calls of discovery.
  \<^item> \<open>TaskSystem\<close>: the scheduler, its server and any number of workers around one repository.
  \<^item> \<open>NetIP\<close>: \<^verbatim>\<open>pkg/util/ip.go\<close>; \<open>Log\<close>: \<^verbatim>\<open>core/components/log\<close>; \<open>Concurrency\<close>:
    \<^verbatim>\<open>internal/concurrency\<close>.
  \<^item> this theory: what holds across the parts.

  Correspondence.  A struct is a record with the fields of the code, a method a function that takes
  and returns the state, with the receiver as its last argument.  Errors are values; a Go panic is
  \<open>Panic\<close> or \<open>CallPanics\<close>, a call that waits is \<open>CallBlocks\<close> or an outcome of its own, and no
  branch of the code is left out for being an error.  Code under one lock is one step; where the
  code lets other goroutines in between, the model is a step relation (\<open>QueueThreads\<close>,
  \<open>GoroutineExecutor\<close>), a run of a list of steps (\<open>Monitor\<close>, \<open>Triggers\<close>, \<open>DockerThreads\<close>,
  \<open>SchedulerThreads\<close>, \<open>Selection\<close>, \<open>ResultPath\<close>, \<open>InfomerRun\<close>, \<open>QueueClock\<close>,
  \<open>WorkerSystem\<close>), or takes the views of the different moments as arguments (the recycling loop,
  \<open>loadTaskPairsThreadSafe\<close>).  A tick of a timer and the end of a context are steps.  Channels with
  a buffer have its bound: ten results in an executor, a hundred in the manager and in each channel
  of the infomer, one event in the scheduler.  Go maps that are shared by copies
  are addresses into a store (metadata of instances).

  Parameters.  Code outside the repository is an argument: the task repository, discovery, the
  election and the Docker client are records of methods on a state of their own type; decoding JSON,
  random numbers, times (outside \<open>QueueClock\<close>, where they come from
  the clock), the order of \<open>range\<close> over a map, the growth of a slice and what the system
  says about load and network addresses are arguments.  No theorem assumes more of them than
  what its hypotheses say, and every theorem with hypotheses is followed by a witness at concrete
  values, where the repository is \<open>mem_TaskRepo\<close>.

  Bounds.  \<open>setInstanceID\<close> recurses on its ten rounds and \<open>ExponentialBackoff\<close> on \<open>Steps\<close>; the pull
  of an image recurses on the events of the stream, of which \<open>deadline\<close> many arrive in time; the goroutine
  executor has no fuel, its termination is counted in steps of the relation (\<open>stop_takes_effect\<close>).
  The state machines recurse on the list of their steps; a step that cannot be taken is \<open>None\<close>.

  What the lemmas show: the table of changes is exactly nine rows and \<open>diff\<close> applies it; a queue
  delivers first in, first out, each item once, and never two of one key at once; no wake-up is
  lost; a change that was handed out is the only one of its task until its result is in; stops
  take effect; the scheduler's filter and score pick the worker they should; a resync, a restart
  of the Docker executor and a recycling round leave the state they should; no trigger and no report
  is lost or overtaken on its own way, and every result arrives; a change that the loop has computed
  still fits the state of its task when it is handed out; every change of the workers is followed by a round of the leader; one round of the
  control loop brings a task to its wanted state, and what a user asks of the server is what the executor
  is told and the repository records in the end (\<open>operation_takes_effect\<close>); what the whole system writes are declared states; the goroutines around the queue are a
  refinement of its operations; a load is written and read back exactly and estimates add up; the
  membership of the workers survives every interleaving; and a worker waits until nothing that was handed
  out is in flight and takes no change after its drain has begun.  Some theorems state
  what the code does where that is not what it means to do: a repeated pause blocks the worker
  (\<open>repeated_pause_deadlocks\<close>), an exit leaves the task running (\<open>exit_leaves_worker_running\<close>) and what is
  left of it can take the stop of the next run (\<open>leftover_goroutine_takes_stop\<close>), a short
  task stays listed as running (\<open>fast_task_stays_running\<close>), an empty list of keys deletes a task
  (\<open>empty_key_list_deletes_wanted_task\<close>), stopping an unknown task never ends
  (\<open>stop_of_unknown_task_writes_paused\<close>), a second drain can hang (\<open>second_drain_can_hang\<close>), a reassignment
  overrides the user (\<open>reassignment_overrides_wanted_state\<close>), a worker that shuts down loses its tasks
  (\<open>graceful_shutdown_orphans_tasks\<close>), a refresh undoes a later report (\<open>stale_refresh_undoes_report\<close>),
  an interval that is not positive ends the worker (\<open>nonpositive_resync_panics\<close>), a short container
  is reported running last (\<open>short_container_reported_running_last\<close>), a choice of a worker undoes a
  notification (\<open>selection_undoes_notification\<close>), a task that is not listed is deleted twice
  (\<open>orphan_deleted_twice\<close>), a restart loses the containers (\<open>recovery_keeps_slash\<close>), the infomer never returns (\<open>Run_never_returns\<close>) and cannot be started again
  after an error (\<open>failed_start_blocks_restart\<close>), and a worker whose infomer does not start stays
  registered (\<open>failed_infomer_leaves_dead_worker\<close>).

  Not modelled: the Kubernetes executor (\<^verbatim>\<open>executor/k8sjob/job.go\<close>), which is commented out;
  \<^verbatim>\<open>pkg/util/pointer.go\<close>, the address of a copy;
  the transport and the binding of requests; the formatting and the output of the loggers; the
  cancellation of a context inside a call of an outside service, which is one of the errors that the
  call may return.
\<close>

section \<open>From an operation to the executor\<close>

text \<open>
  An accepted operation reaches the executor.  When the server has accepted an operation on a
  task whose recorded state is running or paused, and a worker compares the task, now with the new
  wanted state, with an executor that is in the recorded state, the comparison gives exactly one
  change; it is not an exceptional one, its target is the state the user asked for, and the manager
  turns it into the one call of the task's executor that carries it out.
\<close>

theorem accepted_operation_reaches_executor:
  assumes "operate_target repo bizID taskKey r = Ok t"
    and "OperateTask repo bizID taskKey nextStatus r = (None, r')"
    and "task_Status t \<in> {TaskStatusRunning, TaskStatusPaused}"
    and "task_TaskKey w = task_TaskKey t" and "task_WantRunStatus w = nextStatus"
    and "res_Status res = task_Status t" and "executors (task_Type w) = Some exe"
  shows "\<exists>c. diff [\<lparr>want = Some w, real = Some res\<rparr>] = [c] \<and> \<not> IsException c \<and>
    change_target (chg_ChangeType c) = Some nextStatus \<and>
    ChangeHandle executors c s =
      (if nextStatus = TaskStatusRunning then exe_Resume exe (task_TaskKey t) s
       else if nextStatus = TaskStatusPaused then exe_Pause exe (task_TaskKey t) s
       else exe_Stop exe (task_TaskKey t) s)"
proof -
  have "CanTransition (task_Status t) nextStatus = None" "PreWaitStatus nextStatus \<noteq> []"
    using assms(1,2) by (auto simp: OperateTask_def Let_def split: option.splits if_splits)
  then obtain ct where ct: "(task_Status t, nextStatus, ct) \<in> set change_table"
    "nextStatus \<noteq> TaskStatusNotExist"
    using PreWaitStatus_simps(4) by (metis CanTransition_None_iff)
  let ?pair = "\<lparr>want = Some w, real = Some res\<rparr>"
  let ?c = "\<lparr>chg_TaskKey = task_TaskKey t, chg_TaskType = task_Type w, chg_ChangeType = ct,
    chg_Task = None\<rparr>"
  have row: "(task_Status t, nextStatus, ct) \<in>
    {(TaskStatusRunning, TaskStatusPaused, ChangePause), (TaskStatusRunning, TaskStatusStop, ChangeStop),
     (TaskStatusPaused, TaskStatusRunning, ChangeResume), (TaskStatusPaused, TaskStatusStop, ChangeStop)}"
    using ct assms(3) by (auto simp: change_table_def)
  have "diff_pair ?pair = Some ?c"
    using ct(1) row assms(4-6)
    by (auto simp: diff_pair_iff GetChangeType_Ok_iff pair_real_status_def pair_want_status_def
        pair_key_def)
  then have "diff [?pair] = [?c]" by simp
  moreover have "\<not> IsException ?c" using row by (auto simp: IsException_iff)
  moreover have "change_target ct = Some nextStatus" using row by auto
  ultimately show ?thesis
    using row assms(7) by (intro exI [of _ ?c]) (auto simp: ChangeHandle_def getExecutor_def)
qed

section \<open>From the request of a user to the recorded state\<close>

text \<open>
  What the system needs of its repository: \<open>task_at\<close> says that a task is found by its key, alone and in
  a batch; \<open>updates_stored\<close> that a successful update of it changes the states that the update names
  and neither its key nor its type.
\<close>

definition task_at :: "'r TaskRepo \<Rightarrow> 'r \<Rightarrow> Task \<Rightarrow> bool" where
  "task_at repo r t \<longleftrightarrow> GetTask repo (task_TaskKey t) r = Ok t \<and> BatchGetTask repo [task_TaskKey t] r = Ok [t]"

definition updates_stored :: "'r TaskRepo \<Rightarrow> bool" where
  "updates_stored repo \<longleftrightarrow> (\<forall>u r r' t. task_at repo r t \<and> task_TaskKey u = task_TaskKey t \<and>
     UpdateTask repo u r = (None, r') \<longrightarrow>
     (\<exists>t'. task_at repo r' t' \<and> task_TaskKey t' = task_TaskKey t \<and> task_Type t' = task_Type t \<and>
        task_Status t' = (if task_Status u = [] then task_Status t else task_Status u) \<and>
        task_WantRunStatus t' =
          (if task_WantRunStatus u = [] then task_WantRunStatus t else task_WantRunStatus u)))"

lemma updates_storedE:
  assumes "updates_stored repo" and "task_at repo r t" and "task_TaskKey u = task_TaskKey t"
    and "UpdateTask repo u r = (None, r')"
  obtains t' where "task_at repo r' t'" "task_TaskKey t' = task_TaskKey t" "task_Type t' = task_Type t"
    "task_Status t' = (if task_Status u = [] then task_Status t else task_Status u)"
    "task_WantRunStatus t' = (if task_WantRunStatus u = [] then task_WantRunStatus t else task_WantRunStatus u)"
  using assms unfolding updates_stored_def by blast

text \<open>An accepted request leaves the wanted state and its waiting state with the task.\<close>

lemma accepted_request:
  assumes "updates_stored repo" "task_at repo r t" "task_TaskKey t = k" "k \<noteq> []" "o_TaskKey req = k"
    and "server_OperateTask repo (Ok req) r = ((StatusOK, Message), r1)"
  obtains w where "operate_target repo (o_BizID req) k r = Ok t"
    "OperateTask repo (o_BizID req) k (o_Status req) r = (None, r1)"
    "o_Status req \<in> {TaskStatusPaused, TaskStatusRunning, TaskStatusStop}" "o_Status req \<noteq> []"
    "CanTransition (task_Status t) (o_Status req) = None"
    "task_at repo r1 w" "task_TaskKey w = k" "task_Type w = task_Type t"
    "task_Status w = PreWaitStatus (o_Status req)" "task_WantRunStatus w = o_Status req"
proof -
  let ?next = "o_Status req"
  have op: "OperateTask repo (o_BizID req) k ?next r = (None, r1)"
    and known: "?next \<in> {TaskStatusPaused, TaskStatusRunning, TaskStatusStop}"
    using assms(5,6) by (auto simp: server_OperateTask_def Let_def split: if_splits prod.splits option.splits)
  have target: "operate_target repo (o_BizID req) k r = Ok t"
    using assms(2-4) by (simp add: operate_target_def task_at_def)
  have can: "CanTransition (task_Status t) ?next = None"
    and upd: "UpdateTask repo (zero_Task\<lparr>task_TaskKey := k, task_Status := PreWaitStatus ?next,
        task_WantRunStatus := ?next\<rparr>) r = (None, r1)" and pre: "PreWaitStatus ?next \<noteq> []"
    using op target assms(3) by (auto simp: OperateTask_def Let_def split: option.splits if_splits)
  have set: "?next \<noteq> []" using known by (auto simp: status_defs)
  show thesis
    by (rule updates_storedE [OF assms(1,2) _ upd], use assms(3) in simp)
      (rule that [OF target op known set can], use assms(3) pre set in simp_all)
qed

text \<open>
  C2: what a user asks for is what happens.  The server answers a request to pause, resume or stop a
  running or paused task with OK; then the trigger for the task at its idle worker, the syncer and the
  report of the executor, one after the other, make exactly the one call of the executor that carries
  the operation out, and in the end the repository has the state that the user asked for both as the
  actual and as the wanted state, the worker's cache has the report, its queue is idle again, and no
  other worker has been touched.
\<close>

theorem operation_takes_effect:
  assumes repo: "updates_stored repo" "task_at repo (repo_state (sched sys)) t" "task_TaskKey t = k" "k \<noteq> []"
    and state: "task_Status t \<in> {TaskStatusRunning, TaskStatusPaused}"
    and worker: "idle (ws_queue (members sys v))" "cache_ok (ws_cache (members sys v))"
      "range_order ks (items (ws_cache (members sys v)))"
      "items (ws_cache (members sys v)) k = Some old" "res_Status old = task_Status t"
    and request: "o_TaskKey req = k"
      "server_OperateTask repo (Ok req) (repo_state (sched sys)) = ((StatusOK, Message), r1)"
    and executor: "executors (task_Type t) = Some exe"
      "(if o_Status req = TaskStatusRunning then exe_Resume exe k
        else if o_Status req = TaskStatusPaused then exe_Pause exe k
        else exe_Stop exe k) (ws_exec (members sys v)) = (CallReturns None, s1)"
    and report: "res_TaskKey new = k" "res_Status new = o_Status req"
      "fst (UpdateTask repo (zero_Task\<lparr>task_TaskKey := k, task_Status := o_Status req\<rparr>) r1) = None"
  shows "\<exists>sys' t'. system_run repo executors
      [HandleOperate (Ok req),
       WorkerStep v (WTrigger (ws_queue (members sys v)) ks (ws_cache (members sys v)) ks
         (ws_cache (members sys v)) \<lparr>resync = False, taskKeys = [k]\<rparr>),
       WorkerStep v WSync, WorkerStep v (WReport jitter now new)] sys = Some sys' \<and>
    task_at repo (repo_state (sched sys')) t' \<and> task_TaskKey t' = k \<and>
    task_Status t' = o_Status req \<and> task_WantRunStatus t' = o_Status req \<and>
    cache_Get k (ws_cache (members sys' v)) = Some new \<and> ws_exec (members sys' v) = s1 \<and>
    idle (ws_queue (members sys' v)) \<and> (\<forall>u. u \<noteq> v \<longrightarrow> members sys' u = members sys u)"
proof -
  let ?next = "o_Status req" and ?r = "repo_state (sched sys)" and ?m = "members sys v"
  obtain w where target: "operate_target repo (o_BizID req) k ?r = Ok t"
    and op: "OperateTask repo (o_BizID req) k ?next ?r = (None, r1)"
    and known: "?next \<in> {TaskStatusPaused, TaskStatusRunning, TaskStatusStop}" and set: "?next \<noteq> []"
    and can: "CanTransition (task_Status t) ?next = None"
    and w: "task_at repo r1 w" "task_TaskKey w = k" "task_Type w = task_Type t"
      "task_Status w = PreWaitStatus ?next" "task_WantRunStatus w = ?next"
    by (rule accepted_request [OF repo request])
  have same: "task_TaskKey w = task_TaskKey t" "executors (task_Type w) = Some exe"
    using w(2,3) repo(3) executor(1) by simp_all
  obtain c where c: "diff [\<lparr>want = Some w, real = Some old\<rparr>] = [c]" "\<not> IsException c"
    and call: "ChangeHandle executors c (ws_exec ?m) =
      (if ?next = TaskStatusRunning then exe_Resume exe (task_TaskKey t) (ws_exec ?m)
       else if ?next = TaskStatusPaused then exe_Pause exe (task_TaskKey t) (ws_exec ?m)
       else exe_Stop exe (task_TaskKey t) (ws_exec ?m))"
    using accepted_operation_reaches_executor [where executors = executors and s = "ws_exec ?m", OF target op state same(1) w(5) worker(5) same(2)] by blast
  have c3: "ChangeHandle executors c (ws_exec ?m) = (CallReturns None, s1)"
    using executor(2) unfolding call by (simp add: repo(3) split: if_splits)
  from can known obtain ct where "(task_Status t, ?next, ct) \<in> set change_table"
    by (auto simp: CanTransition_None_iff)
  then have ct: "GetChangeType (pair_real_status \<lparr>want = Some w, real = Some old\<rparr>) (task_WantRunStatus w) = Ok ct"
    using worker(5) w(5) by (simp add: GetChangeType_Ok_iff pair_real_status_def)
  from diff_single [OF w(2) ct] c(1) have c': "c = change_of k w ct" by simp
  let ?ws = "?m\<lparr>ws_repo := r1\<rparr>"
  obtain r2 where r2: "UpdateTask repo (zero_Task\<lparr>task_TaskKey := k, task_Status := res_Status new\<rparr>) r1 = (None, r2)"
    using report(2,3) by (metis prod.collapse)
  have final: "not_final \<lparr>want = Some w, real = items (ws_cache ?ws) k\<rparr>"
    using worker(4,5) state w(4) known by (auto simp: not_final_def)
  obtain q where run: "worker_run repo executors [WTrigger (ws_queue ?ws) ks (ws_cache ?ws) ks (ws_cache ?ws)
        \<lparr>resync = False, taskKeys = [k]\<rparr>, WSync, WReport jitter now new] ?ws =
      ([Delivered (change_of k w ct), Finished (key_change k)],
       ?ws\<lparr>ws_repo := r2, ws_cache := Set now k new (ws_cache ?ws), ws_queue := q, ws_exec := s1\<rparr>)" and q: "idle q"
    by (rule control_round [of ?ws ks repo k w ct executors s1 new r2 jitter now])
      (use worker w ct c c3 c' final report(1) r2 in \<open>simp_all add: task_at_def\<close>)
  obtain t' where t': "task_at repo r2 t'" "task_TaskKey t' = k" "task_Status t' = ?next" "task_WantRunStatus t' = ?next"
    by (rule updates_storedE [OF repo(1) w(1) _ r2]) (use w(2,5) report(2) set in \<open>simp_all add: zero_Task_def\<close>)
  let ?sys1 = "sys\<lparr>sched := (sched sys)\<lparr>repo_state := r1\<rparr>\<rparr>"
  have "system_step repo executors (HandleOperate (Ok req)) sys = Some ?sys1" using request(2) by simp
  with system_run_worker [of "[WTrigger (ws_queue ?ws) ks (ws_cache ?ws) ks (ws_cache ?ws)
        \<lparr>resync = False, taskKeys = [k]\<rparr>, WSync, WReport jitter now new]" repo executors v ?sys1] run
  have "system_run repo executors
      [HandleOperate (Ok req), WorkerStep v (WTrigger (ws_queue ?m) ks (ws_cache ?m) ks (ws_cache ?m)
         \<lparr>resync = False, taskKeys = [k]\<rparr>), WorkerStep v WSync, WorkerStep v (WReport jitter now new)] sys =
      Some (?sys1\<lparr>members := (members sys)(v := ?ws\<lparr>ws_repo := r2, ws_cache := Set now k new (ws_cache ?ws),
        ws_queue := q, ws_exec := s1\<rparr>), sched := (sched ?sys1)\<lparr>repo_state := r2\<rparr>\<rparr>)"
    by (simp del: worker_run.simps system_step.simps)
  with t' q show ?thesis by (intro exI conjI) (assumption | simp add: cache_Get_def Set_def)+
qed

section \<open>Serial execution per task\<close>

text \<open>
  C1: the operations on one task are carried out one at a time.  Start a worker with an empty queue
  and let triggers, executions, reports and the shutdown interleave in any way, with triggers that
  act on outdated views of the queue and the cache and executors that fail or block: after a change
  has been handed to an executor, no other change of the same task is, until the first has failed
  or a result of the task has been reported.
\<close>

theorem one_change_per_task_in_flight:
  assumes "\<And>c n. n \<le> grow c n" and "ws_queue ws = NewTyped grow now"
  shows "serial GetUniKey {} (fst (worker_run repo executors ops ws))"
proof -
  have "queue_inv change_key (ws_queue ws)"
    unfolding assms(2) NewTyped_eq by (rule newQueue_inv) (rule assms(1))
  from worker_run_serial [OF this] show ?thesis by (simp add: assms(2) newQueue_simps)
qed

section \<open>Shutdown of a worker, seen by the scheduler\<close>

text \<open>
  Discovery shows an instance as it was announced last.
\<close>

definition shown :: "meta_store \<Rightarrow> discover_call list \<Rightarrow> Instance \<Rightarrow> bool" where
  "shown h calls i \<longleftrightarrow> (case last calls of
     CallUpdate m \<Rightarrow> Ip i = sent_Ip m \<and> Port i = sent_Port m \<and> Healthy i = sent_Healthy m \<and>
       Enable i = sent_Enable m \<and> metadata h i = sent_Metadata m
   | _ \<Rightarrow> False)"

text \<open>
  C39: a worker that shuts down loses its tasks while it still runs them.  Let \<open>gracefulShutdown\<close> go up
  to the begin of its drain without a step of the other goroutines in between (the next round of the
  reporter would announce the id again), let discovery show the instance as the worker has announced
  it last, under an instance id that is not the worker's id, and give the scheduler a list with this and
  any other instances, none of which has the worker's id.  The announcement has no worker id, so after the callback of the watch every runnable task of the worker
  counts as unassigned: if the task does not tolerate the disable stain, the instance itself is no
  candidate for it, and if just one other worker is, the task is written to that one, to be run there.
  The old worker has meanwhile given no order to an executor, and its cache and what is being processed
  are as before.
\<close>

theorem graceful_shutdown_orphans_tasks:
  assumes "drain_begins (recording disc) (others_step (recording disc) repo executors opts up w) env w ((d, l), ws) =
      ((d', calls), ws')" and "env_marking env = []" and "env_starting env = ([], [])"
    and "i \<in> set services" and "shown (meta s) calls i" and "InstanceId i \<noteq> wid w"
    and "\<And>j. j \<in> set services \<Longrightarrow> j \<noteq> i \<Longrightarrow> ID (meta s) j \<noteq> wid w"
    and "ListRunnableTasks repo [] (repo_state s) = Ok keys"
    and "BatchGetTask repo keys (repo_state s) = Ok tasks"
    and "snd (watchWorkers services err s) = s'"
  shows "ws' = ws \<and> ws_exec (begin_drain ws') = ws_exec ws \<and> ws_cache (begin_drain ws') = ws_cache ws \<and>
    processing (ws_queue (begin_drain ws')) = processing (ws_queue ws) \<and> i \<in> set (availableWorkers s') \<and>
    (\<exists>ts. loadNeedAssignTasks repo s' = Ok ts \<and>
      (\<forall>t\<in>set tasks. task_WorkerID t = wid w \<longrightarrow> t \<in> set ts \<and>
        (task_Stains t stainDisable = None \<longrightarrow> i \<notin> set (filterWorker (meta s) t (availableWorkers s')) \<and>
          (\<forall>j. filterWorker (meta s) t (availableWorkers s') = [j] \<longrightarrow>
             (\<exists>err2 r. UpdateTask repo (zero_Task\<lparr>task_TaskKey := task_TaskKey t,
                task_Status := TaskStatusWaitRunning, task_NextRunAt := Some now,
                task_WorkerID := ID (meta s) j, task_WantRunStatus := TaskStatusRunning\<rparr>) (repo_state s) = (err2, r) \<and>
              assignTask repo now t s' = Return (err2, s'\<lparr>repo_state := r\<rparr>))))))"
proof -
  obtain d2 calls2 where "drain_begins (recording disc) (others_step (recording disc) repo executors opts up w) env w
      ((d, l), ws) = ((d2, calls2), ws)" "last calls2 = mark_call w"
    by (rule drain_begins_alone [OF assms(2,3)])
  with assms(1) have begun: "ws' = ws" "last calls = mark_call w" by simp_all
  with assms(5) have i: "Healthy i" "metadata (meta s) i = [stainDisable \<mapsto> ''true'']"
    by (simp_all add: shown_def mark_call_def)
  then have id_i: "ID (meta s) i = InstanceId i" by (simp add: ID_alt)
  have stain: "Parsestain (metadata (meta s) i) = [stainDisable \<mapsto> ''true'']" by (simp add: i(2) Parsestain_simps)
  have s': "s' = s\<lparr>availableWorkers := filter Healthy services\<rparr>"
    using assms(10) by (auto simp: watchWorkers_def setAvailableWorkers_def Let_def split: if_splits)
  have none: "\<not> list_ex (\<lambda>j. ID (meta s) j = wid w) (filter Healthy services)"
    unfolding list_ex_iff using assms(6,7) id_i by (metis filter_is_subset subsetD)
  have workers: "availableWorkers s' = filter Healthy services" by (simp add: s')
  have assign: "\<exists>err2 r. UpdateTask repo (zero_Task\<lparr>task_TaskKey := task_TaskKey t,
        task_Status := TaskStatusWaitRunning, task_NextRunAt := Some now, task_WorkerID := ID (meta s) j,
        task_WantRunStatus := TaskStatusRunning\<rparr>) (repo_state s) = (err2, r) \<and>
      assignTask repo now t s' = Return (err2, s'\<lparr>repo_state := r\<rparr>)"
    if one: "filterWorker (meta s) t (availableWorkers s') = [j]" for t j
  proof -
    obtain err2 r where u: "UpdateTask repo (zero_Task\<lparr>task_TaskKey := task_TaskKey t,
        task_Status := TaskStatusWaitRunning, task_NextRunAt := Some now, task_WorkerID := ID (meta s) j,
        task_WantRunStatus := TaskStatusRunning\<rparr>) (repo_state s) = (err2, r)" by fastforce
    have "filter Healthy services \<noteq> []" using one workers by auto
    with one u show ?thesis
      by (simp add: assignTask_def selectWorkerID_def getAvailableWorkers_def s' Let_def)
  qed
  have "loadNeedAssignTasks repo s' = Ok (filter (\<lambda>t. \<not> list_ex (\<lambda>j. ID (meta s) j = task_WorkerID t)
      (filter Healthy services)) tasks)"
    using assms(8,9) by (simp add: s' loadNeedAssignTasks_def getAvailableWorkers_def)
  moreover have "i \<in> set (availableWorkers s')" using workers i(1) assms(4) by simp
  ultimately show ?thesis
    using begun(1) none assign filterWorker_disabled [OF stain] by simp
qed

section \<open>Witnesses\<close>

theorem accepted_operation_reaches_executor_witness:
  "\<exists>c. diff [\<lparr>want = Some (demo_task ''a'' TaskStatusWaitPaused TaskStatusPaused),
        real = Some (demo_result ''a'' TaskStatusRunning)\<rparr>] = [c] \<and>
     ChangeHandle [''goroutine'' \<mapsto> goroutine_Interface []] c goroutine_NewExecutor =
       goroutine_Pause ''a'' goroutine_NewExecutor"
proof -
  have t: "operate_target mem_TaskRepo [] ''a'' demo_repo = Ok (demo_task ''a'' TaskStatusRunning TaskStatusRunning)"
    by (simp add: operate_target_def mem_TaskRepo_def demo_repo_def)
  then obtain r' where op: "OperateTask mem_TaskRepo [] ''a'' TaskStatusPaused demo_repo = (None, r')"
    by (simp add: OperateTask_def CanTransition_def GetChangeType_def mem_TaskRepo_def)
  from accepted_operation_reaches_executor [OF t op,
      where w = "demo_task ''a'' TaskStatusWaitPaused TaskStatusPaused"
      and res = "demo_result ''a'' TaskStatusRunning" and exe = "goroutine_Interface []"
      and executors = "[''goroutine'' \<mapsto> goroutine_Interface []]" and s = goroutine_NewExecutor]
  obtain c where "diff [\<lparr>want = Some (demo_task ''a'' TaskStatusWaitPaused TaskStatusPaused),
        real = Some (demo_result ''a'' TaskStatusRunning)\<rparr>] = [c]"
    "ChangeHandle [''goroutine'' \<mapsto> goroutine_Interface []] c goroutine_NewExecutor =
       exe_Pause (goroutine_Interface []) ''a'' goroutine_NewExecutor"
    by (auto simp del: diff.simps)
  then show ?thesis
    by (intro exI [of _ c]) (simp add: goroutine_Interface_def del: diff.simps)
qed

lemma mem_updates_stored: "updates_stored mem_TaskRepo"
proof -
  have keys: "task_TaskKey (merge_task u t) = task_TaskKey t" "task_Type (merge_task u t) = task_Type t"
    "task_Status (merge_task u t) = (if task_Status u = [] then task_Status t else task_Status u)"
    "task_WantRunStatus (merge_task u t) = (if task_WantRunStatus u = [] then task_WantRunStatus t else task_WantRunStatus u)"
    for u t by (simp_all add: merge_task_def Let_def)
  have find: "find P xs = (case filter P xs of [] \<Rightarrow> None | x # _ \<Rightarrow> Some x)" for P and xs :: "Task list"
    by (induction xs) auto
  have upd: "filter (\<lambda>t. task_TaskKey t = k) (map (\<lambda>t. if task_TaskKey t = k then merge_task u t else t) ts) =
      map (merge_task u) (filter (\<lambda>t. task_TaskKey t = k) ts)" for k u ts
    by (induction ts) (simp_all add: keys)
  show ?thesis
    unfolding updates_stored_def
  proof (intro allI impI, elim conjE)
    fix u r r' t
    assume t: "task_at mem_TaskRepo r t" "task_TaskKey u = task_TaskKey t" "UpdateTask mem_TaskRepo u r = (None, r')"
    then have "filter (\<lambda>s. task_TaskKey s = task_TaskKey t) (rows r) = [t]"
      by (simp add: task_at_def mem_TaskRepo_def)
    moreover have "rows r' = map (\<lambda>s. if task_TaskKey s = task_TaskKey t then merge_task u s else s) (rows r)"
      using t(2,3) by (auto simp: mem_TaskRepo_def)
    ultimately have "task_at mem_TaskRepo r' (merge_task u t)"
      by (simp add: task_at_def mem_TaskRepo_def find keys upd)
    then show "\<exists>t'. task_at mem_TaskRepo r' t' \<and> task_TaskKey t' = task_TaskKey t \<and> task_Type t' = task_Type t \<and>
        task_Status t' = (if task_Status u = [] then task_Status t else task_Status u) \<and>
        task_WantRunStatus t' = (if task_WantRunStatus u = [] then task_WantRunStatus t else task_WantRunStatus u)"
      by (intro exI [of _ "merge_task u t"]) (simp add: keys)
  qed
qed

theorem operation_takes_effect_witness:
  "\<exists>sys' t'. system_run mem_TaskRepo [''goroutine'' \<mapsto> demo_exe]
      [HandleOperate (Ok \<lparr>o_BizID = [], o_TaskKey = ''a'', o_Status = TaskStatusPaused\<rparr>),
       WorkerStep ''w'' (WTrigger (NewTyped grow2 0) [''a''] (demo_running ''a'') [''a''] (demo_running ''a'')
         \<lparr>resync = False, taskKeys = [''a'']\<rparr>),
       WorkerStep ''w'' WSync, WorkerStep ''w'' (WReport (\<lambda>_. Fin 0 0) 7 (demo_result ''a'' TaskStatusPaused))]
      \<lparr>sched = test_scheduler\<lparr>repo_state := demo_repo\<rparr>,
       members = (\<lambda>_. \<lparr>ws_repo = demo_repo, ws_cache = demo_running ''a'', ws_queue = NewTyped grow2 0, ws_exec = []\<rparr>)\<rparr> =
      Some sys' \<and> task_at mem_TaskRepo (repo_state (sched sys')) t' \<and> task_TaskKey t' = ''a'' \<and>
    task_Status t' = TaskStatusPaused \<and> task_WantRunStatus t' = TaskStatusPaused"
proof -
  let ?req = "\<lparr>o_BizID = [], o_TaskKey = ''a'', o_Status = TaskStatusPaused\<rparr>"
  let ?sys = "\<lparr>sched = test_scheduler\<lparr>repo_state := demo_repo\<rparr>,
     members = (\<lambda>_. \<lparr>ws_repo = demo_repo, ws_cache = demo_running ''a'', ws_queue = NewTyped grow2 0, ws_exec = [] :: TaskExecResult list\<rparr>)\<rparr>"
  let ?t = "demo_task ''a'' TaskStatusRunning TaskStatusRunning"
  have "queue_inv change_key (NewTyped grow2 0)"
    unfolding NewTyped_eq by (intro newQueue_inv grow2_ge)
  then have 1: "idle (ws_queue (members ?sys ''w''))" by (simp add: idle_def newQueue_simps)
  have 2: "task_at mem_TaskRepo (repo_state (sched ?sys)) ?t"
    by (simp add: task_at_def mem_TaskRepo_def demo_repo_def)
  obtain r1 where 3: "server_OperateTask mem_TaskRepo (Ok ?req) (repo_state (sched ?sys)) = ((StatusOK, Message), r1)"
    by (simp add: server_OperateTask_def OperateTask_def operate_target_def CanTransition_def GetChangeType_def
        mem_TaskRepo_def demo_repo_def)
  have 4: "cache_ok (demo_running ''a'')" "range_order [''a''] (items (demo_running ''a''))"
    "items (demo_running ''a'') ''a'' = Some (demo_result ''a'' TaskStatusRunning)"
    using demo_running_ok by (simp_all add: demo_running_items)
  have 5: "fst (UpdateTask mem_TaskRepo u r) = None" for u r by (simp add: mem_TaskRepo_def)
  from operation_takes_effect [where sys = ?sys and v = "''w''" and t = ?t and req = ?req and exe = demo_exe
      and executors = "[''goroutine'' \<mapsto> demo_exe]" and ?s1.0 = "[]" and new = "demo_result ''a'' TaskStatusPaused"
      and old = "demo_result ''a'' TaskStatusRunning" and ks = "[''a'']" and jitter = "\<lambda>_. Fin 0 0" and now = 7 and k = "''a''",
      OF mem_updates_stored 2 _ _ _ 1 _ _ _ _ _ 3 _ _ _ _ 5] 4
  show ?thesis by (simp add: demo_exe_def del: system_run.simps) blast
qed

theorem one_change_per_task_in_flight_witness:
  "serial GetUniKey {} (fst (worker_run mem_TaskRepo [''goroutine'' \<mapsto> goroutine_Interface []]
     [WTrigger demo_changes [''a''] (demo_running ''a'') [''a''] (demo_running ''a'')
        \<lparr>resync = True, taskKeys = [''a'', ''b'']\<rparr>, WSync, WSync,
      WReport (\<lambda>_. Fin 0 0) 5 (demo_result ''a'' TaskStatusStop), WShutdown, WSync]
     \<lparr>ws_repo = demo_repo, ws_cache = demo_running ''a'', ws_queue = NewTyped grow2 0,
      ws_exec = goroutine_NewExecutor\<rparr>))"
  by (rule one_change_per_task_in_flight [where grow = grow2 and now = 0]) (simp_all add: grow2_ge)

theorem graceful_shutdown_orphans_tasks_witness:
  "\<exists>s t r. availableWorkers s = [(test_instance 0)\<lparr>Enable := False\<rparr>, test_instance 1] \<and>
     metadata (meta s) ((test_instance 0)\<lparr>Enable := False\<rparr>) = [stainDisable \<mapsto> ''true''] \<and>
     repo_state s = \<lparr>rows = [t], updates = []\<rparr> \<and> task_WorkerID t = ''w'' \<and>
     assignTask mem_TaskRepo 7 t s = Return (None, s\<lparr>repo_state := r\<rparr>) \<and> map task_WorkerID (rows r) = [''v'']"
proof -
  let ?w = "\<lparr>wid = ''w'', wip = [], wport = 0\<rparr>" and ?env = "demo_env\<lparr>env_marking := []\<rparr>"
  let ?i = "(test_instance 0)\<lparr>Enable := False\<rparr>" and ?j = "test_instance 1"
  define t where "t = zero_Task\<lparr>task_TaskKey := ''t'', task_WorkerID := ''w'', task_Status := TaskStatusRunning\<rparr>"
  have t: "task_TaskKey t = ''t''" "task_WorkerID t = ''w''" "task_Stains t = Map.empty"
    "task_Status t = TaskStatusRunning" by (simp_all add: t_def zero_Task_def)
  let ?s = "test_scheduler\<lparr>meta := test_store [[stainDisable \<mapsto> ''true''], [''worker_id'' \<mapsto> ''v'']],
    repo_state := \<lparr>rows = [t], updates = []\<rparr>\<rparr>"
  have env: "env_marking ?env = []" "env_starting ?env = ([], [])" by (simp_all add: demo_env_def)
  obtain d' calls where run: "drain_begins (recording demo_Discover) (others_step (recording demo_Discover) mem_TaskRepo
      [''g'' \<mapsto> demo_exe] (newOptions 0 []) True ?w) ?env ?w (([], []), WorkerRun.demo_start) = ((d', calls), WorkerRun.demo_start)"
    "last calls = mark_call ?w" by (rule drain_begins_alone [OF env])
  have md: "metadata (meta ?s) ?i = [stainDisable \<mapsto> ''true'']" "metadata (meta ?s) ?j = [''worker_id'' \<mapsto> ''v'']"
    by (simp_all add: metadata_def test_instance_def test_store_def)
  have i: "?i \<in> set [?i, ?j]" "InstanceId ?i \<noteq> wid ?w" by (simp_all add: test_instance_def)
  have sh: "shown (meta ?s) calls ?i"
    unfolding shown_def run(2) mark_call_def using md(1) by (simp add: test_instance_def)
  have j: "ID (meta ?s) x \<noteq> wid ?w" if "x \<in> set [?i, ?j]" "x \<noteq> ?i" for x
    using that md(2) by (auto simp: ID_alt go_get_def)
  have repo: "ListRunnableTasks mem_TaskRepo [] (repo_state ?s) = Ok [''t'']"
    "BatchGetTask mem_TaskRepo [''t''] (repo_state ?s) = Ok [t]" by (simp_all add: mem_TaskRepo_def t)
  define s' where "s' = snd (watchWorkers [?i, ?j] None ?s)"
  have s': "availableWorkers s' = [?i, ?j]" "meta s' = meta ?s" "repo_state s' = repo_state ?s"
    by (simp_all add: s'_def watchWorkers_def setAvailableWorkers_def test_instance_def Let_def)
  have one: "filterWorker (meta ?s) t (availableWorkers s') = [?j]"
    unfolding s'(1) using md by (simp add: Parsestain_simps status_defs stains_match_def t)
  have id_j: "ID (meta ?s) ?j = ''v''" using md(2) by (simp add: ID_alt go_get_def)
  note main = graceful_shutdown_orphans_tasks [OF run(1) env i(1) sh i(2) j repo s'_def [symmetric], where now = 7]
  have "t \<in> set [t]" "task_WorkerID t = wid ?w" "task_Stains t stainDisable = None" by (simp_all add: t)
  with main one obtain err r where
    "UpdateTask mem_TaskRepo (zero_Task\<lparr>task_TaskKey := task_TaskKey t, task_Status := TaskStatusWaitRunning,
       task_NextRunAt := Some 7, task_WorkerID := ID (meta ?s) ?j, task_WantRunStatus := TaskStatusRunning\<rparr>) (repo_state ?s) = (err, r)"
    "assignTask mem_TaskRepo 7 t s' = Return (err, s'\<lparr>repo_state := r\<rparr>)"
    by blast
  with s' md(1) t id_j show ?thesis
    by (intro exI [of _ s'] exI [of _ t] exI [of _ r]) (auto simp: mem_TaskRepo_def merge_task_def zero_Task_def Let_def)
qed

end
